(* ===== verification/Prelude.thy ===== *)
theory Prelude
  imports Main "HOL-Library.Word" "HOL-Library.Char_ord" "HOL-Library.List_Lexorder"
begin

text \<open>
  Shared ground of the development: the machine types, the ways an operation of the program
  can stop (\<open>abort\<close>) and the result type every fallible operation returns, the byte layout of
  a \<open>uint32_t\<close> in memory, \<open>std::map\<close> as an association list kept in key order, decimal
  printing, and two locales, \<open>guarded_system\<close> and \<open>safe_system\<close>: a state machine with an
  invariant, whose run lemmas each component reuses.
\<close>

unbundle bit_operations_syntax

section \<open>Machine types\<close>

type_synonym byte = "8 word"
type_synonym u16 = "16 word"
type_synonym u32 = "32 word"

section \<open>Results\<close>

text \<open>
  The program is built with \<open>CMAKE_BUILD_TYPE Debug\<close> (\<open>CMakeLists.txt\<close>), so \<open>assert\<close> and
  \<open>ROS_ASSERT\<close> are live. An operation ends early by one of them, by \<open>ROS_BREAK\<close>, by the
  \<open>std::out_of_range\<close> that \<open>vector::at\<close> and \<open>string::substr\<close> throw, by dereferencing a
  null pointer, or by calling an empty \<open>boost::function\<close> (\<open>Bad_Call\<close>); a use of a deleted object or of an
  invalidated iterator is \<open>Use_After_Free\<close>; \<open>Stream_Overrun\<close> is the exception the serialization library
  throws when a buffer is too short for the message it should hold. None of these is caught anywhere in the program.
  \<open>Missing_Return\<close> is the undefined behaviour of a function that ends without the value it promised,
  \<open>Buffer_Overflow\<close> a write past the end of an array, \<open>Zmq_Error\<close> the exception of the ZeroMQ binding.
\<close>

datatype abort = Assert_Failed | Ros_Break | Out_Of_Range | Null_Deref | Bad_Call
  | Use_After_Free | Stream_Overrun | Missing_Return | Buffer_Overflow | Zmq_Error

type_synonym 'a res = "abort + 'a"

named_theorems res_simps \<open>rewriting of fallible results\<close>

definition bindR :: "'a res \<Rightarrow> ('a \<Rightarrow> 'b res) \<Rightarrow> 'b res" where
  "bindR m f = (case m of Inl e \<Rightarrow> Inl e | Inr x \<Rightarrow> f x)"

definition ensure :: "bool \<Rightarrow> abort \<Rightarrow> 'a res \<Rightarrow> 'a res" where
  "ensure b e k = (if b then k else Inl e)"

lemma bindR_simps [simp]:
  "bindR (Inl e) f = Inl e"
  "bindR (Inr x) f = f x"
  by (simp_all add: bindR_def)

lemma bindR_eq_Inr [res_simps]:
  "bindR m f = Inr y \<longleftrightarrow> (\<exists>x. m = Inr x \<and> f x = Inr y)"
  by (cases m) auto

lemma bindR_eq_Inl [res_simps]:
  "bindR m f = Inl e \<longleftrightarrow> m = Inl e \<or> (\<exists>x. m = Inr x \<and> f x = Inl e)"
  by (cases m) auto

lemma bindR_assoc: "bindR (bindR m f) g = bindR m (\<lambda>x. bindR (f x) g)"
  by (cases m) auto

lemma ensure_simps [simp]:
  "ensure True e k = k"
  "ensure False e k = Inl e"
  by (simp_all add: ensure_def)

lemma ensure_eq_Inr [res_simps]: "ensure b e k = Inr y \<longleftrightarrow> b \<and> k = Inr y"
  by (simp add: ensure_def)

lemma ensure_eq_Inl [res_simps]:
  "ensure b e k = Inl d \<longleftrightarrow> (\<not> b \<and> d = e) \<or> (b \<and> k = Inl d)"
  by (auto simp: ensure_def)

text \<open>A \<open>for\<close> loop over a list of items that stops at the first abort.\<close>

fun foldR :: "('x \<Rightarrow> 's \<Rightarrow> 's res) \<Rightarrow> 'x list \<Rightarrow> 's \<Rightarrow> 's res" where
  "foldR f [] s = Inr s"
| "foldR f (x # xs) s = bindR (f x s) (foldR f xs)"

lemma foldR_append: "foldR f (xs @ ys) s = bindR (foldR f xs s) (foldR f ys)"
proof (induction xs arbitrary: s)
  case (Cons x xs)
  then show ?case by (cases "f x s") simp_all
qed simp

lemma foldR_inv:
  assumes "\<And>x s s'. x \<in> set xs \<Longrightarrow> I s \<Longrightarrow> f x s = Inr s' \<Longrightarrow> I s'"
    and "I s" and "foldR f xs s = Inr s'"
  shows "I s'"
  using assms
proof (induction xs arbitrary: s)
  case Nil
  then show ?case by simp
next
  case (Cons x xs)
  from Cons.prems(3) obtain t where t: "f x s = Inr t" "foldR f xs t = Inr s'"
    by (auto simp: res_simps)
  have "I t" using Cons.prems(1)[of x s t] Cons.prems(2) t(1) by simp
  then show ?case using Cons.IH[of t] Cons.prems(1) t(2) by (meson list.set_intros(2))
qed

section \<open>State machines with an invariant\<close>

text \<open>
  A component is a step function over its operations. The run of a list of operations stops
  at the first abort. \<open>guarded_system\<close> asks that each allowed operation keeps the invariant when
  it returns; \<open>safe_system\<close> that, under the invariant, the allowed operations return at all.
\<close>

locale guarded_system =
  fixes step :: "'e \<Rightarrow> 's \<Rightarrow> 's res"
    and inv :: "'s \<Rightarrow> bool"
    and ok :: "'e \<Rightarrow> bool"
  assumes step_inv: "inv s \<Longrightarrow> ok e \<Longrightarrow> step e s = Inr s' \<Longrightarrow> inv s'"
begin

lemma run_inv: "inv s \<Longrightarrow> list_all ok es \<Longrightarrow> foldR step es s = Inr s' \<Longrightarrow> inv s'"
  by (rule foldR_inv[where f = step and xs = es]) (auto intro: step_inv simp: list_all_iff)

end

locale safe_system = guarded_system +
  assumes step_safe: "inv s \<Longrightarrow> ok e \<Longrightarrow> \<exists>s'. step e s = Inr s'"
begin

lemma run_safe: "inv s \<Longrightarrow> list_all ok es \<Longrightarrow> \<exists>s'. foldR step es s = Inr s' \<and> inv s'"
proof (induction es arbitrary: s)
  case Nil
  then show ?case by simp
next
  case (Cons e es)
  then obtain t where t: "step e s = Inr t" using step_safe by fastforce
  with Cons.prems have "inv t" by (auto intro: step_inv)
  with Cons t show ?case by simp
qed

end

section \<open>Bytes of a word in memory\<close>

text \<open>
  The program writes and reads a \<open>uint32_t\<close> through a byte pointer, in host order. The hosts
  it is built for are little-endian: the first byte in memory is the least significant one.
  \<open>poke_u32 w k bs\<close> is the word after the bytes \<open>bs\<close> are stored at offset \<open>k\<close> of its four.
\<close>

definition u32_bytes :: "u32 \<Rightarrow> byte list" where
  "u32_bytes w = [ucast w, ucast (drop_bit 8 w), ucast (drop_bit 16 w), ucast (drop_bit 24 w)]"

definition bytes_u32 :: "byte list \<Rightarrow> u32" where
  "bytes_u32 bs = ucast (bs ! 0) OR push_bit 8 (ucast (bs ! 1))
     OR push_bit 16 (ucast (bs ! 2)) OR push_bit 24 (ucast (bs ! 3))"

definition poke_u32 :: "u32 \<Rightarrow> nat \<Rightarrow> byte list \<Rightarrow> u32" where
  "poke_u32 w k bs = bytes_u32 (take k (u32_bytes w) @ bs @ drop (k + length bs) (u32_bytes w))"

lemma length_u32_bytes [simp]: "length (u32_bytes w) = 4"
  by (simp add: u32_bytes_def)

lemma u32_bytes_neq_Nil [simp]: "u32_bytes w \<noteq> []"
  by (simp add: u32_bytes_def)

lemma bit_bytes_u32: "bit (bytes_u32 [a, b, c, d]) n =
  (if n < 8 then bit a n else if n < 16 then bit b (n - 8)
   else if n < 24 then bit c (n - 16) else n < 32 \<and> bit d (n - 24))"
proof -
  have high: "\<not> bit x m" if "8 \<le> m" for x :: byte and m
    using bit_imp_le_length[of x m] that by auto
  show ?thesis
    by (simp add: bytes_u32_def bit_simps high) (auto simp: high)
qed

lemma bytes_u32_bytes [simp]: "bytes_u32 (u32_bytes w) = w"
  by (rule bit_word_eqI) (auto simp: u32_bytes_def bit_bytes_u32 bit_simps)

lemma u32_bytes_u32 [simp]: "length bs = 4 \<Longrightarrow> u32_bytes (bytes_u32 bs) = bs"
proof -
  assume "length bs = 4"
  then obtain a b c d where bs: "bs = [a, b, c, d]"
    by (auto simp: eval_nat_numeral length_Suc_conv)
  show ?thesis
    by (simp add: bs u32_bytes_def) (auto intro!: bit_word_eqI simp: bit_simps bit_bytes_u32)
qed

lemma u32_bytes_inj [simp]: "u32_bytes v = u32_bytes w \<longleftrightarrow> v = w"
  by (metis bytes_u32_bytes)

lemma u32_bytes_poke:
  assumes "k + length bs \<le> 4"
  shows "u32_bytes (poke_u32 w k bs) = take k (u32_bytes w) @ bs @ drop (k + length bs) (u32_bytes w)"
  using assms by (simp add: poke_u32_def)

lemma take_u32_bytes_poke:
  assumes "k + length bs \<le> 4"
  shows "take (k + length bs) (u32_bytes (poke_u32 w k bs)) = take k (u32_bytes w) @ bs"
  using assms by (simp add: u32_bytes_poke)

lemma u32_bytes_zero: "u32_bytes 0 = [0, 0, 0, 0]"
  by (simp add: u32_bytes_def)

lemma u32_bytes_poke_self:
  assumes "bs = take n (drop k (u32_bytes v))" and "take k (u32_bytes w) = take k (u32_bytes v)"
    and "k + n = 4"
  shows "poke_u32 w k bs = v"
proof -
  have "take k (u32_bytes w) @ bs = u32_bytes v"
    using assms by simp
  moreover have "k + length bs = 4" using assms by simp
  ultimately show ?thesis by (simp add: poke_u32_def)
qed

section \<open>Counters\<close>

text \<open>Arithmetic of the four-byte counters, and splitting a partly sent buffer.\<close>

lemma drop_take_split:
  assumes "a + k \<le> n"
  shows "drop a (take n xs) = take k (drop a xs) @ drop (a + k) (take n xs)"
proof -
  have "take k (drop a (take n xs)) = take k (drop a xs)"
    using assms by (simp add: drop_take min_absorb1)
  then show ?thesis
    using append_take_drop_id[of k "drop a (take n xs)"] by (simp add: add.commute)
qed

lemma u32_bound: "unat (a :: u32) < 2 ^ 32"
  using unsigned_less[of a, where ?'a = nat] by simp

lemma unat_add_of_nat: "unat (a :: u32) + k < 2 ^ 32 \<Longrightarrow> unat (a + of_nat k) = unat a + k"
  by (simp add: unat_word_ariths unat_of_nat)

lemma unat_of_nat_u32: "n < 2 ^ 32 \<Longrightarrow> unat (of_nat n :: u32) = n"
  using unat_add_of_nat[of 0 n] by simp

lemma unat_4_minus: "unat (a :: u32) \<le> 4 \<Longrightarrow> unat (4 - a) = 4 - unat a"
  by (subst unat_sub) (simp_all add: word_le_nat_alt)

lemma of_int_int_word: "(of_int (int k) :: 'a::len word) = of_nat k"
  by simp

lemma less_4_iff: "(a :: u32) < 4 \<longleftrightarrow> unat a < 4"
  by (simp add: word_less_nat_alt)


section \<open>Ordered maps\<close>

text \<open>
  \<open>std::map\<close> is an association list in strictly ascending key order, the order its iterators
  follow. \<open>oput\<close> is \<open>m[k] = v\<close>, \<open>odel\<close> is \<open>m.erase(k)\<close>, \<open>map_of\<close> is \<open>m.find(k)\<close>. Strings
  compare by their bytes, as \<open>std::string\<close> does (theories \<open>Char_ord\<close> and \<open>List_Lexorder\<close>).
\<close>

type_synonym ('k, 'v) omap = "('k \<times> 'v) list"

fun oput :: "'k::linorder \<Rightarrow> 'v \<Rightarrow> ('k, 'v) omap \<Rightarrow> ('k, 'v) omap" where
  "oput k v [] = [(k, v)]"
| "oput k v (p # m) =
     (if k < fst p then (k, v) # p # m
      else if k = fst p then (k, v) # m
      else p # oput k v m)"

definition odel :: "'k \<Rightarrow> ('k, 'v) omap \<Rightarrow> ('k, 'v) omap" where
  "odel k m = filter (\<lambda>p. fst p \<noteq> k) m"

definition oset :: "'k \<Rightarrow> 'v \<Rightarrow> ('k, 'v) omap \<Rightarrow> ('k, 'v) omap" where
  \<comment> \<open>assignment through an iterator or reference to an existing entry\<close>
  "oset k v m = map (\<lambda>p. if fst p = k then (k, v) else p) m"

definition omap_ok :: "('k::linorder, 'v) omap \<Rightarrow> bool" where
  "omap_ok m \<longleftrightarrow> sorted_wrt (<) (map fst m)"

named_theorems omap_simps \<open>lookups and keys after an update of an ordered map\<close>

lemma map_of_oput [omap_simps]: "map_of (oput k v m) = (map_of m)(k \<mapsto> v)"
  by (induction m) (auto simp: fun_eq_iff)

lemma map_of_odel [omap_simps]: "map_of (odel k m) = (map_of m)(k := None)"
  by (induction m) (auto simp: odel_def fun_eq_iff)

lemma map_of_oset [omap_simps]:
  "map_of (oset k v m) = (if map_of m k = None then map_of m else (map_of m)(k \<mapsto> v))"
  by (induction m) (auto simp: oset_def fun_eq_iff)

lemma keys_oput [omap_simps]: "fst ` set (oput k v m) = insert k (fst ` set m)"
  by (induction m) auto

lemma keys_odel [omap_simps]: "fst ` set (odel k m) = fst ` set m - {k}"
  by (auto simp: odel_def)

lemma keys_oset [omap_simps]: "map fst (oset k v m) = map fst m"
  by (induction m) (auto simp: oset_def)

lemma omap_ok_Nil [simp, intro]: "omap_ok []"
  by (simp add: omap_ok_def)

lemma omap_ok_Cons:
  "omap_ok (p # m) \<longleftrightarrow> (\<forall>k \<in> fst ` set m. fst p < k) \<and> omap_ok m"
  by (auto simp: omap_ok_def)

lemma omap_ok_oput [intro]: "omap_ok m \<Longrightarrow> omap_ok (oput k v m)"
  by (induction m) (force simp: omap_ok_Cons keys_oput)+

lemma omap_ok_odel [intro]: "omap_ok m \<Longrightarrow> omap_ok (odel k m)"
  by (induction m) (auto simp: odel_def omap_ok_Cons)

lemma omap_ok_oset [intro]: "omap_ok m \<Longrightarrow> omap_ok (oset k v m)"
  by (simp add: omap_ok_def keys_oset)

lemma omap_ok_distinct: "omap_ok m \<Longrightarrow> distinct (map fst m)"
  by (simp add: omap_ok_def strict_sorted_iff)

lemma omap_ok_map_of: "omap_ok m \<Longrightarrow> map_of m k = Some v \<longleftrightarrow> (k, v) \<in> set m"
  by (simp add: omap_ok_distinct)

lemma omap_eqI:
  assumes "omap_ok m" and "omap_ok n" and "map_of m = map_of n"
  shows "m = n"
proof -
  have "set (map fst m) = set (map fst n)" using assms(3) by (metis dom_map_of_conv_image_fst set_map)
  then have keys: "map fst m = map fst n"
    using assms(1,2) by (metis omap_ok_def strict_sorted_equal)
  moreover have "snd p = snd q" if "i < length m" "p = m ! i" "q = n ! i" for i p q
  proof -
    have "fst p = fst q" using keys that by (metis length_map nth_map)
    moreover have "map_of m (fst p) = Some (snd p)" "map_of n (fst q) = Some (snd q)"
      using that keys assms(1,2) by (metis length_map nth_mem omap_ok_map_of prod.collapse)+
    ultimately show ?thesis using assms(3) by simp
  qed
  ultimately show ?thesis
    by (metis length_map list_eq_iff_nth_eq nth_map prod_eqI)
qed

section \<open>Decimal printing\<close>

text \<open>\<open>ostream << int\<close> and \<open>"%i"\<close>.\<close>

definition digit_char :: "nat \<Rightarrow> char" where
  "digit_char d = char_of (48 + d)"

fun show_nat :: "nat \<Rightarrow> string" where
  "show_nat n = (if n < 10 then [digit_char n] else show_nat (n div 10) @ [digit_char (n mod 10)])"

declare show_nat.simps [simp del]

definition show_int :: "int \<Rightarrow> string" where
  "show_int i = (if i < 0 then CHR 0x2D # show_nat (nat (- i)) else show_nat (nat i))"

end
