(* ===== verification/Core.thy ===== *)
theory Core
  imports Prelude
begin

text \<open>
  Models \<open>src/src/core.hpp\<close>: \<open>Message\<close>, a sized byte buffer, and \<open>MessageQueue\<close>, the bounded
  queue between the threads of a node, which drops its oldest message when it overflows. The
  lemmas show that it is a FIFO that loses nothing but what it deletes for lack of room.
\<close>

section \<open>Messages\<close>

record msg =
  m_sz :: u32
  m_bytes :: "byte list"

text \<open>A fresh message; \<open>junk\<close> is what the memory held (indeterminate in C++).\<close>

definition new_msg :: "byte list \<Rightarrow> u32 \<Rightarrow> msg" where
  "new_msg junk sz = \<lparr>m_sz = sz, m_bytes = take (unat sz) (junk @ replicate (unat sz) 0)\<rparr>"

text \<open>\<open>std::copy\<close> into the buffer from its start.\<close>

definition fill :: "byte list \<Rightarrow> msg \<Rightarrow> msg" where
  "fill bs m = m\<lparr>m_bytes := bs @ drop (length bs) (m_bytes m)\<rparr>"

definition Copy :: "byte list \<Rightarrow> msg \<Rightarrow> msg" where
  "Copy junk m = fill (take (unat (m_sz m)) (m_bytes m)) (new_msg junk (m_sz m))"

definition msg_ok :: "msg \<Rightarrow> bool" where
  "msg_ok m \<longleftrightarrow> length (m_bytes m) = unat (m_sz m)"

lemma new_msg_ok: "msg_ok (new_msg junk sz)"
  by (simp add: msg_ok_def new_msg_def)

lemma Copy_id: "msg_ok m \<Longrightarrow> Copy junk m = m"
  by (simp add: Copy_def fill_def new_msg_def msg_ok_def)

section \<open>The queue\<close>

text \<open>
  \<open>max_size\<close> 0 means no bound. \<open>freed\<close> records the messages deleted for lack of room and
  \<open>notified\<close> counts \<open>notify_one\<close>.
\<close>

record 'a mqueue =
  mq_queue :: "'a list"
  mq_max :: nat
  freed :: "'a list"
  notified :: nat

definition new_mqueue :: "nat \<Rightarrow> 'a mqueue" where
  "new_mqueue n = \<lparr>mq_queue = [], mq_max = n, freed = [], notified = 0\<rparr>"

definition push :: "'a \<Rightarrow> 'a mqueue \<Rightarrow> 'a mqueue" where
  "push x q =
     (let q1 = q\<lparr>mq_queue := mq_queue q @ [x]\<rparr>;
          q2 = (if mq_max q1 \<noteq> 0 \<and> length (mq_queue q1) > mq_max q1
                then q1\<lparr>freed := freed q1 @ [hd (mq_queue q1)], mq_queue := tl (mq_queue q1)\<rparr>
                else q1)
      in q2\<lparr>notified := notified q2 + 1\<rparr>)"

text \<open>
  \<open>pop\<close> waits while the queue is empty. Each wait ends with a notification, after other threads
  pushed some messages (none, if it was spurious or another consumer was faster), or with the
  timeout. A list of waits that ends before either is a call that has not returned.
\<close>

datatype 'a wait = Woken "'a list" | Timed_Out

datatype 'a popped = Got 'a | Null | Waiting

fun pop :: "'a wait list \<Rightarrow> 'a mqueue \<Rightarrow> 'a popped \<times> 'a mqueue" where
  "pop ws q =
     (case mq_queue q of
        x # xs \<Rightarrow> (Got x, q\<lparr>mq_queue := xs\<rparr>)
      | [] \<Rightarrow> (case ws of
          [] \<Rightarrow> (Waiting, q)
        | Timed_Out # _ \<Rightarrow> (Null, q)
        | Woken xs # ws' \<Rightarrow> pop ws' (fold push xs q)))"

declare pop.simps [simp del]

lemma pop_simps [simp]:
  "mq_queue q = x # xs \<Longrightarrow> pop ws q = (Got x, q\<lparr>mq_queue := xs\<rparr>)"
  "mq_queue q = [] \<Longrightarrow> pop [] q = (Waiting, q)"
  "mq_queue q = [] \<Longrightarrow> pop (Timed_Out # ws) q = (Null, q)"
  "mq_queue q = [] \<Longrightarrow> pop (Woken ys # ws) q = pop ws (fold push ys q)"
  by (subst pop.simps, simp)+

section \<open>Histories\<close>

datatype 'a mq_op = Push 'a | Pop "'a wait list"

text \<open>
  A run collects what \<open>pop\<close> returned. \<open>mq_ins\<close> lists what was pushed, by the operations and by
  other threads while \<open>pop\<close> waited.
\<close>

fun mq_run :: "'a mq_op list \<Rightarrow> 'a mqueue \<Rightarrow> 'a list \<times> 'a mqueue" where
  "mq_run [] q = ([], q)"
| "mq_run (Push x # ops) q = mq_run ops (push x q)"
| "mq_run (Pop ws # ops) q =
     ((case fst (pop ws q) of Got x \<Rightarrow> [x] | _ \<Rightarrow> []) @ fst (mq_run ops (snd (pop ws q))),
      snd (mq_run ops (snd (pop ws q))))"

fun pop_ins :: "'a wait list \<Rightarrow> 'a mqueue \<Rightarrow> 'a list" where
  "pop_ins [] q = []"
| "pop_ins (Timed_Out # ws) q = []"
| "pop_ins (Woken xs # ws) q =
     (if mq_queue q \<noteq> [] then [] else xs @ pop_ins ws (fold push xs q))"

fun mq_ins :: "'a mq_op list \<Rightarrow> 'a mqueue \<Rightarrow> 'a list" where
  "mq_ins [] q = []"
| "mq_ins (Push x # ops) q = x # mq_ins ops (push x q)"
| "mq_ins (Pop ws # ops) q = pop_ins ws q @ mq_ins ops (snd (pop ws q))"

text \<open>
  \<open>moved q ins out q'\<close>: what was in the queue and what came in is, in order, what left it, by
  \<open>pop\<close> or by deletion, followed by what it still holds.
\<close>

definition moved :: "'a mqueue \<Rightarrow> 'a list \<Rightarrow> 'a list \<Rightarrow> 'a mqueue \<Rightarrow> bool" where
  "moved q ins out q' \<longleftrightarrow> mq_max q' = mq_max q
     \<and> (\<exists>gone fr. freed q' = freed q @ fr \<and> mq_queue q @ ins = gone @ mq_queue q'
          \<and> gone \<in> shuffles out fr \<and> (mq_max q = 0 \<longrightarrow> fr = []))"

lemma shuffles_append:
  "zs \<in> shuffles xs ys \<Longrightarrow> zs' \<in> shuffles xs' ys' \<Longrightarrow> zs @ zs' \<in> shuffles (xs @ xs') (ys @ ys')"
proof (induction xs ys arbitrary: zs rule: shuffles.induct)
  case (1 ys)
  then have "zs = ys" by simp
  then show ?case using 1(2) by (induction ys arbitrary: zs) (auto intro: Cons_in_shuffles_rightI)
next
  case (2 xs)
  then have "zs = xs" by simp
  then show ?case using 2(2) by (induction xs arbitrary: zs) (auto intro: Cons_in_shuffles_leftI)
next
  case (3 x xs y ys)
  then show ?case by (auto intro: Cons_in_shuffles_leftI Cons_in_shuffles_rightI)
qed

lemma moved_refl: "moved q [] [] q"
  by (simp add: moved_def)

lemma moved_trans: "moved q i1 o1 q1 \<Longrightarrow> moved q1 i2 o2 q2 \<Longrightarrow> moved q (i1 @ i2) (o1 @ o2) q2"
proof -
  assume a: "moved q i1 o1 q1" "moved q1 i2 o2 q2"
  obtain g1 f1 where 1: "freed q1 = freed q @ f1" "mq_queue q @ i1 = g1 @ mq_queue q1" "g1 \<in> shuffles o1 f1"
    "mq_max q = 0 \<longrightarrow> f1 = []" "mq_max q1 = mq_max q" using a(1) by (auto simp: moved_def)
  obtain g2 f2 where 2: "freed q2 = freed q1 @ f2" "mq_queue q1 @ i2 = g2 @ mq_queue q2" "g2 \<in> shuffles o2 f2"
    "mq_max q1 = 0 \<longrightarrow> f2 = []" "mq_max q2 = mq_max q1" using a(2) by (auto simp: moved_def)
  have "mq_queue q @ i1 @ i2 = (g1 @ g2) @ mq_queue q2" using 1(2) 2(2) by (metis append.assoc)
  then show ?thesis
    using 1 2 shuffles_append[OF 1(3) 2(3)] unfolding moved_def
    by (intro conjI exI[of _ "g1 @ g2"] exI[of _ "f1 @ f2"]) simp_all
qed

lemma moved_push: "moved q [x] [] (push x q)"
proof (cases "mq_max q \<noteq> 0 \<and> length (mq_queue q @ [x]) > mq_max q")
  case True
  obtain y ys where "mq_queue q @ [x] = y # ys" by (cases "mq_queue q @ [x]") auto
  then show ?thesis using True unfolding moved_def
    by (intro conjI exI[of _ "[y]"] exI[of _ "[y]"]) (auto simp: push_def Let_def)
next
  case False
  then show ?thesis unfolding moved_def
    by (intro conjI exI[of _ "[]"] exI[of _ "[]"]) (auto simp: push_def Let_def)
qed

lemma moved_pushes: "moved q xs [] (fold push xs q)"
proof (induction xs arbitrary: q)
  case Nil
  then show ?case by (simp add: moved_refl)
next
  case (Cons x xs)
  then show ?case using moved_trans[OF moved_push Cons] by fastforce
qed

lemma moved_pop:
  "moved q (pop_ins ws q) (case fst (pop ws q) of Got x \<Rightarrow> [x] | _ \<Rightarrow> []) (snd (pop ws q))"
proof (induction ws arbitrary: q)
  case Nil
  show ?case
  proof (cases "mq_queue q")
    case (Cons x xs)
    then show ?thesis unfolding moved_def by (intro conjI exI[of _ "[x]"] exI[of _ "[]"]) simp_all
  qed (simp add: moved_refl)
next
  case (Cons w ws)
  show ?case
  proof (cases "mq_queue q")
    case q: (Cons x xs)
    then have "pop_ins (w # ws) q = []" by (cases w) simp_all
    then show ?thesis using q unfolding moved_def
      by (intro conjI exI[of _ "[x]"] exI[of _ "[]"]) simp_all
  next
    case Nil
    then show ?thesis
      using moved_trans[OF moved_pushes Cons] by (cases w) (auto simp: moved_refl)
  qed
qed

lemma moved_run: "moved q (mq_ins ops q) (fst (mq_run ops q)) (snd (mq_run ops q))"
proof (induction ops q rule: mq_run.induct)
  case (1 q)
  then show ?case by (simp add: moved_refl)
next
  case (2 x ops q)
  then show ?case using moved_trans[OF moved_push 2] by simp
next
  case (3 ws ops q)
  then show ?case using moved_trans[OF moved_pop 3(1)] by simp
qed

definition mq_inv :: "'a mqueue \<Rightarrow> bool" where
  "mq_inv q \<longleftrightarrow> mq_max q = 0 \<or> length (mq_queue q) \<le> mq_max q"

lemma push_inv: "mq_inv q \<Longrightarrow> mq_inv (push x q)"
  by (auto simp: mq_inv_def push_def Let_def)

lemma fold_push_inv: "mq_inv q \<Longrightarrow> mq_inv (fold push xs q)"
  by (induction xs arbitrary: q) (simp_all add: push_inv)

lemma pop_inv: "mq_inv q \<Longrightarrow> mq_inv (snd (pop ws q))"
proof (induction ws arbitrary: q)
  case Nil
  then show ?case by (cases "mq_queue q") (auto simp: mq_inv_def)
next
  case (Cons w ws)
  show ?case
  proof (cases "mq_queue q")
    case q: (Cons x xs)
    then show ?thesis using Cons.prems by (auto simp: mq_inv_def)
  next
    case Nil
    then show ?thesis using Cons fold_push_inv by (cases w) auto
  qed
qed

lemma mq_run_inv: "mq_inv q \<Longrightarrow> mq_inv (snd (mq_run ops q))"
  by (induction ops q rule: mq_run.induct) (simp_all add: push_inv pop_inv)

lemma pushes_keep_last:
  assumes "mq_max q = n" "n \<noteq> 0" "length (mq_queue q) \<le> n"
  shows "mq_queue (fold push xs q) = drop (length (mq_queue q @ xs) - n) (mq_queue q @ xs)
    \<and> freed (fold push xs q) = freed q @ take (length (mq_queue q @ xs) - n) (mq_queue q @ xs)"
  using assms
proof (induction xs arbitrary: q)
  case (Cons x xs)
  show ?case
  proof (cases "length (mq_queue q) = n")
    case True
    then obtain y ys where ys: "mq_queue q = y # ys" using Cons.prems(2) by (cases "mq_queue q") auto
    then have "mq_queue (push x q) = ys @ [x]" "freed (push x q) = freed q @ [y]" "mq_max (push x q) = n"
      using True Cons.prems by (auto simp: push_def Let_def)
    moreover have n: "n = Suc (length ys)" using True ys by simp
    moreover have "Suc (length ys + length xs) - Suc (length ys) = length xs"
      "Suc (Suc (length ys + length xs)) - Suc (length ys) = Suc (length xs)" by simp_all
    ultimately show ?thesis using Cons.IH[of "push x q"] ys by simp
  next
    case False
    then have "mq_queue (push x q) = mq_queue q @ [x]" "freed (push x q) = freed q" "mq_max (push x q) = n"
      using Cons.prems by (auto simp: push_def Let_def)
    then show ?thesis using Cons.IH[of "push x q"] Cons.prems False by simp
  qed
qed simp

text \<open>Pushes onto any queue within its bound: the last ones stay, exactly the overflow is deleted.\<close>

lemma pushes_overflow:
  assumes "mq_inv q"
  shows "let held = mq_queue q @ xs; k = (if mq_max q = 0 then 0 else length held - mq_max q)
    in mq_queue (fold push xs q) = drop k held \<and> freed (fold push xs q) = freed q @ take k held"
proof (cases "mq_max q = 0")
  case True
  then have "mq_queue (fold push xs q) = mq_queue q @ xs \<and> freed (fold push xs q) = freed q"
  proof (induction xs arbitrary: q)
    case (Cons x xs)
    have "mq_queue (push x q) = mq_queue q @ [x]" "freed (push x q) = freed q" "mq_max (push x q) = 0"
      using Cons.prems by (simp_all add: push_def Let_def)
    then show ?case using Cons.IH[of "push x q"] by simp
  qed simp
  then show ?thesis using True by simp
next
  case False
  then show ?thesis using pushes_keep_last[of q "mq_max q" xs] assms by (simp add: mq_inv_def)
qed

section \<open>Properties\<close>

text \<open>
  C24: The queue is a bounded FIFO that deletes only for lack of room. Over any history of pushes and
  pops, with other threads pushing while a pop waits: everything pushed is, in order, what has left
  the queue followed by what it holds, and what has left is an interleaving of what \<open>pop\<close> returned
  and what was deleted, each message once. The queue never exceeds its bound \<open>n\<close> (0 is no bound).
  And whatever is pushed after that history, it holds the last \<open>n\<close> of the messages held and
  pushed, all of them if they are no more than \<open>n\<close>; exactly the others are deleted, the oldest first.
\<close>

theorem queue_fifo:
  fixes ops :: "'a mq_op list" and n :: nat
  defines "q \<equiv> new_mqueue n :: 'a mqueue"
  shows "(\<exists>gone. mq_ins ops q = gone @ mq_queue (snd (mq_run ops q))
      \<and> gone \<in> shuffles (fst (mq_run ops q)) (freed (snd (mq_run ops q))))
    \<and> (if n = 0 then freed (snd (mq_run ops q)) = [] else length (mq_queue (snd (mq_run ops q))) \<le> n)
    \<and> (\<forall>xs. let held = mq_queue (snd (mq_run ops q)) @ xs; k = (if n = 0 then 0 else length held - n)
        in mq_queue (fold push xs (snd (mq_run ops q))) = drop k held
           \<and> freed (fold push xs (snd (mq_run ops q))) = freed (snd (mq_run ops q)) @ take k held)"
proof -
  have q: "mq_queue q = []" "freed q = []" "mq_max q = n" "mq_inv q"
    by (simp_all add: q_def new_mqueue_def mq_inv_def)
  note inv = mq_run_inv[OF q(4), of ops]
  have m: "moved q (mq_ins ops q) (fst (mq_run ops q)) (snd (mq_run ops q))" by (rule moved_run)
  then have max: "mq_max (snd (mq_run ops q)) = n" using q(3) by (simp add: moved_def)
  have "(\<exists>gone. mq_ins ops q = gone @ mq_queue (snd (mq_run ops q))
      \<and> gone \<in> shuffles (fst (mq_run ops q)) (freed (snd (mq_run ops q))))
    \<and> (if n = 0 then freed (snd (mq_run ops q)) = [] else length (mq_queue (snd (mq_run ops q))) \<le> n)"
    using m inv q(1-3) by (fastforce simp: moved_def mq_inv_def)
  then show ?thesis using pushes_overflow[OF inv] unfolding max by blast
qed

text \<open>Three messages through a queue of two: the first is deleted, the second is popped.\<close>

theorem queue_fifo_witness:
  "\<exists>gone. [1, 2, 3 :: nat] = gone @ [3] \<and> gone \<in> shuffles [2] [1]"
proof -
  have "mq_run [Push 1, Push 2, Push 3, Pop []] (new_mqueue 2) =
      ([2], \<lparr>mq_queue = [3 :: nat], mq_max = 2, freed = [1], notified = 3\<rparr>)"
    by (simp add: new_mqueue_def push_def)
  then show ?thesis
    using queue_fifo[of "[Push 1, Push 2, Push 3, Pop []] :: nat mq_op list" 2] by auto
qed

text \<open>
  A full queue drops its oldest message. After pushing any messages to a fresh queue of bound
  \<open>n\<close>, it holds the last \<open>n\<close> of them in order, and the earlier ones were deleted in order; a
  \<open>pop\<close> then returns the oldest one left.
\<close>

theorem drops_oldest:
  assumes "n \<noteq> 0"
  shows "mq_queue (fold push xs (new_mqueue n)) = drop (length xs - n) xs
    \<and> freed (fold push xs (new_mqueue n)) = take (length xs - n) xs
    \<and> (xs \<noteq> [] \<longrightarrow> fst (pop ws (fold push xs (new_mqueue n))) = Got (xs ! (length xs - n)))"
proof -
  have k: "mq_queue (fold push xs (new_mqueue n)) = drop (length xs - n) xs"
    "freed (fold push xs (new_mqueue n)) = take (length xs - n) xs"
    using pushes_keep_last[of "new_mqueue n" n xs] assms by (simp_all add: new_mqueue_def)
  have "drop (length xs - n) xs = xs ! (length xs - n) # drop (Suc (length xs - n)) xs" if "xs \<noteq> []"
    using that assms by (intro Cons_nth_drop_Suc[symmetric]) simp
  then show ?thesis using k by auto
qed

theorem drops_oldest_witness:
  "mq_queue (fold push [1, 2, 3 :: nat] (new_mqueue 2)) = [2, 3]
   \<and> fst (pop [] (fold push [1, 2, 3 :: nat] (new_mqueue 2))) = Got 2"
  using drops_oldest[of 2 "[1, 2, 3 :: nat]" "[]"] by simp

end
