(* ===== verification/Pubsub.thy ===== *)
theory Pubsub
  imports Core
begin

text \<open>
  Models \<open>src/src/pubsub.hpp\<close>: a publication sends each message over all of its transports, a
  subscription picks one of its transports when publishers are found. \<open>PublishTransport\<close> and
  \<open>SubscribeTransport\<close> are interfaces; an object behind one of them is modelled by what it
  answers (its protocol and endpoint) and the calls it has received, in order.
\<close>

section \<open>Publications\<close>

datatype pub_call = Pt_Publish msg | Pt_Shutdown

record pub_transport =
  pt_protocol :: string
  pt_endpoint :: string
  pt_calls :: "pub_call list"

record publication =
  pn_topic :: string
  pn_protos :: "pub_transport list"

definition pt_call :: "pub_call \<Rightarrow> pub_transport \<Rightarrow> pub_transport" where
  "pt_call c t = t\<lparr>pt_calls := pt_calls t @ [c]\<rparr>"

definition new_publication :: "string \<Rightarrow> publication" where
  "new_publication topic = \<lparr>pn_topic = topic, pn_protos = []\<rparr>"

definition pn_addTransport :: "pub_transport \<Rightarrow> publication \<Rightarrow> publication" where
  "pn_addTransport t p = p\<lparr>pn_protos := pn_protos p @ [t]\<rparr>"

definition pn_publish :: "msg \<Rightarrow> publication \<Rightarrow> publication" where
  "pn_publish m p = p\<lparr>pn_protos := map (pt_call (Pt_Publish m)) (pn_protos p)\<rparr>"

definition pn_shutdown :: "publication \<Rightarrow> publication" where
  "pn_shutdown p = p\<lparr>pn_protos := map (pt_call Pt_Shutdown) (pn_protos p)\<rparr>"

section \<open>Subscriptions\<close>

datatype 'cb sub_call = On_Receive 'cb | Start string | St_Shutdown

record 'cb sub_transport =
  st_protocol :: string
  st_calls :: "'cb sub_call list"

record 'cb subscription =
  sn_topic :: string
  sn_cb :: 'cb
  sn_protos :: "'cb sub_transport list"

definition st_call :: "'cb sub_call \<Rightarrow> 'cb sub_transport \<Rightarrow> 'cb sub_transport" where
  "st_call c t = t\<lparr>st_calls := st_calls t @ [c]\<rparr>"

definition new_subscription :: "string \<Rightarrow> 'cb \<Rightarrow> 'cb subscription" where
  "new_subscription topic cb = \<lparr>sn_topic = topic, sn_cb = cb, sn_protos = []\<rparr>"

definition sn_addTransport :: "'cb sub_transport \<Rightarrow> 'cb subscription \<Rightarrow> 'cb subscription" where
  "sn_addTransport t s = s\<lparr>sn_protos := sn_protos s @ [t]\<rparr>"

definition sn_shutdown :: "'cb subscription \<Rightarrow> 'cb subscription" where
  "sn_shutdown s = s\<lparr>sn_protos := map (st_call St_Shutdown) (sn_protos s)\<rparr>"

text \<open>
  \<open>uri.find("://")\<close> is \<open>None\<close> for \<open>npos\<close>; \<open>npos + 3\<close> wraps to 2, and \<open>substr\<close> throws when it
  starts past the end.
\<close>

fun find_str :: "string \<Rightarrow> string \<Rightarrow> nat option" where
  "find_str pat [] = (if pat = [] then Some 0 else None)"
| "find_str pat (c # s) =
     (if take (length pat) (c # s) = pat then Some 0 else map_option Suc (find_str pat s))"

definition uri_protocol :: "string \<Rightarrow> string" where
  "uri_protocol uri = takeWhile (\<lambda>c. c \<noteq> CHR '':'') uri"

definition uri_endpoint :: "string \<Rightarrow> string res" where
  "uri_endpoint uri =
     (let pos = (case find_str ''://'' uri of Some i \<Rightarrow> i + 3 | None \<Rightarrow> 2)
      in ensure (pos \<le> length uri) Out_Of_Range (Inr (drop pos uri)))"

definition remote_endpoints :: "string list \<Rightarrow> (string, string) omap res" where
  "remote_endpoints uris =
     foldR (\<lambda>uri m. bindR (uri_endpoint uri) (\<lambda>e. Inr (oput (uri_protocol uri) e m))) uris []"

fun start_first ::
  "(string, string) omap \<Rightarrow> 'cb \<Rightarrow> 'cb sub_transport list \<Rightarrow> 'cb sub_transport list" where
  "start_first m cb [] = []"
| "start_first m cb (t # ts) =
     (case map_of m (st_protocol t) of
        Some e \<Rightarrow> st_call (Start e) (st_call (On_Receive cb) t) # ts
      | None \<Rightarrow> t # start_first m cb ts)"

definition foundPublisher :: "string list \<Rightarrow> 'cb subscription \<Rightarrow> 'cb subscription res" where
  "foundPublisher uris s =
     bindR (remote_endpoints uris) (\<lambda>m. Inr (s\<lparr>sn_protos := start_first m (sn_cb s) (sn_protos s)\<rparr>))"

section \<open>Lemmas\<close>

text \<open>The URI a publication offers for one of its transports (\<open>TopicManager::publicationURIs\<close>).\<close>

definition transport_uri :: "pub_transport \<Rightarrow> string" where
  "transport_uri t = pt_protocol t @ ''://'' @ pt_endpoint t"

definition publication_uris :: "publication \<Rightarrow> string list" where
  "publication_uris p = map transport_uri (pn_protos p)"

lemma find_str_colon:
  "CHR '':'' \<notin> set p \<Longrightarrow> find_str ''://'' (p @ ''://'' @ e) = Some (length p)"
  by (induction p) auto

lemma uri_protocol_join: "CHR '':'' \<notin> set p \<Longrightarrow> uri_protocol (p @ CHR '':'' # e) = p"
  by (induction p) (auto simp: uri_protocol_def)

lemma uri_endpoint_join: "CHR '':'' \<notin> set p \<Longrightarrow> uri_endpoint (p @ ''://'' @ e) = Inr e"
  unfolding uri_endpoint_def find_str_colon by simp

lemma find_str_bound: "find_str pat s = Some i \<Longrightarrow> i + length pat \<le> length s"
proof (induction pat s arbitrary: i rule: find_str.induct)
  case (2 pat c s)
  show ?case
  proof (cases "take (length pat) (c # s) = pat")
    case True
    then have "length pat \<le> length (c # s)" by (metis length_take min.cobounded1)
    then show ?thesis using 2(2) True by simp
  next
    case False
    then show ?thesis using 2 by auto
  qed
qed (auto split: if_splits)

lemma uri_endpoint_returns:
  "(\<exists>e. uri_endpoint uri = Inr e) \<longleftrightarrow> find_str ''://'' uri \<noteq> None \<or> 2 \<le> length uri"
  using find_str_bound[of "''://''" uri] by (auto simp: uri_endpoint_def Let_def ensure_def split: option.splits)

lemma remote_endpoints_snoc:
  "remote_endpoints (uris @ [u]) =
     bindR (remote_endpoints uris) (\<lambda>m. bindR (uri_endpoint u) (\<lambda>e. Inr (oput (uri_protocol u) e m)))"
  by (cases "remote_endpoints uris") (auto simp: remote_endpoints_def foldR_append res_simps bindR_assoc)

text \<open>The endpoint of the last URI with a given protocol wins.\<close>

lemma remote_endpoints_last:
  "remote_endpoints uris = Inr m \<Longrightarrow>
     map_of m p = map_option (\<lambda>u. projr (uri_endpoint u)) (find (\<lambda>u. uri_protocol u = p) (rev uris))"
proof (induction uris arbitrary: m rule: rev_induct)
  case Nil
  then show ?case by (simp add: remote_endpoints_def)
next
  case (snoc u uris)
  then show ?case by (auto simp: remote_endpoints_snoc res_simps omap_simps)
qed

lemma remote_endpoints_returns:
  "(\<exists>m. remote_endpoints uris = Inr m) \<longleftrightarrow> (\<forall>u \<in> set uris. \<exists>e. uri_endpoint u = Inr e)"
  by (induction uris rule: rev_induct) (auto simp: remote_endpoints_snoc res_simps, simp add: remote_endpoints_def)

lemma start_first_none: "\<forall>t \<in> set ts. map_of m (st_protocol t) = None \<Longrightarrow> start_first m cb ts = ts"
  by (induction ts) auto

lemma start_first_some:
  "\<forall>t \<in> set xs. map_of m (st_protocol t) = None \<Longrightarrow> map_of m (st_protocol t) = Some e
   \<Longrightarrow> start_first m cb (xs @ t # ys) = xs @ st_call (Start e) (st_call (On_Receive cb) t) # ys"
  by (induction xs) auto

lemma find_sound: "find P xs = Some x \<Longrightarrow> x \<in> set xs \<and> P x"
  by (induction xs) (auto split: if_splits)

lemma publication_endpoints:
  assumes "\<forall>t \<in> set (pn_protos p). CHR '':'' \<notin> set (pt_protocol t)"
  shows "\<exists>m. remote_endpoints (publication_uris p) = Inr m
    \<and> (\<forall>q. map_of m q = None \<longleftrightarrow> q \<notin> pt_protocol ` set (pn_protos p))
    \<and> (\<forall>q e. map_of m q = Some e \<longrightarrow>
         (\<exists>t \<in> set (pn_protos p). pt_protocol t = q \<and> e = pt_endpoint t))"
proof -
  have split: "uri_protocol (transport_uri t) = pt_protocol t" "uri_endpoint (transport_uri t) = Inr (pt_endpoint t)"
    if "t \<in> set (pn_protos p)" for t
    using assms that uri_protocol_join[of "pt_protocol t"] uri_endpoint_join[of "pt_protocol t"]
    by (simp_all add: transport_uri_def)
  have "\<forall>u \<in> set (publication_uris p). \<exists>e. uri_endpoint u = Inr e"
    using split by (auto simp: publication_uris_def)
  then obtain m where m: "remote_endpoints (publication_uris p) = Inr m"
    using remote_endpoints_returns by blast
  have none: "map_of m q = None \<longleftrightarrow> q \<notin> pt_protocol ` set (pn_protos p)" for q
    using split by (auto simp: remote_endpoints_last[OF m] find_None_iff publication_uris_def)
  have some: "\<exists>t \<in> set (pn_protos p). pt_protocol t = q \<and> e = pt_endpoint t" if e: "map_of m q = Some e" for q e
  proof -
    obtain u where u: "find (\<lambda>u. uri_protocol u = q) (rev (publication_uris p)) = Some u" "e = projr (uri_endpoint u)"
      using e by (auto simp: remote_endpoints_last[OF m])
    from find_sound[OF u(1)] have "u \<in> set (publication_uris p)" "uri_protocol u = q" by simp_all
    then show ?thesis using split u(2) by (auto simp: publication_uris_def)
  qed
  show ?thesis using m none some by blast
qed

lemma foundPublisher_matches:
  assumes "\<forall>t \<in> set (pn_protos p). CHR '':'' \<notin> set (pt_protocol t)"
  shows "\<exists>s'. foundPublisher (publication_uris p) s = Inr s'
    \<and> (if \<exists>t \<in> set (sn_protos s). st_protocol t \<in> pt_protocol ` set (pn_protos p)
       then \<exists>xs t ys pt. sn_protos s = xs @ t # ys \<and> pt \<in> set (pn_protos p)
              \<and> st_protocol t = pt_protocol pt
              \<and> (\<forall>x \<in> set xs. st_protocol x \<notin> pt_protocol ` set (pn_protos p))
              \<and> sn_protos s' = xs @ st_call (Start (pt_endpoint pt)) (st_call (On_Receive (sn_cb s)) t) # ys
       else s' = s)"
proof -
  obtain m where m: "remote_endpoints (publication_uris p) = Inr m"
    "\<And>q. map_of m q = None \<longleftrightarrow> q \<notin> pt_protocol ` set (pn_protos p)"
    "\<And>q e. map_of m q = Some e \<Longrightarrow> \<exists>t \<in> set (pn_protos p). pt_protocol t = q \<and> e = pt_endpoint t"
    using publication_endpoints[OF assms] by blast
  let ?s = "s\<lparr>sn_protos := start_first m (sn_cb s) (sn_protos s)\<rparr>"
  have run: "foundPublisher (publication_uris p) s = Inr ?s" using m(1) by (simp add: foundPublisher_def)
  show ?thesis
  proof (cases "\<exists>t \<in> set (sn_protos s). st_protocol t \<in> pt_protocol ` set (pn_protos p)")
    case False
    then have "start_first m (sn_cb s) (sn_protos s) = sn_protos s"
      using m(2) by (intro start_first_none) blast
    then show ?thesis using run False by simp
  next
    case True
    then obtain xs t ys where sp: "sn_protos s = xs @ t # ys" "st_protocol t \<in> pt_protocol ` set (pn_protos p)"
      "\<forall>x \<in> set xs. st_protocol x \<notin> pt_protocol ` set (pn_protos p)"
      using split_list_first_prop[of "sn_protos s" "\<lambda>t. st_protocol t \<in> pt_protocol ` set (pn_protos p)"] by blast
    then obtain e where e: "map_of m (st_protocol t) = Some e" using m(2) by fastforce
    obtain pt where pt: "pt \<in> set (pn_protos p)" "pt_protocol pt = st_protocol t" "e = pt_endpoint pt"
      using m(3)[OF e] by blast
    have "\<forall>x \<in> set xs. map_of m (st_protocol x) = None" using sp(3) m(2) by blast
    then have "sn_protos ?s = xs @ st_call (Start e) (st_call (On_Receive (sn_cb s)) t) # ys"
      using start_first_some[OF _ e] sp(1) by simp
    then have "sn_protos s = xs @ t # ys \<and> pt \<in> set (pn_protos p) \<and> st_protocol t = pt_protocol pt
      \<and> (\<forall>x \<in> set xs. st_protocol x \<notin> pt_protocol ` set (pn_protos p))
      \<and> sn_protos ?s = xs @ st_call (Start (pt_endpoint pt)) (st_call (On_Receive (sn_cb s)) t) # ys"
      using sp pt by simp
    then show ?thesis using run True by (metis (no_types, lifting))
  qed
qed

section \<open>Properties\<close>

text \<open>
  What a publication offers, a subscription understands. If the publisher's protocol names
  hold no colon, the URIs it offers never make \<open>foundPublisher\<close> throw, and the subscription
  starts exactly one of its transports: the first one whose protocol the publisher also has, with
  the endpoint of a publisher's transport of that protocol, after installing the callback. If no
  protocol matches, nothing is touched.
\<close>

theorem discovery_matches:
  assumes "\<forall>t \<in> set (pn_protos p). CHR '':'' \<notin> set (pt_protocol t)"
  shows "\<exists>s'. foundPublisher (publication_uris p) s = Inr s'
    \<and> (if \<exists>t \<in> set (sn_protos s). st_protocol t \<in> pt_protocol ` set (pn_protos p)
       then \<exists>xs t ys pt. sn_protos s = xs @ t # ys \<and> pt \<in> set (pn_protos p)
              \<and> st_protocol t = pt_protocol pt
              \<and> (\<forall>x \<in> set xs. st_protocol x \<notin> pt_protocol ` set (pn_protos p))
              \<and> sn_protos s' = xs @ st_call (Start (pt_endpoint pt)) (st_call (On_Receive (sn_cb s)) t) # ys
       else s' = s)"
  by (rule foundPublisher_matches[OF assms])

theorem discovery_matches_witness:
  "\<exists>s'. foundPublisher
      (publication_uris \<lparr>pn_topic = ''chat'', pn_protos =
        [\<lparr>pt_protocol = ''tcpros'', pt_endpoint = ''localhost:4000'', pt_calls = []\<rparr>]\<rparr>)
      \<lparr>sn_topic = ''chat'', sn_cb = (1 :: nat), sn_protos =
        [\<lparr>st_protocol = ''zmq'', st_calls = []\<rparr>, \<lparr>st_protocol = ''tcpros'', st_calls = []\<rparr>]\<rparr> = Inr s'"
  using discovery_matches[of "\<lparr>pn_topic = ''chat'', pn_protos =
        [\<lparr>pt_protocol = ''tcpros'', pt_endpoint = ''localhost:4000'', pt_calls = []\<rparr>]\<rparr>"
     "\<lparr>sn_topic = ''chat'', sn_cb = (1 :: nat), sn_protos =
        [\<lparr>st_protocol = ''zmq'', st_calls = []\<rparr>, \<lparr>st_protocol = ''tcpros'', st_calls = []\<rparr>]\<rparr>"]
  by auto

text \<open>
  Which URIs abort a subscriber. \<open>foundPublisher\<close> throws \<open>out_of_range\<close> exactly when some URI
  it is given has no \<open>://\<close> and fewer than two characters (\<open>npos + 3\<close> wraps to 2); any longer text
  is accepted, whatever it holds.
\<close>

theorem bad_uri_throws:
  "(\<exists>s'. foundPublisher uris s = Inr s')
    \<longleftrightarrow> (\<forall>u \<in> set uris. find_str ''://'' u \<noteq> None \<or> 2 \<le> length u)"
  using remote_endpoints_returns[of uris]
  by (auto simp: foundPublisher_def res_simps uri_endpoint_returns)

theorem bad_uri_throws_witness:
  "foundPublisher [''x''] \<lparr>sn_topic = ''t'', sn_cb = (1 :: nat), sn_protos = []\<rparr> = Inl Out_Of_Range
   \<and> (\<exists>s'. foundPublisher [''tcpros''] \<lparr>sn_topic = ''t'', sn_cb = (1 :: nat), sn_protos = []\<rparr> = Inr s')"
  using bad_uri_throws[of "[''tcpros'']" "\<lparr>sn_topic = ''t'', sn_cb = (1 :: nat), sn_protos = []\<rparr>"]
  by (simp add: foundPublisher_def remote_endpoints_def uri_endpoint_def)

end
