(* ===== verification/Topic_Manager.thy ===== *)
theory Topic_Manager
  imports Pubsub "HOL-Library.Sublist"
begin

text \<open>
  Models \<open>src/src/topic_manager.cpp\<close> and \<open>topic_manager.hpp\<close>: the publications and subscriptions
  of a node, the names they were asked for (\<open>pub_map\<close>, \<open>sub_map\<close>, from unmapped name to topic) and
  the renaming rules. The lemmas show that the two maps and the two registries stay in step, what
  a renaming does, that shutting down leaves nothing behind, and where the live assertions abort.
\<close>

section \<open>State\<close>

text \<open>
  \<open>regp_\<close> is an interface: the calls it receives are recorded. The callback given to
  \<open>registerSubscription\<close> is bound to the raw pointer of the subscription, named by a number that
  no later subscription reuses. A transport factory makes the transport numbered by its argument.
\<close>

datatype reg_call =
    Reg_Subscription string nat
  | Unreg_Subscription string
  | Reg_Publication string
  | Unreg_Publication string

record 'cb tm =
  pub_map :: "(string, string) omap"
  sub_map :: "(string, string) omap"
  remaps :: "(string, string) omap"
  publications :: "(string, publication) omap"
  subscriptions :: "(string, nat \<times> 'cb subscription) omap"
  sub_factories :: "(nat \<Rightarrow> 'cb sub_transport) list"
  pub_factories :: "(nat \<Rightarrow> pub_transport) list"
  reg_calls :: "reg_call list"
  pubs_down :: "publication list"
  subs_down :: "'cb subscription list"
  created :: nat

definition new_tm :: "'cb tm" where
  "new_tm = \<lparr>pub_map = [], sub_map = [], remaps = [], publications = [], subscriptions = [],
     sub_factories = [], pub_factories = [], reg_calls = [], pubs_down = [], subs_down = [],
     created = 0\<rparr>"

definition regp :: "reg_call \<Rightarrow> 'cb tm \<Rightarrow> 'cb tm" where
  "regp c t = t\<lparr>reg_calls := reg_calls t @ [c]\<rparr>"

definition addPublishTransport :: "(nat \<Rightarrow> pub_transport) \<Rightarrow> 'cb tm \<Rightarrow> 'cb tm" where
  "addPublishTransport f t = t\<lparr>pub_factories := pub_factories t @ [f]\<rparr>"

definition addSubscribeTransport :: "(nat \<Rightarrow> 'cb sub_transport) \<Rightarrow> 'cb tm \<Rightarrow> 'cb tm" where
  "addSubscribeTransport f t = t\<lparr>sub_factories := sub_factories t @ [f]\<rparr>"

section \<open>Renaming\<close>

text \<open>The first rule, in key order, whose key starts the name replaces that start.\<close>

fun apply_rules :: "(string, string) omap \<Rightarrow> string \<Rightarrow> string" where
  "apply_rules [] name = name"
| "apply_rules ((start, rep) # rules) name =
     (if prefix start name then rep @ drop (length start) name else apply_rules rules name)"

definition remap :: "string \<Rightarrow> 'cb tm \<Rightarrow> string" where
  "remap name t = apply_rules (remaps t) name"

section \<open>Publications and subscriptions\<close>

definition createSubscription :: "string \<Rightarrow> 'cb \<Rightarrow> 'cb tm \<Rightarrow> 'cb subscription \<times> 'cb tm" where
  "createSubscription topic cb t =
     (fold (\<lambda>f s. sn_addTransport (f (created t)) s) (sub_factories t) (new_subscription topic cb),
      t\<lparr>created := created t + 1\<rparr>)"

definition createPublication :: "string \<Rightarrow> 'cb tm \<Rightarrow> publication \<times> 'cb tm" where
  "createPublication topic t =
     (fold (\<lambda>f p. pn_addTransport (f (created t)) p) (pub_factories t) (new_publication topic),
      t\<lparr>created := created t + 1\<rparr>)"

definition unregisterSubscription :: "string \<Rightarrow> 'cb tm \<Rightarrow> 'cb tm res" where
  "unregisterSubscription unmapped t =
     (case map_of (sub_map t) unmapped of
        None \<Rightarrow> Inl Assert_Failed
      | Some topic \<Rightarrow>
          (case map_of (subscriptions t) topic of
             None \<Rightarrow> Inl Assert_Failed
           | Some (i, s) \<Rightarrow>
               Inr (regp (Unreg_Subscription topic)
                 (t\<lparr>subs_down := subs_down t @ [sn_shutdown s],
                    subscriptions := odel topic (subscriptions t),
                    sub_map := odel unmapped (sub_map t)\<rparr>))))"

definition registerPublication :: "string \<Rightarrow> 'cb tm \<Rightarrow> 'cb tm res" where
  "registerPublication unmapped t =
     (let topic = remap unmapped t;
          t1 = t\<lparr>pub_map := oput unmapped topic (pub_map t)\<rparr>
      in ensure (map_of (publications t1) topic = None) Assert_Failed
           (let (p, t2) = createPublication topic t1
            in Inr (regp (Reg_Publication topic) (t2\<lparr>publications := oput topic p (publications t2)\<rparr>))))"

definition unregisterPublication :: "string \<Rightarrow> 'cb tm \<Rightarrow> 'cb tm res" where
  "unregisterPublication unmapped t =
     (case map_of (pub_map t) unmapped of
        None \<Rightarrow> Inl Assert_Failed
      | Some topic \<Rightarrow>
          (case map_of (publications t) topic of
             None \<Rightarrow> Inl Assert_Failed
           | Some p \<Rightarrow>
               Inr (regp (Unreg_Publication topic)
                 (t\<lparr>pubs_down := pubs_down t @ [pn_shutdown p],
                    publications := odel topic (publications t),
                    pub_map := odel unmapped (pub_map t)\<rparr>))))"

text \<open>The first assertion of \<open>subscribe\<close> looks the topic up among the unmapped names.\<close>

definition subscribe :: "string \<Rightarrow> 'cb \<Rightarrow> 'cb tm \<Rightarrow> 'cb tm res" where
  "subscribe unmapped cb t =
     (let topic = remap unmapped t
      in ensure (map_of (sub_map t) topic = None) Assert_Failed
           (let t1 = t\<lparr>sub_map := oput unmapped topic (sub_map t)\<rparr>
            in ensure (map_of (subscriptions t1) topic = None) Assert_Failed
                 (let (s, t2) = createSubscription topic cb t1
                  in Inr (regp (Reg_Subscription topic (created t))
                       (t2\<lparr>subscriptions := oput topic (created t, s) (subscriptions t2)\<rparr>)))))"

definition publish :: "string \<Rightarrow> msg \<Rightarrow> 'cb tm \<Rightarrow> 'cb tm res" where
  "publish unmapped m t =
     bindR (case map_of (pub_map t) unmapped of
              None \<Rightarrow> registerPublication unmapped t
            | Some topic \<Rightarrow> ensure (topic = remap unmapped t) Assert_Failed (Inr t))
       (\<lambda>t1. case map_of (pub_map t1) unmapped of
          None \<Rightarrow> Inl Null_Deref
        | Some topic \<Rightarrow>
            (case map_of (publications t1) topic of
               None \<Rightarrow> Inl Null_Deref
             | Some p \<Rightarrow> Inr (t1\<lparr>publications := oset topic (pn_publish m p) (publications t1)\<rparr>)))"

definition publicationURIs :: "string \<Rightarrow> 'cb tm \<Rightarrow> string list" where
  "publicationURIs topic t =
     (case map_of (publications t) topic of
        None \<Rightarrow> [] | Some p \<Rightarrow> publication_uris p)"

definition tm_shutdown :: "'cb tm \<Rightarrow> 'cb tm res" where
  "tm_shutdown t =
     bindR (foldR unregisterPublication (map fst (pub_map t)) t)
       (\<lambda>t1. foldR unregisterSubscription (map fst (sub_map t1)) t1)"

text \<open>
  Discovery: the callback that \<open>subscribe\<close> gave to the registration runs \<open>foundPublisher\<close> on the
  subscription it points to.
\<close>

definition discovered :: "string \<Rightarrow> nat \<Rightarrow> string list \<Rightarrow> 'cb tm \<Rightarrow> 'cb tm res" where
  "discovered topic i uris t =
     (case map_of (subscriptions t) topic of
        None \<Rightarrow> Inl Use_After_Free
      | Some (j, s) \<Rightarrow>
          ensure (i = j) Use_After_Free
            (bindR (foundPublisher uris s)
               (\<lambda>s'. Inr (t\<lparr>subscriptions := oset topic (i, s') (subscriptions t)\<rparr>))))"

section \<open>Remote requests and changes of the rules\<close>

text \<open>
  In the first loop \<open>it\<close> walks over a copy of \<open>pub_map_\<close>, so the assertion compares the old topic
  with the new one.
\<close>

definition refresh_pub :: "string \<times> string \<Rightarrow> 'cb tm \<Rightarrow> 'cb tm res" where
  "refresh_pub it t =
     (let remapped = remap (fst it) t
      in if remapped \<noteq> snd it
         then bindR (unregisterPublication (fst it) t)
                (\<lambda>t1. bindR (registerPublication (fst it) t1)
                   (\<lambda>t2. ensure (snd it = remapped) Assert_Failed (Inr t2)))
         else Inr t)"

definition refresh_sub :: "string \<times> string \<Rightarrow> 'cb tm \<Rightarrow> 'cb tm res" where
  "refresh_sub it t =
     (let remapped = remap (fst it) t
      in if remapped \<noteq> snd it
         then (case map_of (subscriptions t) (snd it) of
                 None \<Rightarrow> Inl Null_Deref
               | Some (i, s) \<Rightarrow>
                   bindR (unregisterSubscription (fst it) t)
                     (\<lambda>t1. bindR (subscribe (fst it) (sn_cb s) t1)
                        (\<lambda>t2. ensure (map_of (sub_map t2) (fst it) = Some remapped) Assert_Failed (Inr t2))))
         else Inr t)"

definition refreshRemaps :: "'cb tm \<Rightarrow> 'cb tm res" where
  "refreshRemaps t =
     bindR (foldR refresh_pub (pub_map t) t) (\<lambda>t1. foldR refresh_sub (sub_map t1) t1)"

definition setRemap :: "string \<Rightarrow> string \<Rightarrow> 'cb tm \<Rightarrow> 'cb tm res" where
  "setRemap old new t = refreshRemaps (t\<lparr>remaps := oput old new (remaps t)\<rparr>)"

definition setRemappings :: "string list \<Rightarrow> string list \<Rightarrow> 'cb tm \<Rightarrow> 'cb tm res" where
  "setRemappings old new t =
     ensure (length old = length new) Assert_Failed
       (refreshRemaps (t\<lparr>remaps := fold (\<lambda>(f, r). oput f r) (zip old new) []\<rparr>))"

definition requestTopic :: "string \<Rightarrow> 'cb tm \<Rightarrow> string list" where
  "requestTopic topic t = publicationURIs topic t"

section \<open>Invariant\<close>

text \<open>
  \<open>linked names objs\<close>: different names lead to different topics, and the registry holds exactly
  the topics the names lead to.
\<close>

definition linked :: "(string, string) omap \<Rightarrow> (string, 'a) omap \<Rightarrow> bool" where
  "linked names objs \<longleftrightarrow> omap_ok names \<and> omap_ok objs
     \<and> (\<forall>m n topic. map_of names m = Some topic \<longrightarrow> map_of names n = Some topic \<longrightarrow> m = n)
     \<and> (\<forall>topic. map_of objs topic \<noteq> None \<longleftrightarrow> (\<exists>n. map_of names n = Some topic))"

definition tm_inv :: "'cb tm \<Rightarrow> bool" where
  "tm_inv t \<longleftrightarrow> linked (pub_map t) (publications t) \<and> linked (sub_map t) (subscriptions t)
     \<and> omap_ok (remaps t)
     \<and> (\<forall>topic p. map_of (publications t) topic = Some p \<longrightarrow> pn_topic p = topic)
     \<and> (\<forall>topic i s. map_of (subscriptions t) topic = Some (i, s) \<longrightarrow> sn_topic s = topic \<and> i < created t)"

lemma linkedI:
  assumes "omap_ok names" and "omap_ok objs"
    and "\<And>m n topic. map_of names m = Some topic \<Longrightarrow> map_of names n = Some topic \<Longrightarrow> m = n"
    and "\<And>n topic. map_of names n = Some topic \<Longrightarrow> map_of objs topic \<noteq> None"
    and "\<And>topic. map_of objs topic \<noteq> None \<Longrightarrow> \<exists>n. map_of names n = Some topic"
  shows "linked names objs"
  using assms unfolding linked_def by blast

lemma linkedD:
  assumes "linked names objs"
  shows "omap_ok names" "omap_ok objs"
    "map_of names m = Some topic \<Longrightarrow> map_of names n = Some topic \<Longrightarrow> m = n"
    "map_of names n = Some topic \<Longrightarrow> map_of objs topic \<noteq> None"
    "map_of objs topic \<noteq> None \<Longrightarrow> \<exists>n. map_of names n = Some topic"
  using assms unfolding linked_def by blast+

lemma linked_add:
  assumes l: "linked names objs" and n: "map_of names n = None" and t: "map_of objs topic = None"
  shows "linked (oput n topic names) (oput topic x objs)"
proof -
  have fresh: "map_of names m \<noteq> Some topic" for m using linkedD(4)[OF l] t by blast
  show ?thesis
  proof (rule linkedI)
    fix m k s
    assume "map_of (oput n topic names) m = Some s" "map_of (oput n topic names) k = Some s"
    then show "m = k" using fresh linkedD(3)[OF l] by (auto simp: omap_simps split: if_splits)
  next
    fix m s
    assume "map_of (oput n topic names) m = Some s"
    then show "map_of (oput topic x objs) s \<noteq> None"
      using linkedD(4)[OF l, of m s] by (auto simp: omap_simps split: if_splits)
  next
    fix s
    assume s: "map_of (oput topic x objs) s \<noteq> None"
    show "\<exists>m. map_of (oput n topic names) m = Some s"
    proof (cases "s = topic")
      case True
      then show ?thesis by (intro exI[of _ n]) (simp add: omap_simps)
    next
      case False
      then obtain m where "map_of names m = Some s" using s linkedD(5)[OF l, of s] by (auto simp: omap_simps)
      then show ?thesis using n by (intro exI[of _ m]) (auto simp: omap_simps)
    qed
  qed (use linkedD(1,2)[OF l] in auto)
qed

lemma linked_drop:
  assumes l: "linked names objs" and n: "map_of names n = Some topic"
  shows "linked (odel n names) (odel topic objs)"
proof (rule linkedI)
  fix m k s
  assume "map_of (odel n names) m = Some s" "map_of (odel n names) k = Some s"
  then show "m = k" using linkedD(3)[OF l] by (auto simp: omap_simps split: if_splits)
next
  fix m s
  assume "map_of (odel n names) m = Some s"
  then have "m \<noteq> n" "map_of names m = Some s" by (auto simp: omap_simps split: if_splits)
  then show "map_of (odel topic objs) s \<noteq> None"
    using linkedD(3)[OF l n, of m] linkedD(4)[OF l] by (auto simp: omap_simps)
next
  fix s
  assume "map_of (odel topic objs) s \<noteq> None"
  then have "s \<noteq> topic" "map_of objs s \<noteq> None" by (auto simp: omap_simps split: if_splits)
  then show "\<exists>m. map_of (odel n names) m = Some s"
    using linkedD(5)[OF l, of s] n by (auto simp: omap_simps) (metis option.inject)
qed (use linkedD(1,2)[OF l] in auto)

lemma linked_oset: "linked names objs \<Longrightarrow> map_of objs topic \<noteq> None \<Longrightarrow> linked names (oset topic x objs)"
  unfolding linked_def by (simp add: omap_simps omap_ok_oset)

lemma linked_Some: "linked names objs \<Longrightarrow> map_of names n = Some topic \<Longrightarrow> \<exists>x. map_of objs topic = Some x"
  unfolding linked_def by blast

lemma regp_fields [simp]:
  "pub_map (regp c t) = pub_map t" "sub_map (regp c t) = sub_map t" "remaps (regp c t) = remaps t"
  "publications (regp c t) = publications t" "subscriptions (regp c t) = subscriptions t"
  "created (regp c t) = created t" "pubs_down (regp c t) = pubs_down t" "subs_down (regp c t) = subs_down t"
  "reg_calls (regp c t) = reg_calls t @ [c]" "pub_factories (regp c t) = pub_factories t"
  "sub_factories (regp c t) = sub_factories t"
  by (simp_all add: regp_def)

lemma created_topics [simp]:
  "pn_topic (fst (createPublication topic t)) = topic"
  "sn_topic (fst (createSubscription topic cb t)) = topic"
  "sn_cb (fst (createSubscription topic cb t)) = cb"
  "snd (createPublication topic t) = t\<lparr>created := created t + 1\<rparr>"
  "snd (createSubscription topic cb t) = t\<lparr>created := created t + 1\<rparr>"
proof -
  have "pn_topic (fold (\<lambda>f p. pn_addTransport (f k) p) fs p) = pn_topic p" for fs p and k :: nat
    by (induction fs arbitrary: p) (simp_all add: pn_addTransport_def)
  then show "pn_topic (fst (createPublication topic t)) = topic"
    by (simp add: createPublication_def new_publication_def)
  have "sn_topic (fold (\<lambda>f s. sn_addTransport (f k) s) fs s) = sn_topic s \<and>
        sn_cb (fold (\<lambda>f s. sn_addTransport (f k) s) fs s) = sn_cb s"
    for fs and k :: nat and s :: "'a subscription"
    by (induction fs arbitrary: s) (simp_all add: sn_addTransport_def)
  then show "sn_topic (fst (createSubscription topic cb t)) = topic"
    "sn_cb (fst (createSubscription topic cb t)) = cb"
    by (simp_all add: createSubscription_def new_subscription_def)
qed (simp_all add: createPublication_def createSubscription_def)


text \<open>Every name leads to the topic the current rules give it.\<close>

definition consistent :: "'cb tm \<Rightarrow> bool" where
  "consistent t \<longleftrightarrow>
     (\<forall>n topic. map_of (pub_map t) n = Some topic \<longrightarrow> topic = remap n t)
     \<and> (\<forall>n topic. map_of (sub_map t) n = Some topic \<longrightarrow> topic = remap n t)"

lemma remap_remaps: "remaps t = remaps u \<Longrightarrow> remap n t = remap n u"
  by (simp add: remap_def)

section \<open>What the operations do\<close>

lemma unregisterPublication_result:
  assumes "tm_inv t" and "map_of (pub_map t) n = Some topic"
  shows "\<exists>p t'. map_of (publications t) topic = Some p \<and> unregisterPublication n t = Inr t' \<and> tm_inv t'
    \<and> pub_map t' = odel n (pub_map t) \<and> publications t' = odel topic (publications t)
    \<and> sub_map t' = sub_map t \<and> subscriptions t' = subscriptions t \<and> remaps t' = remaps t
    \<and> pubs_down t' = pubs_down t @ [pn_shutdown p] \<and> subs_down t' = subs_down t
    \<and> reg_calls t' = reg_calls t @ [Unreg_Publication topic]"
proof -
  obtain p where p: "map_of (publications t) topic = Some p"
    using linked_Some[of "pub_map t" "publications t" n topic] assms by (auto simp: tm_inv_def)
  show ?thesis
    using assms p linked_drop[OF _ assms(2), of "publications t"]
    by (auto simp: unregisterPublication_def tm_inv_def omap_simps split: if_splits)
qed

lemma unregisterSubscription_result:
  assumes "tm_inv t" and "map_of (sub_map t) n = Some topic"
  shows "\<exists>i s t'. map_of (subscriptions t) topic = Some (i, s) \<and> unregisterSubscription n t = Inr t' \<and> tm_inv t'
    \<and> sub_map t' = odel n (sub_map t) \<and> subscriptions t' = odel topic (subscriptions t)
    \<and> pub_map t' = pub_map t \<and> publications t' = publications t \<and> remaps t' = remaps t
    \<and> subs_down t' = subs_down t @ [sn_shutdown s] \<and> pubs_down t' = pubs_down t
    \<and> reg_calls t' = reg_calls t @ [Unreg_Subscription topic] \<and> created t' = created t"
proof -
  obtain i s where s: "map_of (subscriptions t) topic = Some (i, s)"
    using linked_Some assms unfolding tm_inv_def by (metis prod.collapse)
  show ?thesis
    using assms s linked_drop[OF _ assms(2), of "subscriptions t"]
    by (auto simp: unregisterSubscription_def tm_inv_def omap_simps split: if_splits)
qed

lemma registerPublication_result:
  assumes "tm_inv t" and "map_of (pub_map t) n = None" and "registerPublication n t = Inr t'"
  shows "tm_inv t' \<and> map_of (publications t) (remap n t) = None
    \<and> pub_map t' = oput n (remap n t) (pub_map t)
    \<and> publications t' = oput (remap n t) (fst (createPublication (remap n t) t)) (publications t)
    \<and> sub_map t' = sub_map t \<and> subscriptions t' = subscriptions t \<and> remaps t' = remaps t"
proof -
  let ?topic = "remap n t"
  have free: "map_of (publications t) ?topic = None"
    using assms(3) by (simp add: registerPublication_def Let_def res_simps)
  define t1 where "t1 = t\<lparr>pub_map := oput n ?topic (pub_map t)\<rparr>"
  have p: "fst (createPublication ?topic t1) = fst (createPublication ?topic t)"
    by (simp add: createPublication_def t1_def)
  have t': "t' = regp (Reg_Publication ?topic)
      (t1\<lparr>created := created t + 1, publications := oput ?topic (fst (createPublication ?topic t)) (publications t)\<rparr>)"
    using assms(3) p by (auto simp: registerPublication_def Let_def res_simps case_prod_unfold t1_def)
  have "linked (pub_map t') (publications t')"
    using linked_add[OF _ assms(2) free] assms(1) by (simp add: t' t1_def tm_inv_def)
  then show ?thesis
    using assms(1) free by (auto simp: t' t1_def tm_inv_def omap_simps less_SucI)
qed

lemma registerPublication_returns:
  "map_of (publications t) (remap n t) = None \<Longrightarrow> \<exists>t'. registerPublication n t = Inr t'"
  by (simp add: registerPublication_def Let_def case_prod_unfold)

lemma subscribe_result:
  assumes "tm_inv t" and "map_of (sub_map t) n = None" and "subscribe n cb t = Inr t'"
  shows "tm_inv t' \<and> map_of (subscriptions t) (remap n t) = None
    \<and> sub_map t' = oput n (remap n t) (sub_map t)
    \<and> (\<exists>s. sn_cb s = cb \<and> subscriptions t' = oput (remap n t) (created t, s) (subscriptions t))
    \<and> pub_map t' = pub_map t \<and> publications t' = publications t \<and> remaps t' = remaps t
    \<and> created t' = created t + 1
    \<and> reg_calls t' = reg_calls t @ [Reg_Subscription (remap n t) (created t)]"
proof -
  let ?topic = "remap n t"
  have free: "map_of (subscriptions t) ?topic = None"
    using assms(3) by (simp add: subscribe_def Let_def res_simps)
  define t1 where "t1 = t\<lparr>sub_map := oput n ?topic (sub_map t)\<rparr>"
  define s where "s = fst (createSubscription ?topic cb t1)"
  have s: "sn_topic s = ?topic" "sn_cb s = cb" by (simp_all add: s_def)
  have t': "t' = regp (Reg_Subscription ?topic (created t))
      (t1\<lparr>created := created t + 1, subscriptions := oput ?topic (created t, s) (subscriptions t)\<rparr>)"
    using assms(3) by (auto simp: subscribe_def Let_def res_simps case_prod_unfold t1_def s_def)
  have "linked (sub_map t') (subscriptions t')"
    using linked_add[OF _ assms(2) free] assms(1) by (simp add: t' t1_def tm_inv_def)
  then show ?thesis
    using assms(1) free s by (auto simp: t' t1_def tm_inv_def omap_simps less_SucI)
qed


section \<open>Renaming\<close>

lemma prefix_le: "prefix xs ys \<Longrightarrow> xs \<le> (ys :: 'a :: linorder list)"
proof (induction xs arbitrary: ys)
  case (Cons x xs)
  then show ?case by (cases ys) auto
qed simp

lemma apply_rules_first:
  assumes "omap_ok rules"
  shows "(apply_rules rules name = name \<and> (\<forall>(s, r) \<in> set rules. \<not> prefix s name))
    \<or> (\<exists>s r. (s, r) \<in> set rules \<and> prefix s name \<and> apply_rules rules name = r @ drop (length s) name
         \<and> (\<forall>(s', r') \<in> set rules. prefix s' name \<longrightarrow> prefix s s'))"
  using assms
proof (induction rules)
  case Nil
  then show ?case by simp
next
  case (Cons p rules)
  obtain s r where p: "p = (s, r)" by fastforce
  show ?case
  proof (cases "prefix s name")
    case True
    have "prefix s s'" if "(s', r') \<in> set rules" "prefix s' name" for s' r'
    proof -
      have "s < s'" using Cons.prems that(1) p by (force simp: omap_ok_Cons)
      then have "\<not> prefix s' s" using prefix_le by fastforce
      then show ?thesis using prefix_same_cases[OF True that(2)] by blast
    qed
    then show ?thesis using True p by (intro disjI2 exI[of _ s] exI[of _ r]) auto
  next
    case False
    then show ?thesis using Cons.IH Cons.prems p by (auto simp: omap_ok_Cons)
  qed
qed

text \<open>A refresh that returns found every publication in place.\<close>

lemma refresh_pub_iff: "refresh_pub it t = Inr t' \<longleftrightarrow> remap (fst it) t = snd it \<and> t' = t"
  by (auto simp: refresh_pub_def Let_def res_simps)

lemma refresh_pubs_iff:
  "foldR refresh_pub its t = Inr t' \<longleftrightarrow> (\<forall>it \<in> set its. remap (fst it) t = snd it) \<and> t' = t"
  by (induction its) (auto simp: res_simps refresh_pub_iff)

lemma refresh_sub_result:
  assumes inv: "tm_inv t" and now: "map_of (sub_map t) n = Some c" and ret: "refresh_sub (n, c) t = Inr t'"
  shows "tm_inv t' \<and> map_of (sub_map t') = (map_of (sub_map t))(n \<mapsto> remap n t)
    \<and> remaps t' = remaps t \<and> pub_map t' = pub_map t \<and> publications t' = publications t"
proof (cases "remap n t = c")
  case True
  then show ?thesis using assms by (auto simp: refresh_sub_def)
next
  case False
  obtain i s t1 where t1: "map_of (subscriptions t) c = Some (i, s)" "unregisterSubscription n t = Inr t1" "tm_inv t1"
    "sub_map t1 = odel n (sub_map t)" "pub_map t1 = pub_map t" "publications t1 = publications t" "remaps t1 = remaps t"
    using unregisterSubscription_result[OF inv now] by blast
  have r: "remap n t1 = remap n t" using t1(7) by (rule remap_remaps)
  have sub: "subscribe n (sn_cb s) t1 = Inr t'"
    using ret False t1(1,2) by (auto simp: refresh_sub_def Let_def res_simps)
  have none: "map_of (sub_map t1) n = None" using t1(4) by (simp add: omap_simps)
  have "tm_inv t'" "sub_map t' = oput n (remap n t1) (sub_map t1)" "pub_map t' = pub_map t1"
    "publications t' = publications t1" "remaps t' = remaps t1"
    using subscribe_result[OF t1(3) none sub] by simp_all
  then show ?thesis using t1(4-7) r by (simp add: omap_simps)
qed

lemma refresh_subs_result:
  assumes "tm_inv t" and "\<forall>(n, c) \<in> set its. map_of (sub_map t) n = Some c" and "distinct (map fst its)"
    and "foldR refresh_sub its t = Inr t'"
  shows "tm_inv t' \<and> remaps t' = remaps t \<and> pub_map t' = pub_map t \<and> publications t' = publications t
    \<and> (\<forall>n. map_of (sub_map t') n
          = (if n \<in> fst ` set its then Some (remap n t) else map_of (sub_map t) n))"
  using assms
proof (induction its arbitrary: t)
  case Nil
  then show ?case by simp
next
  case (Cons it its)
  obtain n c where it: "it = (n, c)" by fastforce
  obtain t1 where t1: "refresh_sub (n, c) t = Inr t1" "foldR refresh_sub its t1 = Inr t'"
    using Cons.prems(4) it by (auto simp: res_simps)
  have r1: "tm_inv t1" "map_of (sub_map t1) = (map_of (sub_map t))(n \<mapsto> remap n t)"
    "remaps t1 = remaps t" "pub_map t1 = pub_map t" "publications t1 = publications t"
    using refresh_sub_result[OF Cons.prems(1) _ t1(1)] Cons.prems(2) it by auto
  have "\<forall>(m, d) \<in> set its. map_of (sub_map t1) m = Some d"
    using Cons.prems(2,3) it r1(2) by (force simp: image_iff)
  then have IH: "tm_inv t' \<and> remaps t' = remaps t1 \<and> pub_map t' = pub_map t1 \<and> publications t' = publications t1
    \<and> (\<forall>m. map_of (sub_map t') m = (if m \<in> fst ` set its then Some (remap m t1) else map_of (sub_map t1) m))"
    using Cons.IH[OF r1(1) _ _ t1(2)] Cons.prems(3) it by simp
  have "remap m t1 = remap m t" for m using r1(3) by (rule remap_remaps)
  then show ?case using IH r1 it by auto
qed

lemma refreshRemaps_result:
  assumes inv: "tm_inv t" and ret: "refreshRemaps t = Inr t'"
  shows "tm_inv t' \<and> consistent t' \<and> remaps t' = remaps t \<and> pub_map t' = pub_map t
    \<and> publications t' = publications t \<and> dom (map_of (sub_map t')) = dom (map_of (sub_map t))"
proof -
  have pubs: "\<forall>it \<in> set (pub_map t). remap (fst it) t = snd it" and subs: "foldR refresh_sub (sub_map t) t = Inr t'"
    using ret by (auto simp: refreshRemaps_def res_simps refresh_pubs_iff)
  have ok: "omap_ok (sub_map t)" "omap_ok (pub_map t)" using inv by (auto simp: tm_inv_def linked_def)
  have r: "tm_inv t'" "remaps t' = remaps t" "pub_map t' = pub_map t" "publications t' = publications t"
    "\<And>n. map_of (sub_map t') n = (if n \<in> fst ` set (sub_map t) then Some (remap n t) else map_of (sub_map t) n)"
    using refresh_subs_result[OF inv _ omap_ok_distinct[OF ok(1)] subs] omap_ok_map_of[OF ok(1)] by auto
  have "remap n t' = remap n t" for n using r(2) by (rule remap_remaps)
  moreover have "map_of (sub_map t) n = None" if "n \<notin> fst ` set (sub_map t)" for n
    using that by (simp add: map_of_eq_None_iff)
  ultimately have "consistent t'"
    using r(3,5) pubs by (auto simp: consistent_def dest!: map_of_SomeD split: if_splits)
  moreover have "dom (map_of (sub_map t')) = dom (map_of (sub_map t))"
    using r(5) by (auto simp: dom_def dom_map_of_conv_image_fst map_of_eq_None_iff split: if_splits)
      (metis domI dom_map_of_conv_image_fst domD)+
  ultimately show ?thesis using r by blast
qed


lemma discovered_result:
  assumes "tm_inv t" and "discovered topic i uris t = Inr t'"
  shows "tm_inv t' \<and> sub_map t' = sub_map t \<and> pub_map t' = pub_map t \<and> remaps t' = remaps t
    \<and> publications t' = publications t"
proof -
  obtain s s' where s: "map_of (subscriptions t) topic = Some (i, s)" "foundPublisher uris s = Inr s'"
    "t' = t\<lparr>subscriptions := oset topic (i, s') (subscriptions t)\<rparr>"
    using assms(2) by (auto simp: discovered_def res_simps split: option.splits)
  have "sn_topic s' = sn_topic s" using s(2) by (auto simp: foundPublisher_def res_simps)
  then show ?thesis
    using assms(1) s linked_oset[of "sub_map t" "subscriptions t" topic]
    by (auto simp: tm_inv_def omap_simps split: if_splits)
qed

lemma publish_result:
  assumes inv: "tm_inv t" and con: "consistent t"
    and ok: "map_of (pub_map t) n = None \<longrightarrow> map_of (publications t) (remap n t) = None"
  shows "\<exists>t1 p t'. publish n m t = Inr t' \<and> map_of (publications t1) (remap n t) = Some p
    \<and> t' = t1\<lparr>publications := oset (remap n t) (pn_publish m p) (publications t1)\<rparr>
    \<and> tm_inv t1 \<and> sub_map t1 = sub_map t \<and> subscriptions t1 = subscriptions t \<and> remaps t1 = remaps t
    \<and> (if map_of (pub_map t) n = None
       then pub_map t1 = oput n (remap n t) (pub_map t)
            \<and> publications t1 = oput (remap n t) (fst (createPublication (remap n t) t)) (publications t)
       else t1 = t)"
proof (cases "map_of (pub_map t) n")
  case None
  then obtain t1 where t1: "registerPublication n t = Inr t1" using ok registerPublication_returns by blast
  then have r: "tm_inv t1" "pub_map t1 = oput n (remap n t) (pub_map t)" "sub_map t1 = sub_map t"
    "publications t1 = oput (remap n t) (fst (createPublication (remap n t) t)) (publications t)"
    "subscriptions t1 = subscriptions t" "remaps t1 = remaps t"
    using registerPublication_result[OF inv None] by blast+
  then show ?thesis
    using t1 None
    by - (rule exI[of _ t1], rule exI[of _ "fst (createPublication (remap n t) t)"],
      simp add: publish_def omap_simps)
next
  case (Some topic)
  then have "topic = remap n t" using con by (simp add: consistent_def)
  moreover obtain p where "map_of (publications t) topic = Some p"
    using linked_Some[of "pub_map t" "publications t" n topic] inv Some by (auto simp: tm_inv_def)
  ultimately show ?thesis using Some inv
    by - (rule exI[of _ t], rule exI[of _ p], simp add: publish_def)
qed

lemma publish_keeps:
  assumes inv: "tm_inv t" "consistent t" and ret: "publish n m t = Inr t'"
  shows "tm_inv t' \<and> consistent t'"
proof -
  have ok: "map_of (pub_map t) n = None \<longrightarrow> map_of (publications t) (remap n t) = None"
    using ret by (auto simp: publish_def res_simps registerPublication_def Let_def)
  obtain t1 p where t1: "map_of (publications t1) (remap n t) = Some p"
    "t' = t1\<lparr>publications := oset (remap n t) (pn_publish m p) (publications t1)\<rparr>"
    "tm_inv t1" "sub_map t1 = sub_map t" "remaps t1 = remaps t"
    "pub_map t1 = pub_map t \<or> pub_map t1 = oput n (remap n t) (pub_map t)"
    using publish_result[OF inv ok, of m] ret by (auto split: if_splits)
  have "pn_topic (pn_publish m p) = pn_topic p" by (simp add: pn_publish_def)
  then have "tm_inv t'"
    using t1(1-3) linked_oset[of "pub_map t1" "publications t1" "remap n t"]
    by (auto simp: tm_inv_def omap_simps split: if_splits)
  moreover have "remap k t' = remap k t" for k using t1(2,5) by (simp add: remap_def)
  then have "consistent t'"
    using t1(2,4,6) inv(2) by (auto simp: consistent_def omap_simps split: if_splits)
  ultimately show ?thesis by blast
qed

section \<open>Histories\<close>

datatype 'cb tm_op =
    Publish string msg
  | Tm_Register_Publication string
  | Unregister_Publication string
  | Subscribe string 'cb
  | Unregister_Subscription string
  | Set_Remap string string
  | Set_Remappings "string list" "string list"
  | Discovered string nat "string list"
  | Add_Publish_Transport "nat \<Rightarrow> pub_transport"
  | Add_Subscribe_Transport "nat \<Rightarrow> 'cb sub_transport"
  | Tm_Shutdown

fun tm_step :: "'cb tm_op \<Rightarrow> 'cb tm \<Rightarrow> 'cb tm res" where
  "tm_step (Publish n m) t = publish n m t"
| "tm_step (Tm_Register_Publication n) t = registerPublication n t"
| "tm_step (Unregister_Publication n) t = unregisterPublication n t"
| "tm_step (Subscribe n cb) t = subscribe n cb t"
| "tm_step (Unregister_Subscription n) t = unregisterSubscription n t"
| "tm_step (Set_Remap old new) t = setRemap old new t"
| "tm_step (Set_Remappings olds news) t = setRemappings olds news t"
| "tm_step (Discovered topic i uris) t = discovered topic i uris t"
| "tm_step (Add_Publish_Transport f) t = Inr (addPublishTransport f t)"
| "tm_step (Add_Subscribe_Transport f) t = Inr (addSubscribeTransport f t)"
| "tm_step Tm_Shutdown t = tm_shutdown t"

lemma tm_inv_rules: "tm_inv t \<Longrightarrow> omap_ok r \<Longrightarrow> tm_inv (t\<lparr>remaps := r\<rparr>)"
  by (simp add: tm_inv_def)

lemma tm_inv_linked: "tm_inv t \<Longrightarrow> linked (pub_map t) (publications t)" "tm_inv t \<Longrightarrow> linked (sub_map t) (subscriptions t)"
  by (simp_all add: tm_inv_def)

lemma unregister_keeps:
  assumes inv: "tm_inv t" "consistent t"
  shows "unregisterPublication n t = Inr t' \<Longrightarrow> tm_inv t' \<and> consistent t'"
    and "unregisterSubscription n t = Inr t' \<Longrightarrow> tm_inv t' \<and> consistent t'"
proof -
  show "tm_inv t' \<and> consistent t'" if ret: "unregisterPublication n t = Inr t'"
  proof -
    obtain topic where "map_of (pub_map t) n = Some topic"
      using ret by (auto simp: unregisterPublication_def split: option.splits)
    then have r: "tm_inv t'" "pub_map t' = odel n (pub_map t)" "sub_map t' = sub_map t" "remaps t' = remaps t"
      using unregisterPublication_result[OF inv(1)] ret by fastforce+
    have "remap k t' = remap k t" for k using r(4) by (rule remap_remaps)
    then show ?thesis using r inv(2) by (auto simp: consistent_def omap_simps split: if_splits)
  qed
  show "tm_inv t' \<and> consistent t'" if ret: "unregisterSubscription n t = Inr t'"
  proof -
    obtain topic where "map_of (sub_map t) n = Some topic"
      using ret by (auto simp: unregisterSubscription_def split: option.splits)
    then have r: "tm_inv t'" "pub_map t' = pub_map t" "sub_map t' = odel n (sub_map t)" "remaps t' = remaps t"
      using unregisterSubscription_result[OF inv(1)] ret by fastforce+
    have "remap k t' = remap k t" for k using r(4) by (rule remap_remaps)
    then show ?thesis using r inv(2) by (auto simp: consistent_def omap_simps split: if_splits)
  qed
qed

lemma subscribe_keeps:
  assumes inv: "tm_inv t" "consistent t" and ret: "subscribe n cb t = Inr t'"
  shows "tm_inv t' \<and> consistent t'"
proof -
  have "map_of (sub_map t) n = None"
  proof (rule ccontr)
    assume "map_of (sub_map t) n \<noteq> None"
    then obtain topic where topic: "map_of (sub_map t) n = Some topic" by blast
    then have "topic = remap n t" using inv(2) by (simp add: consistent_def)
    then have "map_of (subscriptions t) (remap n t) \<noteq> None"
      using linked_Some[OF tm_inv_linked(2)[OF inv(1)] topic] by auto
    then show False using ret by (simp add: subscribe_def Let_def res_simps)
  qed
  then have r: "tm_inv t'" "pub_map t' = pub_map t" "sub_map t' = oput n (remap n t) (sub_map t)" "remaps t' = remaps t"
    using subscribe_result[OF inv(1) _ ret] by auto
  have "remap k t' = remap k t" for k using r(4) by (rule remap_remaps)
  then show ?thesis using r inv(2) by (auto simp: consistent_def omap_simps split: if_splits)
qed

lemma fold_rules_ok: "omap_ok m \<Longrightarrow> omap_ok (fold (\<lambda>(f, r). oput f r) ps m)"
  by (induction ps arbitrary: m) auto

lemma setRemap_keeps:
  "tm_inv t \<Longrightarrow> setRemap old new t = Inr t' \<Longrightarrow> tm_inv t' \<and> consistent t'"
  "tm_inv t \<Longrightarrow> setRemappings olds news t = Inr t' \<Longrightarrow> tm_inv t' \<and> consistent t'"
proof -
  have rules: "omap_ok (remaps t)" if "tm_inv t" using that by (simp add: tm_inv_def)
  show "tm_inv t \<Longrightarrow> setRemap old new t = Inr t' \<Longrightarrow> tm_inv t' \<and> consistent t'"
    using refreshRemaps_result tm_inv_rules rules omap_ok_oput by (metis setRemap_def)
  show "tm_inv t \<Longrightarrow> setRemappings olds news t = Inr t' \<Longrightarrow> tm_inv t' \<and> consistent t'"
    using refreshRemaps_result tm_inv_rules fold_rules_ok[OF omap_ok_Nil]
    by (simp add: setRemappings_def res_simps) blast
qed

lemma odel_hd: "omap_ok ((k, v) # m) \<Longrightarrow> odel k ((k, v) # m) = m"
  by (force simp: odel_def omap_ok_Cons filter_id_conv)

lemma shutdown_pubs:
  assumes "tm_inv t" and "pub_map t = m"
  shows "\<exists>t'. foldR unregisterPublication (map fst m) t = Inr t' \<and> tm_inv t' \<and> pub_map t' = []
    \<and> sub_map t' = sub_map t \<and> subscriptions t' = subscriptions t \<and> subs_down t' = subs_down t
    \<and> pubs_down t' = pubs_down t @ map (\<lambda>(n, topic). pn_shutdown (the (map_of (publications t) topic))) m"
  using assms
proof (induction m arbitrary: t)
  case Nil
  then show ?case by simp
next
  case (Cons e m)
  obtain n topic where e: "e = (n, topic)" by fastforce
  have ok: "omap_ok ((n, topic) # m)" using Cons.prems e by (auto simp: tm_inv_def linked_def)
  have now: "map_of (pub_map t) n = Some topic" using Cons.prems(2) e by simp
  obtain p t1 where t1: "map_of (publications t) topic = Some p" "unregisterPublication n t = Inr t1" "tm_inv t1"
    "pub_map t1 = odel n (pub_map t)" "publications t1 = odel topic (publications t)"
    "sub_map t1 = sub_map t" "subscriptions t1 = subscriptions t" "subs_down t1 = subs_down t"
    "pubs_down t1 = pubs_down t @ [pn_shutdown p]"
    using unregisterPublication_result[OF Cons.prems(1) now] by blast
  have m: "pub_map t1 = m" using t1(4) Cons.prems(2) e odel_hd[OF ok] by simp
  have "snd x \<noteq> topic" if "x \<in> set m" for x
  proof
    assume "snd x = topic"
    moreover have "map_of (pub_map t) (fst x) = Some (snd x)"
      using that Cons.prems(2) e ok omap_ok_map_of[of "pub_map t" "fst x" "snd x"] by auto
    ultimately have "fst x = n" using linkedD(3)[OF tm_inv_linked(1)[OF Cons.prems(1)]] now by metis
    then show False using that ok by (force simp: omap_ok_Cons)
  qed
  then have down: "map (\<lambda>(n, c). pn_shutdown (the (map_of (publications t1) c))) m
    = map (\<lambda>(n, c). pn_shutdown (the (map_of (publications t) c))) m"
    by (auto simp: t1(5) omap_simps)
  show ?case using Cons.IH[OF t1(3) m, unfolded down] t1(1,2,6-) e by simp
qed

lemma shutdown_subs:
  assumes "tm_inv t" and "sub_map t = m"
  shows "\<exists>t'. foldR unregisterSubscription (map fst m) t = Inr t' \<and> tm_inv t' \<and> sub_map t' = []
    \<and> pub_map t' = pub_map t \<and> pubs_down t' = pubs_down t
    \<and> subs_down t' = subs_down t @ map (\<lambda>(n, topic). sn_shutdown (snd (the (map_of (subscriptions t) topic)))) m"
  using assms
proof (induction m arbitrary: t)
  case Nil
  then show ?case by simp
next
  case (Cons e m)
  obtain n topic where e: "e = (n, topic)" by fastforce
  have ok: "omap_ok ((n, topic) # m)" using Cons.prems e by (auto simp: tm_inv_def linked_def)
  have now: "map_of (sub_map t) n = Some topic" using Cons.prems(2) e by simp
  obtain i s t1 where t1: "map_of (subscriptions t) topic = Some (i, s)" "unregisterSubscription n t = Inr t1" "tm_inv t1"
    "sub_map t1 = odel n (sub_map t)" "subscriptions t1 = odel topic (subscriptions t)"
    "pub_map t1 = pub_map t" "pubs_down t1 = pubs_down t" "subs_down t1 = subs_down t @ [sn_shutdown s]"
    using unregisterSubscription_result[OF Cons.prems(1) now] by blast
  have m: "sub_map t1 = m" using t1(4) Cons.prems(2) e odel_hd[OF ok] by simp
  have "snd x \<noteq> topic" if "x \<in> set m" for x
  proof
    assume "snd x = topic"
    moreover have "map_of (sub_map t) (fst x) = Some (snd x)"
      using that Cons.prems(2) e ok omap_ok_map_of[of "sub_map t" "fst x" "snd x"] by auto
    ultimately have "fst x = n" using linkedD(3)[OF tm_inv_linked(2)[OF Cons.prems(1)]] now by metis
    then show False using that ok by (force simp: omap_ok_Cons)
  qed
  then have down: "map (\<lambda>(n, c). sn_shutdown (snd (the (map_of (subscriptions t1) c)))) m
    = map (\<lambda>(n, c). sn_shutdown (snd (the (map_of (subscriptions t) c)))) m"
    by (auto simp: t1(5) omap_simps)
  show ?case using Cons.IH[OF t1(3) m, unfolded down] t1(1,2,6-) e by simp
qed

lemma register_keeps:
  assumes inv: "tm_inv t" "consistent t" and ret: "registerPublication n t = Inr t'"
  shows "tm_inv t' \<and> consistent t'"
proof -
  have "map_of (pub_map t) n = None"
  proof (rule ccontr)
    assume "map_of (pub_map t) n \<noteq> None"
    then obtain topic where topic: "map_of (pub_map t) n = Some topic" by blast
    then have "topic = remap n t" using inv(2) by (simp add: consistent_def)
    then have "map_of (publications t) (remap n t) \<noteq> None"
      using linked_Some[OF tm_inv_linked(1)[OF inv(1)] topic] by auto
    then show False using ret by (simp add: registerPublication_def Let_def res_simps)
  qed
  then have r: "tm_inv t'" "sub_map t' = sub_map t" "pub_map t' = oput n (remap n t) (pub_map t)" "remaps t' = remaps t"
    using registerPublication_result[OF inv(1) _ ret] by auto
  have "remap k t' = remap k t" for k using r(4) by (rule remap_remaps)
  then show ?thesis using r inv(2) by (auto simp: consistent_def omap_simps split: if_splits)
qed

lemma shutdown_keeps:
  assumes inv: "tm_inv t" and ret: "tm_shutdown t = Inr t'"
  shows "tm_inv t' \<and> consistent t'"
proof -
  obtain t1 where t1: "foldR unregisterPublication (map fst (pub_map t)) t = Inr t1" "tm_inv t1" "pub_map t1 = []"
    using shutdown_pubs[OF inv refl] by blast
  obtain t2 where "foldR unregisterSubscription (map fst (sub_map t1)) t1 = Inr t2" "tm_inv t2" "sub_map t2 = []"
    "pub_map t2 = []" using shutdown_subs[OF t1(2) refl] t1(3) by metis
  then show ?thesis using ret t1(1) by (simp add: tm_shutdown_def consistent_def)
qed

lemma tm_step_keeps:
  assumes inv: "tm_inv t" "consistent t" and ret: "tm_step op t = Inr t'"
  shows "tm_inv t' \<and> consistent t'"
proof (cases op)
  case (Discovered topic i uris)
  then have r: "tm_inv t'" "sub_map t' = sub_map t" "pub_map t' = pub_map t" "remaps t' = remaps t"
    using discovered_result[OF inv(1)] ret by auto
  have "remap k t' = remap k t" for k using r(4) by (rule remap_remaps)
  then show ?thesis using r inv(2) by (simp add: consistent_def)
next
  case (Add_Publish_Transport f)
  then show ?thesis using ret inv
    by (auto simp: addPublishTransport_def tm_inv_def consistent_def remap_def)
next
  case (Add_Subscribe_Transport f)
  then show ?thesis using ret inv
    by (auto simp: addSubscribeTransport_def tm_inv_def consistent_def remap_def)
next
  case (Publish n m)
  then show ?thesis using ret by (intro publish_keeps[OF inv]) simp
next
  case (Tm_Register_Publication n)
  then show ?thesis using ret by (intro register_keeps[OF inv]) simp
next
  case Tm_Shutdown
  then show ?thesis using ret by (intro shutdown_keeps[OF inv(1)]) simp
next
  case (Unregister_Publication n)
  then show ?thesis using ret by (intro unregister_keeps(1)[OF inv]) simp
next
  case (Subscribe n cb)
  then show ?thesis using ret by (intro subscribe_keeps[OF inv]) simp
next
  case (Unregister_Subscription n)
  then show ?thesis using ret by (intro unregister_keeps(2)[OF inv]) simp
next
  case (Set_Remap old new)
  then show ?thesis using ret by (intro setRemap_keeps(1)[OF inv(1)]) simp
next
  case (Set_Remappings olds news)
  then show ?thesis using ret by (intro setRemap_keeps(2)[OF inv(1)]) simp
qed

interpretation tms: guarded_system tm_step "\<lambda>t. tm_inv t \<and> consistent t" "\<lambda>_. True"
  by unfold_locales (use tm_step_keeps in blast)

lemma new_tm_inv: "tm_inv new_tm \<and> consistent new_tm"
  by (simp add: new_tm_def tm_inv_def consistent_def linked_def)

lemma linked_Nil: "linked [] objs \<Longrightarrow> objs = []"
proof (cases objs)
  case (Cons p objs')
  then show "linked [] objs \<Longrightarrow> objs = []" using linkedD(5)[of "[]" objs "fst p"] by auto
qed simp

section \<open>Properties\<close>

text \<open>
  C9: Names and topics stay in step. After every history of publishing, registering, subscribing,
  unregistering, shutting down, discovery and changes of the renaming rules that does not abort: each name a
  publication was asked for leads to its own topic, which is what the current rules make of the
  name, and the registered publications are exactly those topics, under their own topic name; the
  same holds for subscriptions.
\<close>

theorem names_and_topics:
  assumes "foldR tm_step ops new_tm = Inr t"
  shows "(\<forall>topic. map_of (publications t) topic \<noteq> None \<longleftrightarrow> (\<exists>n. map_of (pub_map t) n = Some topic))
    \<and> (\<forall>topic. map_of (subscriptions t) topic \<noteq> None \<longleftrightarrow> (\<exists>n. map_of (sub_map t) n = Some topic))
    \<and> (\<forall>n topic. map_of (pub_map t) n = Some topic \<or> map_of (sub_map t) n = Some topic \<longrightarrow> topic = remap n t)
    \<and> inj_on (map_of (pub_map t)) (dom (map_of (pub_map t)))
    \<and> inj_on (map_of (sub_map t)) (dom (map_of (sub_map t)))
    \<and> (\<forall>topic p. map_of (publications t) topic = Some p \<longrightarrow> pn_topic p = topic)"
proof -
  have "tm_inv t \<and> consistent t"
    by (rule tms.run_inv[OF new_tm_inv _ assms]) (simp add: list_all_iff)
  then have l: "linked (pub_map t) (publications t)" "linked (sub_map t) (subscriptions t)"
    and c: "consistent t" and p: "\<forall>topic p. map_of (publications t) topic = Some p \<longrightarrow> pn_topic p = topic"
    by (simp_all add: tm_inv_def)
  show ?thesis
  proof (intro conjI)
    show "\<forall>topic. map_of (publications t) topic \<noteq> None \<longleftrightarrow> (\<exists>n. map_of (pub_map t) n = Some topic)"
      "\<forall>topic. map_of (subscriptions t) topic \<noteq> None \<longleftrightarrow> (\<exists>n. map_of (sub_map t) n = Some topic)"
      using l unfolding linked_def by blast+
    show "\<forall>n topic. map_of (pub_map t) n = Some topic \<or> map_of (sub_map t) n = Some topic \<longrightarrow> topic = remap n t"
      using c unfolding consistent_def by blast
    show "inj_on (map_of (pub_map t)) (dom (map_of (pub_map t)))"
      using linkedD(3)[OF l(1)] by (intro inj_onI) (metis domD)
    show "inj_on (map_of (sub_map t)) (dom (map_of (sub_map t)))"
      using linkedD(3)[OF l(2)] by (intro inj_onI) (metis domD)
  qed (rule p)
qed

definition chat_tm :: "nat tm" where
  "chat_tm = new_tm\<lparr>pub_factories := [\<lambda>i. \<lparr>pt_protocol = ''tcpros'', pt_endpoint = ''localhost:4000'', pt_calls = []\<rparr>],
     sub_factories := [\<lambda>i. \<lparr>st_protocol = ''tcpros'', st_calls = []\<rparr>]\<rparr>"

theorem names_and_topics_witness:
  "\<exists>t. foldR tm_step [Set_Remap ''/a'' ''/b'', Publish ''/a/x'' (new_msg [] 0), Subscribe ''/c'' (1 :: nat)] new_tm = Inr t
    \<and> map_of (pub_map t) ''/a/x'' = Some ''/b/x'' \<and> map_of (publications t) ''/b/x'' \<noteq> None"
proof -
  let ?ops = "[Set_Remap ''/a'' ''/b'', Publish ''/a/x'' (new_msg [] 0), Subscribe ''/c'' (1 :: nat)]"
  obtain t where t: "foldR tm_step ?ops new_tm = Inr t" "map_of (pub_map t) ''/a/x'' = Some ''/b/x''"
    by (simp add: new_tm_def setRemap_def refreshRemaps_def publish_def remap_def registerPublication_def
        createPublication_def regp_def subscribe_def createSubscription_def Let_def oset_def)
  then show ?thesis using names_and_topics[OF t(1)] by auto
qed

text \<open>
  C28: A renaming rule applies where it should. The new name comes from the rule with the shortest
  key that starts the old name, and only that start is replaced; a name no rule matches is kept.
\<close>

theorem remap_shortest:
  assumes "omap_ok (remaps t)"
  shows "(remap name t = name \<and> (\<forall>(s, r) \<in> set (remaps t). \<not> prefix s name))
    \<or> (\<exists>s r rest. (s, r) \<in> set (remaps t) \<and> name = s @ rest \<and> remap name t = r @ rest
         \<and> (\<forall>(s', r') \<in> set (remaps t). prefix s' name \<longrightarrow> prefix s s'))"
  using apply_rules_first[OF assms, of name]
proof (elim disjE exE conjE)
  fix s r
  assume a: "(s, r) \<in> set (remaps t)" "prefix s name"
    "apply_rules (remaps t) name = r @ drop (length s) name"
    "\<forall>(s', r') \<in> set (remaps t). prefix s' name \<longrightarrow> prefix s s'"
  obtain rest where "name = s @ rest" using a(2) by (auto simp: prefix_def)
  then have "name = s @ rest \<and> apply_rules (remaps t) name = r @ rest" using a(3) by simp
  with a(1,4) show ?thesis unfolding remap_def by blast
qed (simp add: remap_def)

theorem remap_shortest_witness:
  "remap ''/robot/arm'' (chat_tm\<lparr>remaps := [(''/robot'', ''/r2''), (''/robot/arm'', ''/x'')]\<rparr>) = ''/r2/arm''"
proof -
  let ?t = "chat_tm\<lparr>remaps := [(''/robot'', ''/r2''), (''/robot/arm'', ''/x'')]\<rparr>"
  have "omap_ok (remaps ?t)" by (simp add: omap_ok_def)
  from remap_shortest[OF this, of "''/robot/arm''"] show ?thesis
    by (auto simp: prefix_def)
qed

text \<open>
  Publishing reaches the topic. For a name that has a publication, or whose topic is free, one
  call returns and hands the message once to every transport of the topic the name is renamed to,
  which it creates if need be; no other publication is touched.
\<close>

theorem publish_reaches:
  assumes "tm_inv t" and "consistent t"
    and "map_of (pub_map t) n = None \<longrightarrow> map_of (publications t) (remap n t) = None"
  shows "\<exists>t' p. publish n m t = Inr t' \<and> map_of (publications t') (remap n t) = Some (pn_publish m p)
    \<and> p = (case map_of (publications t) (remap n t) of
             Some q \<Rightarrow> q | None \<Rightarrow> fst (createPublication (remap n t) t))
    \<and> (\<forall>topic. topic \<noteq> remap n t \<longrightarrow> map_of (publications t') topic = map_of (publications t) topic)"
proof -
  obtain t1 p t' where r: "publish n m t = Inr t'" "map_of (publications t1) (remap n t) = Some p"
    "t' = t1\<lparr>publications := oset (remap n t) (pn_publish m p) (publications t1)\<rparr>"
    "if map_of (pub_map t) n = None
       then pub_map t1 = oput n (remap n t) (pub_map t)
            \<and> publications t1 = oput (remap n t) (fst (createPublication (remap n t) t)) (publications t)
       else t1 = t"
    using publish_result[OF assms] by blast
  have "p = (case map_of (publications t) (remap n t) of
             Some q \<Rightarrow> q | None \<Rightarrow> fst (createPublication (remap n t) t))"
    using r(2,4) assms(3) by (auto simp: omap_simps split: if_splits)
  then show ?thesis using r assms(3) by (auto simp: omap_simps split: if_splits)
qed

theorem publish_reaches_witness:
  "\<exists>t' p. publish ''/chat'' (new_msg [] 0) chat_tm = Inr t'
    \<and> map_of (publications t') ''/chat'' = Some (pn_publish (new_msg [] 0) p)"
proof -
  have i: "tm_inv chat_tm" "consistent chat_tm"
    by (simp_all add: chat_tm_def new_tm_def tm_inv_def consistent_def linked_def)
  have "remap ''/chat'' chat_tm = ''/chat''" by (simp add: chat_tm_def new_tm_def remap_def)
  then show ?thesis
    using publish_reaches[OF i, of "''/chat''" "new_msg [] 0"] by (auto simp: chat_tm_def new_tm_def)
qed

text \<open>
  Shutting down leaves nothing behind. From every state that a history reaches, \<open>shutdown\<close>
  returns; afterwards no name, publication or subscription is left, and every publication and
  every subscription was shut down exactly once, in the order of their names.
\<close>

theorem shutdown_empties:
  assumes "tm_inv t"
  shows "\<exists>t'. tm_shutdown t = Inr t' \<and> pub_map t' = [] \<and> publications t' = []
    \<and> sub_map t' = [] \<and> subscriptions t' = []
    \<and> pubs_down t' = pubs_down t
        @ map (\<lambda>(n, topic). pn_shutdown (the (map_of (publications t) topic))) (pub_map t)
    \<and> subs_down t' = subs_down t
        @ map (\<lambda>(n, topic). sn_shutdown (snd (the (map_of (subscriptions t) topic)))) (sub_map t)"
proof -
  obtain t1 where t1: "foldR unregisterPublication (map fst (pub_map t)) t = Inr t1" "tm_inv t1" "pub_map t1 = []"
    "sub_map t1 = sub_map t" "subscriptions t1 = subscriptions t" "subs_down t1 = subs_down t"
    "pubs_down t1 = pubs_down t @ map (\<lambda>(n, topic). pn_shutdown (the (map_of (publications t) topic))) (pub_map t)"
    using shutdown_pubs[OF assms refl] by blast
  obtain t2 where t2: "foldR unregisterSubscription (map fst (sub_map t1)) t1 = Inr t2" "tm_inv t2" "sub_map t2 = []"
    "pub_map t2 = pub_map t1" "pubs_down t2 = pubs_down t1"
    "subs_down t2 = subs_down t1 @ map (\<lambda>(n, topic). sn_shutdown (snd (the (map_of (subscriptions t1) topic)))) (sub_map t1)"
    using shutdown_subs[OF t1(2) refl] by blast
  have "publications t2 = []" "subscriptions t2 = []"
    using linked_Nil tm_inv_linked[OF t2(2)] t2(3,4) t1(3) by metis+
  then show ?thesis using t1 t2 by (simp add: tm_shutdown_def)
qed

theorem shutdown_empties_witness:
  "\<exists>t t'. publish ''/chat'' (new_msg [] 0) chat_tm = Inr t \<and> tm_shutdown t = Inr t'
    \<and> publications t' = [] \<and> length (pubs_down t') = 1"
proof -
  have i: "tm_inv chat_tm" "consistent chat_tm"
    by (simp_all add: chat_tm_def new_tm_def tm_inv_def consistent_def linked_def)
  obtain t where t: "publish ''/chat'' (new_msg [] 0) chat_tm = Inr t" "length (pub_map t) = 1" "pubs_down t = []"
    by (simp add: chat_tm_def new_tm_def publish_def remap_def registerPublication_def createPublication_def regp_def Let_def oset_def)
  then have "tm_inv t" using publish_keeps[OF i] by blast
  from shutdown_empties[OF this] t show ?thesis by fastforce
qed

text \<open>
  C36: Renaming a publication aborts the process. If the new rule changes the topic of a name that
  has a publication, \<open>setRemap\<close> never returns: the assertion after the publication was moved
  compares with the entry of the copied map, which still holds the old topic.
\<close>

theorem rename_publication_aborts:
  assumes "map_of (pub_map t) n = Some topic"
    and "apply_rules (oput old new (remaps t)) n \<noteq> topic"
  shows "\<exists>e. setRemap old new t = Inl e"
proof -
  let ?t = "t\<lparr>remaps := oput old new (remaps t)\<rparr>"
  have "(n, topic) \<in> set (pub_map ?t)" using map_of_SomeD[OF assms(1)] by simp
  moreover have "remap n ?t \<noteq> topic" using assms(2) by (simp add: remap_def)
  ultimately have "foldR refresh_pub (pub_map ?t) ?t \<noteq> Inr t1" for t1
    by (force simp: refresh_pubs_iff)
  then show ?thesis unfolding setRemap_def refreshRemaps_def
    by (cases "foldR refresh_pub (pub_map ?t) ?t") auto
qed

theorem rename_publication_aborts_witness:
  "\<exists>t e. publish ''/chat'' (new_msg [] 0) chat_tm = Inr t \<and> setRemap ''/chat'' ''/talk'' t = Inl e"
proof -
  obtain t where t: "publish ''/chat'' (new_msg [] 0) chat_tm = Inr t"
    "map_of (pub_map t) ''/chat'' = Some ''/chat''" "remaps t = []"
    by (simp add: chat_tm_def new_tm_def publish_def remap_def registerPublication_def createPublication_def
        regp_def omap_simps Let_def)
  then show ?thesis using rename_publication_aborts[OF t(2), of "''/chat''" "''/talk''"] by auto
qed

text \<open>
  C37: Discovery after unsubscribing uses a deleted object. The callback given to the registration
  holds the raw pointer of the subscription: once the subscription was unregistered, an answer
  that still arrives, even after the same name was subscribed again, runs on a deleted object.
\<close>

theorem late_discovery_dangles:
  assumes "tm_inv t" and "map_of (sub_map t) n = None" and "subscribe n cb t = Inr t1"
    and "unregisterSubscription n t1 = Inr t2"
  shows "discovered (remap n t) (created t) uris t2 = Inl Use_After_Free
    \<and> (\<forall>cb' t3. subscribe n cb' t2 = Inr t3 \<longrightarrow>
         discovered (remap n t) (created t) uris t3 = Inl Use_After_Free)"
proof -
  have r1: "tm_inv t1" "sub_map t1 = oput n (remap n t) (sub_map t)" "remaps t1 = remaps t" "created t1 = created t + 1"
    using subscribe_result[OF assms(1-3)] by blast+
  have now: "map_of (sub_map t1) n = Some (remap n t)" by (simp add: r1(2) omap_simps)
  have r2: "tm_inv t2" "subscriptions t2 = odel (remap n t) (subscriptions t1)" "remaps t2 = remaps t1"
    "sub_map t2 = odel n (sub_map t1)" "created t2 = created t1"
    using unregisterSubscription_result[OF r1(1) now] assms(4) by auto
  have same: "remap n t2 = remap n t" using r1(3) r2(3) by (intro remap_remaps) simp
  have "discovered (remap n t) (created t) uris t3 = Inl Use_After_Free" if sub: "subscribe n cb' t2 = Inr t3" for cb' t3
  proof -
    have none: "map_of (sub_map t2) n = None" by (simp add: r2(4) omap_simps)
    obtain s where "subscriptions t3 = oput (remap n t) (created t2, s) (subscriptions t2)"
      using subscribe_result[OF r2(1) none sub] same by auto
    then show ?thesis using r1(4) r2(5) by (simp add: discovered_def omap_simps)
  qed
  then show ?thesis by (simp add: discovered_def r2(2) omap_simps)
qed

theorem late_discovery_dangles_witness:
  "\<exists>t1 t2. subscribe ''/chat'' 1 chat_tm = Inr t1 \<and> unregisterSubscription ''/chat'' t1 = Inr t2
    \<and> discovered ''/chat'' 0 [''tcpros://localhost:4000''] t2 = Inl Use_After_Free"
proof -
  have i: "tm_inv chat_tm" "map_of (sub_map chat_tm) ''/chat'' = None" "remap ''/chat'' chat_tm = ''/chat''"
    "created chat_tm = 0"
    by (simp_all add: chat_tm_def new_tm_def tm_inv_def linked_def remap_def)
  obtain t1 t2 where t: "subscribe ''/chat'' 1 chat_tm = Inr t1" "unregisterSubscription ''/chat'' t1 = Inr t2"
    by (simp add: chat_tm_def new_tm_def subscribe_def remap_def createSubscription_def regp_def unregisterSubscription_def Let_def)
  show ?thesis using late_discovery_dangles[OF i(1,2) t] t i(3,4) by auto
qed

text \<open>
  Subscribing can abort although the topic is free. The first assertion of \<open>subscribe\<close> looks
  for the topic among the unmapped names: if the renamed topic happens to be the name of another
  subscription, the process aborts, whether or not the topic has a subscription.
\<close>

theorem subscribe_false_alarm:
  assumes "map_of (sub_map t) (remap n t) \<noteq> None"
  shows "subscribe n cb t = Inl Assert_Failed"
  using assms by (auto simp: subscribe_def Let_def)

theorem subscribe_false_alarm_witness:
  "\<exists>t. foldR tm_step [Set_Remappings [''/b'', ''/c''] [''/c'', ''/d''], Subscribe ''/c'' 1] chat_tm = Inr t
    \<and> map_of (subscriptions t) ''/c'' = None \<and> subscribe ''/b'' 2 t = Inl Assert_Failed"
proof -
  obtain t where t: "foldR tm_step [Set_Remappings [''/b'', ''/c''] [''/c'', ''/d''], Subscribe ''/c'' 1] chat_tm = Inr t"
    "map_of (subscriptions t) ''/c'' = None" "map_of (sub_map t) ''/c'' \<noteq> None" "remap ''/b'' t = ''/c''"
    by (simp add: chat_tm_def new_tm_def setRemappings_def refreshRemaps_def subscribe_def remap_def
        createSubscription_def regp_def Let_def)
  then show ?thesis using subscribe_false_alarm[of t "''/b''" 2] by auto
qed

end
