(* ===== verification/Master.thy ===== *)
theory Master
  imports Prelude
begin

text \<open>
  Models \<open>src/src/master.cpp\<close>: the registry of who publishes and who subscribes to what. Nodes are
  heap objects named by their address, so that \<open>set<NodeInfo*>\<close> is ordered by address; every
  pointer is followed through the heap and a pointer to nothing is an abort. The lemmas show that
  the two sides of each link (the node's topics, the topic's nodes) always agree, that the four
  services never abort, and that the master implements two sets of pairs of node and topic.
\<close>

section \<open>State\<close>

text \<open>\<open>std::set\<close> as its elements in ascending order.\<close>

definition set_insert :: "'a::linorder \<Rightarrow> 'a list \<Rightarrow> 'a list" where
  "set_insert x xs = (if x \<in> set xs then xs else insort x xs)"

definition set_erase :: "'a \<Rightarrow> 'a list \<Rightarrow> 'a list" where
  "set_erase x xs = filter (\<lambda>y. y \<noteq> x) xs"

record node_info =
  ni_uri :: string
  ni_subs :: "string list"
  ni_pubs :: "string list"

record topic_info =
  ti_subs :: "nat list"
  ti_pubs :: "nat list"

record master =
  nodes :: "(string, nat) omap"
  heap :: "(nat, node_info) omap"
  topics :: "(string, topic_info) omap"

definition new_master :: master where
  "new_master = \<lparr>nodes = [], heap = [], topics = []\<rparr>"

text \<open>\<open>topics_[topic]\<close> makes an empty entry if there is none; reading it back gives the same.\<close>

definition tinfo :: "string \<Rightarrow> master \<Rightarrow> topic_info" where
  "tinfo topic m = (case map_of (topics m) topic of Some ti \<Rightarrow> ti | None \<Rightarrow> \<lparr>ti_subs = [], ti_pubs = []\<rparr>)"

definition deref :: "nat \<Rightarrow> master \<Rightarrow> node_info res" where
  "deref a m = (case map_of (heap m) a of None \<Rightarrow> Inl Use_After_Free | Some n \<Rightarrow> Inr n)"

section \<open>Operations\<close>

text \<open>The new node is put at address \<open>a\<close>, what \<open>new\<close> returns if it is called.\<close>

definition getOrCreateNode :: "string \<Rightarrow> nat \<Rightarrow> master \<Rightarrow> nat \<times> master" where
  "getOrCreateNode uri a m =
     (case map_of (nodes m) uri of
        Some b \<Rightarrow> (b, m)
      | None \<Rightarrow> (a, m\<lparr>nodes := oput uri a (nodes m),
                      heap := oput a \<lparr>ni_uri = uri, ni_subs = [], ni_pubs = []\<rparr> (heap m)\<rparr>))"

definition ni_subscribe :: "nat \<Rightarrow> string \<Rightarrow> master \<Rightarrow> master res" where
  "ni_subscribe a topic m =
     bindR (deref a m) (\<lambda>n. Inr (m\<lparr>
       heap := oput a (n\<lparr>ni_subs := set_insert topic (ni_subs n)\<rparr>) (heap m),
       topics := oput topic ((tinfo topic m)\<lparr>ti_subs := set_insert a (ti_subs (tinfo topic m))\<rparr>) (topics m)\<rparr>))"

definition ni_unsubscribe :: "nat \<Rightarrow> string \<Rightarrow> master \<Rightarrow> master res" where
  "ni_unsubscribe a topic m =
     bindR (deref a m) (\<lambda>n. Inr (m\<lparr>
       heap := oput a (n\<lparr>ni_subs := set_erase topic (ni_subs n)\<rparr>) (heap m),
       topics := oput topic ((tinfo topic m)\<lparr>ti_subs := set_erase a (ti_subs (tinfo topic m))\<rparr>) (topics m)\<rparr>))"

definition ni_publish :: "nat \<Rightarrow> string \<Rightarrow> master \<Rightarrow> master res" where
  "ni_publish a topic m =
     bindR (deref a m) (\<lambda>n. Inr (m\<lparr>
       heap := oput a (n\<lparr>ni_pubs := set_insert topic (ni_pubs n)\<rparr>) (heap m),
       topics := oput topic ((tinfo topic m)\<lparr>ti_pubs := set_insert a (ti_pubs (tinfo topic m))\<rparr>) (topics m)\<rparr>))"

definition ni_unpublish :: "nat \<Rightarrow> string \<Rightarrow> master \<Rightarrow> master res" where
  "ni_unpublish a topic m =
     bindR (deref a m) (\<lambda>n. Inr (m\<lparr>
       heap := oput a (n\<lparr>ni_pubs := set_erase topic (ni_pubs n)\<rparr>) (heap m),
       topics := oput topic ((tinfo topic m)\<lparr>ti_pubs := set_erase a (ti_pubs (tinfo topic m))\<rparr>) (topics m)\<rparr>))"

fun uris_of :: "nat list \<Rightarrow> master \<Rightarrow> string list res" where
  "uris_of [] m = Inr []"
| "uris_of (a # as) m = bindR (deref a m) (\<lambda>n. bindR (uris_of as m) (\<lambda>us. Inr (ni_uri n # us)))"

definition lookupPublishers :: "string \<Rightarrow> master \<Rightarrow> (string list \<times> master) res" where
  "lookupPublishers topic m =
     (let m' = m\<lparr>topics := oput topic (tinfo topic m) (topics m)\<rparr>
      in bindR (uris_of (ti_pubs (tinfo topic m')) m') (\<lambda>us. Inr (us, m')))"

text \<open>\<open>printState\<close> logs the URIs behind every pointer: only its reads matter here.\<close>

definition printState :: "master \<Rightarrow> unit res" where
  "printState m =
     foldR (\<lambda>(topic, ti) _. bindR (uris_of (ti_subs ti) m) (\<lambda>_. bindR (uris_of (ti_pubs ti) m) (\<lambda>_. Inr ())))
       (topics m) ()"

definition registerSubscription :: "string \<Rightarrow> string \<Rightarrow> nat \<Rightarrow> master \<Rightarrow> (string list \<times> master) res" where
  "registerSubscription topic uri a m =
     (let (b, m1) = getOrCreateNode uri a m
      in bindR (ni_subscribe b topic m1) (\<lambda>m2.
         bindR (lookupPublishers topic m2) (\<lambda>(us, m3).
         bindR (printState m3) (\<lambda>_. Inr (us, m3)))))"

definition master_unregisterSubscription :: "string \<Rightarrow> string \<Rightarrow> nat \<Rightarrow> master \<Rightarrow> master res" where
  "master_unregisterSubscription topic uri a m =
     (let (b, m1) = getOrCreateNode uri a m
      in bindR (ni_unsubscribe b topic m1) (\<lambda>m2. bindR (printState m2) (\<lambda>_. Inr m2)))"

definition master_registerPublication :: "string \<Rightarrow> string \<Rightarrow> nat \<Rightarrow> master \<Rightarrow> master res" where
  "master_registerPublication topic uri a m =
     (let (b, m1) = getOrCreateNode uri a m
      in bindR (ni_publish b topic m1) (\<lambda>m2. bindR (printState m2) (\<lambda>_. Inr m2)))"

definition master_unregisterPublication :: "string \<Rightarrow> string \<Rightarrow> nat \<Rightarrow> master \<Rightarrow> master res" where
  "master_unregisterPublication topic uri a m =
     (let (b, m1) = getOrCreateNode uri a m
      in bindR (ni_unpublish b topic m1) (\<lambda>m2. bindR (printState m2) (\<lambda>_. Inr m2)))"

text \<open>
  The destructor of a node unsubscribes while it walks over the very set it erases from: with a
  first element, the iterator is advanced after that element was erased.
\<close>

definition delete_node :: "nat \<Rightarrow> master \<Rightarrow> master res" where
  "delete_node a m =
     bindR (deref a m) (\<lambda>n.
       ensure (ni_subs n = [] \<and> ni_pubs n = []) Use_After_Free
         (Inr (m\<lparr>heap := odel a (heap m)\<rparr>)))"

definition delete_master :: "master \<Rightarrow> master res" where
  "delete_master m = foldR delete_node (map snd (nodes m)) m"

section \<open>Invariant\<close>

definition master_inv :: "master \<Rightarrow> bool" where
  "master_inv m \<longleftrightarrow> omap_ok (topics m) \<and> omap_ok (nodes m)
     \<and> (\<forall>uri a. map_of (nodes m) uri = Some a \<longleftrightarrow>
          (\<exists>n. map_of (heap m) a = Some n \<and> ni_uri n = uri))
     \<and> (\<forall>topic a. a \<in> set (ti_subs (tinfo topic m)) \<longleftrightarrow>
          (\<exists>n. map_of (heap m) a = Some n \<and> topic \<in> set (ni_subs n)))
     \<and> (\<forall>topic a. a \<in> set (ti_pubs (tinfo topic m)) \<longleftrightarrow>
          (\<exists>n. map_of (heap m) a = Some n \<and> topic \<in> set (ni_pubs n)))
     \<and> (\<forall>topic. distinct (ti_subs (tinfo topic m)) \<and> distinct (ti_pubs (tinfo topic m)))"

text \<open>The specification: who subscribes and who publishes, as pairs of node URI and topic.\<close>

definition sub_rel :: "master \<Rightarrow> (string \<times> string) set" where
  "sub_rel m = {(ni_uri n, topic) |a n topic. map_of (heap m) a = Some n \<and> topic \<in> set (ni_subs n)}"

definition pub_rel :: "master \<Rightarrow> (string \<times> string) set" where
  "pub_rel m = {(ni_uri n, topic) |a n topic. map_of (heap m) a = Some n \<and> topic \<in> set (ni_pubs n)}"

lemma set_set_insert [simp]: "set (set_insert x xs) = insert x (set xs)"
  by (auto simp: set_insert_def set_insort_key)

lemma set_set_erase [simp]: "set (set_erase x xs) = set xs - {x}"
  by (auto simp: set_erase_def)

lemma distinct_set_ops [simp]:
  "distinct xs \<Longrightarrow> distinct (set_insert x xs)" "distinct xs \<Longrightarrow> distinct (set_erase x xs)"
  by (simp_all add: set_insert_def set_erase_def distinct_insort)

lemma tinfo_oput: "tinfo u (m\<lparr>heap := h, topics := oput topic ti (topics m)\<rparr>) = (if u = topic then ti else tinfo u m)"
  by (simp add: tinfo_def omap_simps)

lemma tinfo_default [simp]:
  "tinfo u (m\<lparr>topics := oput topic (tinfo topic m) (topics m)\<rparr>) = tinfo u m"
  by (simp add: tinfo_def omap_simps)

lemma getOrCreateNode_result:
  assumes inv: "master_inv m" and fresh: "map_of (heap m) a = None"
  shows "\<exists>b m'. getOrCreateNode uri a m = (b, m') \<and> master_inv m'
    \<and> (\<exists>n. map_of (heap m') b = Some n \<and> ni_uri n = uri)
    \<and> sub_rel m' = sub_rel m \<and> pub_rel m' = pub_rel m
    \<and> (\<forall>c. map_of (heap m') c \<noteq> None \<longrightarrow> c = a \<or> map_of (heap m) c \<noteq> None)"
proof (cases "map_of (nodes m) uri")
  case (Some b)
  then have "\<exists>n. map_of (heap m) b = Some n \<and> ni_uri n = uri"
    using inv unfolding master_inv_def by blast
  then show ?thesis using inv Some by (intro exI[of _ b] exI[of _ m]) (simp add: getOrCreateNode_def)
next
  case None
  define m' where "m' = m\<lparr>nodes := oput uri a (nodes m),
      heap := oput a \<lparr>ni_uri = uri, ni_subs = [], ni_pubs = []\<rparr> (heap m)\<rparr>"
  have t: "tinfo topic m' = tinfo topic m" for topic by (simp add: m'_def tinfo_def)
  have "\<not> (\<exists>c n. map_of (heap m) c = Some n \<and> ni_uri n = uri)"
    using inv None unfolding master_inv_def by (metis option.distinct(1))
  then have "master_inv m'"
    using inv fresh None unfolding master_inv_def t by (auto simp: m'_def omap_simps)
  moreover have "sub_rel m' = sub_rel m" "pub_rel m' = pub_rel m"
    using fresh by (auto simp: sub_rel_def pub_rel_def m'_def omap_simps split: if_splits) (metis option.distinct(1))+
  moreover have "getOrCreateNode uri a m = (a, m')" using None by (simp add: getOrCreateNode_def m'_def)
  moreover have "map_of (heap m') a = Some \<lparr>ni_uri = uri, ni_subs = [], ni_pubs = []\<rparr>"
    by (simp add: m'_def omap_simps)
  moreover have "c = a \<or> map_of (heap m) c \<noteq> None" if "map_of (heap m') c \<noteq> None" for c
    using that by (auto simp: m'_def omap_simps split: if_splits)
  ultimately show ?thesis by auto
qed


definition node_rel :: "(node_info \<Rightarrow> string list) \<Rightarrow> (nat \<rightharpoonup> node_info) \<Rightarrow> (string \<times> string) set" where
  "node_rel get h = {(ni_uri n, topic) |a n topic. h a = Some n \<and> topic \<in> set (get n)}"

lemma rel_node_rel: "sub_rel m = node_rel ni_subs (map_of (heap m))" "pub_rel m = node_rel ni_pubs (map_of (heap m))"
  by (simp_all add: sub_rel_def pub_rel_def node_rel_def)

lemma in_node_rel:
  "x \<in> node_rel get h \<longleftrightarrow> (\<exists>a n. h a = Some n \<and> ni_uri n = fst x \<and> snd x \<in> set (get n))"
  by (cases x) (auto simp: node_rel_def)

lemma node_rel_at:
  assumes "h a = Some n"
  shows "x \<in> node_rel get h \<longleftrightarrow> (ni_uri n = fst x \<and> snd x \<in> set (get n))
    \<or> (\<exists>c k. c \<noteq> a \<and> h c = Some k \<and> ni_uri k = fst x \<and> snd x \<in> set (get k))"
  unfolding in_node_rel using assms by (metis option.inject)

lemma node_rel_upd:
  assumes n: "h a = Some n" and uniq: "\<And>c k. h c = Some k \<Longrightarrow> ni_uri k = ni_uri n \<Longrightarrow> c = a"
    and new: "ni_uri n' = ni_uri n"
      "set (get n') = (if b then insert topic (set (get n)) else set (get n) - {topic})"
  shows "node_rel get (h(a \<mapsto> n'))
    = (if b then insert (ni_uri n, topic) (node_rel get h) else node_rel get h - {(ni_uri n, topic)})"
proof (rule set_eqI)
  fix x
  have at: "(h(a \<mapsto> n')) a = Some n'" by simp
  have rest: "(\<exists>c k. c \<noteq> a \<and> (h(a \<mapsto> n')) c = Some k \<and> ni_uri k = fst x \<and> snd x \<in> set (get k))
    \<longleftrightarrow> (\<exists>c k. c \<noteq> a \<and> h c = Some k \<and> ni_uri k = fst x \<and> snd x \<in> set (get k))"
    by auto
  have none: "\<not> (\<exists>c k. c \<noteq> a \<and> h c = Some k \<and> ni_uri k = fst x \<and> snd x \<in> set (get k))"
    if "fst x = ni_uri n" using uniq that by metis
  have x: "x = (ni_uri n, topic) \<longleftrightarrow> fst x = ni_uri n \<and> snd x = topic" by (cases x) auto
  show "x \<in> node_rel get (h(a \<mapsto> n')) \<longleftrightarrow> x \<in> (if b then insert (ni_uri n, topic) (node_rel get h)
      else node_rel get h - {(ni_uri n, topic)})"
  proof (cases "fst x = ni_uri n")
    case True
    have l: "x \<in> node_rel get (h(a \<mapsto> n')) \<longleftrightarrow> snd x \<in> set (get n')"
      unfolding node_rel_at[where h = "h(a \<mapsto> n')" and a = a and n = n', OF at] rest using none[OF True] True new(1) by metis
    have r: "x \<in> node_rel get h \<longleftrightarrow> snd x \<in> set (get n)"
      unfolding node_rel_at[where h = h and a = a and n = n, OF n] using none[OF True] True by metis
    show ?thesis using x True by (simp add: l r new(2))
  next
    case False
    have l: "x \<in> node_rel get (h(a \<mapsto> n')) \<longleftrightarrow> x \<in> node_rel get h"
      unfolding node_rel_at[where h = "h(a \<mapsto> n')" and a = a and n = n', OF at] node_rel_at[where h = h and a = a and n = n, OF n] rest using False new(1) by simp
    show ?thesis using x False by (simp add: l)
  qed
qed

lemma node_rel_same:
  assumes "h a = Some n" and "ni_uri n' = ni_uri n" and "get n' = get n"
  shows "node_rel get (h(a \<mapsto> n')) = node_rel get h"
proof (rule set_eqI)
  fix x
  have at: "(h(a \<mapsto> n')) a = Some n'" by simp
  show "x \<in> node_rel get (h(a \<mapsto> n')) \<longleftrightarrow> x \<in> node_rel get h"
    unfolding node_rel_at[where h = "h(a \<mapsto> n')" and a = a and n = n', OF at] node_rel_at[where h = h and a = a and n = n, OF assms(1)]
    using assms(2,3) by auto
qed

text \<open>Both directions of a link change together.\<close>

lemma change_subs:
  assumes inv: "master_inv m" and n: "map_of (heap m) a = Some n"
    and sets: "set S = (if b then insert topic (set (ni_subs n)) else set (ni_subs n) - {topic})"
      "set A = (if b then insert a (set (ti_subs (tinfo topic m))) else set (ti_subs (tinfo topic m)) - {a})"
      "distinct A"
    and m': "m' = m\<lparr>heap := oput a (n\<lparr>ni_subs := S\<rparr>) (heap m),
       topics := oput topic ((tinfo topic m)\<lparr>ti_subs := A\<rparr>) (topics m)\<rparr>"
  shows "master_inv m'" "pub_rel m' = pub_rel m"
    "sub_rel m' = (if b then insert (ni_uri n, topic) (sub_rel m) else sub_rel m - {(ni_uri n, topic)})"
    "map_of (heap m') c = None \<longleftrightarrow> map_of (heap m) c = None"
proof -
  have h: "map_of (heap m') = (map_of (heap m))(a \<mapsto> n\<lparr>ni_subs := S\<rparr>)" by (simp add: m' omap_simps)
  have t: "tinfo u m' = (if u = topic then (tinfo topic m)\<lparr>ti_subs := A\<rparr> else tinfo u m)" for u
    unfolding m' by (rule tinfo_oput)
  have i: "omap_ok (topics m)"
    "\<And>uri c. map_of (nodes m) uri = Some c \<longleftrightarrow> (\<exists>n. map_of (heap m) c = Some n \<and> ni_uri n = uri)"
    "\<And>u c. c \<in> set (ti_subs (tinfo u m)) \<longleftrightarrow> (\<exists>n. map_of (heap m) c = Some n \<and> u \<in> set (ni_subs n))"
    "\<And>u c. c \<in> set (ti_pubs (tinfo u m)) \<longleftrightarrow> (\<exists>n. map_of (heap m) c = Some n \<and> u \<in> set (ni_pubs n))"
    "\<And>u. distinct (ti_subs (tinfo u m)) \<and> distinct (ti_pubs (tinfo u m))"
    using inv unfolding master_inv_def by blast+
  have ok: "omap_ok (nodes m)" using inv by (simp add: master_inv_def)
  have uniq: "c = a" if "map_of (heap m) c = Some n'" "ni_uri n' = ni_uri n" for c n'
    using i(2) that n by (metis option.inject)
  show "master_inv m'" unfolding master_inv_def
  proof (intro conjI allI)
    show "omap_ok (topics m')" "omap_ok (nodes m')" using i(1) ok by (auto simp: m')
    have nodes: "nodes m' = nodes m" by (simp add: m')
    show "map_of (nodes m') uri = Some c \<longleftrightarrow> (\<exists>n. map_of (heap m') c = Some n \<and> ni_uri n = uri)" for uri c
      unfolding nodes i(2) h using n by (cases "c = a") simp_all
    show "c \<in> set (ti_subs (tinfo u m')) \<longleftrightarrow> (\<exists>n. map_of (heap m') c = Some n \<and> u \<in> set (ni_subs n))" for u c
      using i(3)[of c u] i(3)[of c topic] n sets(1,2)
      by (cases "c = a"; cases "u = topic"; cases b) (simp_all add: h t)
    show "c \<in> set (ti_pubs (tinfo u m')) \<longleftrightarrow> (\<exists>n. map_of (heap m') c = Some n \<and> u \<in> set (ni_pubs n))" for u c
      using i(4)[of c u] n by (cases "c = a"; cases "u = topic") (simp_all add: h t)
    show "distinct (ti_subs (tinfo u m'))" "distinct (ti_pubs (tinfo u m'))" for u
      using i(5)[of u] i(5)[of topic] sets(3) by (auto simp: t)
  qed
  show "pub_rel m' = pub_rel m"
    unfolding rel_node_rel h by (rule node_rel_same[where h = "map_of (heap m)" and a = a and n = n, OF n]) simp_all
  show "sub_rel m' = (if b then insert (ni_uri n, topic) (sub_rel m) else sub_rel m - {(ni_uri n, topic)})"
    unfolding rel_node_rel h by (rule node_rel_upd[where h = "map_of (heap m)" and a = a and n = n];
      (rule n | (erule uniq, assumption) | simp add: sets(1)))
  show "map_of (heap m') c = None \<longleftrightarrow> map_of (heap m) c = None" using n by (simp add: h)
qed

lemma change_pubs:
  assumes inv: "master_inv m" and n: "map_of (heap m) a = Some n"
    and sets: "set S = (if b then insert topic (set (ni_pubs n)) else set (ni_pubs n) - {topic})"
      "set A = (if b then insert a (set (ti_pubs (tinfo topic m))) else set (ti_pubs (tinfo topic m)) - {a})"
      "distinct A"
    and m': "m' = m\<lparr>heap := oput a (n\<lparr>ni_pubs := S\<rparr>) (heap m),
       topics := oput topic ((tinfo topic m)\<lparr>ti_pubs := A\<rparr>) (topics m)\<rparr>"
  shows "master_inv m'" "sub_rel m' = sub_rel m"
    "pub_rel m' = (if b then insert (ni_uri n, topic) (pub_rel m) else pub_rel m - {(ni_uri n, topic)})"
    "map_of (heap m') c = None \<longleftrightarrow> map_of (heap m) c = None"
proof -
  have h: "map_of (heap m') = (map_of (heap m))(a \<mapsto> n\<lparr>ni_pubs := S\<rparr>)" by (simp add: m' omap_simps)
  have t: "tinfo u m' = (if u = topic then (tinfo topic m)\<lparr>ti_pubs := A\<rparr> else tinfo u m)" for u
    unfolding m' by (rule tinfo_oput)
  have i: "omap_ok (topics m)"
    "\<And>uri c. map_of (nodes m) uri = Some c \<longleftrightarrow> (\<exists>n. map_of (heap m) c = Some n \<and> ni_uri n = uri)"
    "\<And>u c. c \<in> set (ti_subs (tinfo u m)) \<longleftrightarrow> (\<exists>n. map_of (heap m) c = Some n \<and> u \<in> set (ni_subs n))"
    "\<And>u c. c \<in> set (ti_pubs (tinfo u m)) \<longleftrightarrow> (\<exists>n. map_of (heap m) c = Some n \<and> u \<in> set (ni_pubs n))"
    "\<And>u. distinct (ti_subs (tinfo u m)) \<and> distinct (ti_pubs (tinfo u m))"
    using inv unfolding master_inv_def by blast+
  have ok: "omap_ok (nodes m)" using inv by (simp add: master_inv_def)
  have uniq: "c = a" if "map_of (heap m) c = Some n'" "ni_uri n' = ni_uri n" for c n'
    using i(2) that n by (metis option.inject)
  show "master_inv m'" unfolding master_inv_def
  proof (intro conjI allI)
    show "omap_ok (topics m')" "omap_ok (nodes m')" using i(1) ok by (auto simp: m')
    have nodes: "nodes m' = nodes m" by (simp add: m')
    show "map_of (nodes m') uri = Some c \<longleftrightarrow> (\<exists>n. map_of (heap m') c = Some n \<and> ni_uri n = uri)" for uri c
      unfolding nodes i(2) h using n by (cases "c = a") simp_all
    show "c \<in> set (ti_subs (tinfo u m')) \<longleftrightarrow> (\<exists>n. map_of (heap m') c = Some n \<and> u \<in> set (ni_subs n))" for u c
      using i(3)[of c u] n by (cases "c = a"; cases "u = topic") (simp_all add: h t)
    show "c \<in> set (ti_pubs (tinfo u m')) \<longleftrightarrow> (\<exists>n. map_of (heap m') c = Some n \<and> u \<in> set (ni_pubs n))" for u c
      using i(4)[of c u] i(4)[of c topic] n sets(1,2)
      by (cases "c = a"; cases "u = topic"; cases b) (simp_all add: h t)
    show "distinct (ti_subs (tinfo u m'))" "distinct (ti_pubs (tinfo u m'))" for u
      using i(5)[of u] i(5)[of topic] sets(3) by (auto simp: t)
  qed
  show "sub_rel m' = sub_rel m"
    unfolding rel_node_rel h by (rule node_rel_same[where h = "map_of (heap m)" and a = a and n = n, OF n]) simp_all
  show "pub_rel m' = (if b then insert (ni_uri n, topic) (pub_rel m) else pub_rel m - {(ni_uri n, topic)})"
    unfolding rel_node_rel h by (rule node_rel_upd[where h = "map_of (heap m)" and a = a and n = n];
      (rule n | (erule uniq, assumption) | simp add: sets(1)))
  show "map_of (heap m') c = None \<longleftrightarrow> map_of (heap m) c = None" using n by (simp add: h)
qed

lemma uris_of_result:
  "\<forall>a \<in> set as. map_of (heap m) a \<noteq> None \<Longrightarrow> uris_of as m = Inr (map (\<lambda>a. ni_uri (the (map_of (heap m) a))) as)"
  by (induction as) (auto simp: deref_def)

lemma inv_pointers:
  assumes "master_inv m" and "a \<in> set (ti_subs (tinfo topic m)) \<or> a \<in> set (ti_pubs (tinfo topic m))"
  shows "map_of (heap m) a \<noteq> None"
  using assms unfolding master_inv_def by (metis option.distinct(1))

lemma printState_returns:
  assumes inv: "master_inv m"
  shows "printState m = Inr ()"
proof -
  have ok: "omap_ok (topics m)" using inv by (simp add: master_inv_def)
  have "foldR (\<lambda>(topic, ti) _. bindR (uris_of (ti_subs ti) m) (\<lambda>_. bindR (uris_of (ti_pubs ti) m) (\<lambda>_. Inr ())))
       ts () = Inr ()" if "set ts \<subseteq> set (topics m)" for ts
    using that
  proof (induction ts)
    case (Cons e ts)
    obtain topic ti where e: "e = (topic, ti)" by fastforce
    then have "map_of (topics m) topic = Some ti" using Cons.prems ok by (simp add: omap_ok_map_of)
    then have "tinfo topic m = ti" by (simp add: tinfo_def)
    then have "\<forall>a \<in> set (ti_subs ti). map_of (heap m) a \<noteq> None" "\<forall>a \<in> set (ti_pubs ti). map_of (heap m) a \<noteq> None"
      using inv_pointers[OF inv, of _ topic] by simp_all
    then show ?case using Cons e by (simp add: uris_of_result)
  qed simp
  then show ?thesis by (simp add: printState_def)
qed

lemma lookupPublishers_result:
  assumes inv: "master_inv m"
  shows "\<exists>us m'. lookupPublishers topic m = Inr (us, m') \<and> master_inv m' \<and> heap m' = heap m
    \<and> set us = {uri. (uri, topic) \<in> pub_rel m} \<and> distinct us"
proof -
  let ?m = "m\<lparr>topics := oput topic (tinfo topic m) (topics m)\<rparr>"
  let ?as = "ti_pubs (tinfo topic m)"
  let ?us = "map (\<lambda>a. ni_uri (the (map_of (heap m) a))) ?as"
  have t: "tinfo u ?m = tinfo u m" for u by simp
  have inv': "master_inv ?m"
    using inv unfolding master_inv_def t by auto
  have "\<forall>a \<in> set ?as. map_of (heap ?m) a \<noteq> None" using inv_pointers[OF inv, of _ topic] by auto
  then have "lookupPublishers topic m = Inr (?us, ?m)"
    using uris_of_result[of ?as ?m] by (simp add: lookupPublishers_def Let_def)
  moreover have "set ?us = {uri. (uri, topic) \<in> pub_rel m}"
  proof -
    have "a \<in> set ?as \<longleftrightarrow> (\<exists>n. map_of (heap m) a = Some n \<and> topic \<in> set (ni_pubs n))" for a
      using inv by (simp add: master_inv_def)
    then show ?thesis by (force simp: pub_rel_def image_iff)
  qed
  moreover have "distinct ?us"
  proof -
    have "inj_on (\<lambda>a. ni_uri (the (map_of (heap m) a))) (set ?as)"
    proof (rule inj_onI)
      fix a b
      assume ab: "a \<in> set ?as" "b \<in> set ?as" "ni_uri (the (map_of (heap m) a)) = ni_uri (the (map_of (heap m) b))"
      then obtain n k where "map_of (heap m) a = Some n" "map_of (heap m) b = Some k"
        using inv_pointers[OF inv] by blast
      then show "a = b" using ab(3) inv unfolding master_inv_def by (metis option.inject option.sel)
    qed
    then show ?thesis using inv by (simp add: distinct_map master_inv_def)
  qed
  ultimately show ?thesis using inv' by (intro exI[of _ ?us] exI[of _ ?m]) simp
qed

section \<open>The four services\<close>

lemma registerSubscription_result:
  assumes inv: "master_inv m" and fresh: "map_of (heap m) a = None"
  shows "\<exists>us m'. registerSubscription topic uri a m = Inr (us, m') \<and> master_inv m'
    \<and> sub_rel m' = insert (uri, topic) (sub_rel m) \<and> pub_rel m' = pub_rel m
    \<and> set us = {u. (u, topic) \<in> pub_rel m} \<and> distinct us
    \<and> (\<forall>c. map_of (heap m') c \<noteq> None \<longrightarrow> c = a \<or> map_of (heap m) c \<noteq> None)"
proof -
  obtain b m1 n where m1: "getOrCreateNode uri a m = (b, m1)" "master_inv m1"
    "map_of (heap m1) b = Some n" "ni_uri n = uri" "sub_rel m1 = sub_rel m" "pub_rel m1 = pub_rel m"
    "\<forall>c. map_of (heap m1) c \<noteq> None \<longrightarrow> c = a \<or> map_of (heap m) c \<noteq> None"
    using getOrCreateNode_result[OF inv fresh, of uri] by blast
  define m2 where "m2 = m1\<lparr>heap := oput b (n\<lparr>ni_subs := set_insert topic (ni_subs n)\<rparr>) (heap m1),
    topics := oput topic ((tinfo topic m1)\<lparr>ti_subs := set_insert b (ti_subs (tinfo topic m1))\<rparr>) (topics m1)\<rparr>"
  have m2_eq: "ni_subscribe b topic m1 = Inr m2" by (simp add: ni_subscribe_def deref_def m1(3) m2_def)
  have d: "distinct (set_insert b (ti_subs (tinfo topic m1)))" using m1(2) by (simp add: master_inv_def)
  note m2 = change_subs[OF m1(2,3) _ _ d m2_def, where b = True, simplified]
  obtain us m3 where m3: "lookupPublishers topic m2 = Inr (us, m3)" "master_inv m3" "heap m3 = heap m2"
    "set us = {u. (u, topic) \<in> pub_rel m2}" "distinct us"
    using lookupPublishers_result[OF m2(1)] by blast
  have rel: "sub_rel m3 = sub_rel m2" "pub_rel m3 = pub_rel m2" by (simp_all add: sub_rel_def pub_rel_def m3(3))
  show ?thesis
  proof (intro exI conjI)
    show "registerSubscription topic uri a m = Inr (us, m3)"
      by (simp add: registerSubscription_def m1(1) m2_eq m3(1) printState_returns[OF m3(2)])
  qed (use m1 m2 m3 rel in simp_all)
qed

text \<open>The other three only differ in the set they change.\<close>

lemma other_services_result:
  assumes inv: "master_inv m" and fresh: "map_of (heap m) a = None"
  shows "\<exists>m'. master_unregisterSubscription topic uri a m = Inr m' \<and> master_inv m'
    \<and> sub_rel m' = sub_rel m - {(uri, topic)} \<and> pub_rel m' = pub_rel m
    \<and> (\<forall>c. map_of (heap m') c \<noteq> None \<longrightarrow> c = a \<or> map_of (heap m) c \<noteq> None)"
    and "\<exists>m'. master_registerPublication topic uri a m = Inr m' \<and> master_inv m'
    \<and> sub_rel m' = sub_rel m \<and> pub_rel m' = insert (uri, topic) (pub_rel m)
    \<and> (\<forall>c. map_of (heap m') c \<noteq> None \<longrightarrow> c = a \<or> map_of (heap m) c \<noteq> None)"
    and "\<exists>m'. master_unregisterPublication topic uri a m = Inr m' \<and> master_inv m'
    \<and> sub_rel m' = sub_rel m \<and> pub_rel m' = pub_rel m - {(uri, topic)}
    \<and> (\<forall>c. map_of (heap m') c \<noteq> None \<longrightarrow> c = a \<or> map_of (heap m) c \<noteq> None)"
proof -
  obtain b m1 n where m1: "getOrCreateNode uri a m = (b, m1)" "master_inv m1"
    "map_of (heap m1) b = Some n" "ni_uri n = uri" "sub_rel m1 = sub_rel m" "pub_rel m1 = pub_rel m"
    "\<forall>c. map_of (heap m1) c \<noteq> None \<longrightarrow> c = a \<or> map_of (heap m) c \<noteq> None"
    using getOrCreateNode_result[OF inv fresh, of uri] by blast
  have d: "distinct (ti_subs (tinfo topic m1))" "distinct (ti_pubs (tinfo topic m1))"
    using m1(2) by (simp_all add: master_inv_def)
  define u where "u = m1\<lparr>heap := oput b (n\<lparr>ni_subs := set_erase topic (ni_subs n)\<rparr>) (heap m1),
    topics := oput topic ((tinfo topic m1)\<lparr>ti_subs := set_erase b (ti_subs (tinfo topic m1))\<rparr>) (topics m1)\<rparr>"
  note us = change_subs[OF m1(2,3) _ _ _ u_def, where b = False, simplified, OF distinct_set_ops(2)[OF d(1)]]
  have "ni_unsubscribe b topic m1 = Inr u" by (simp add: ni_unsubscribe_def deref_def m1(3) u_def)
  then have "master_unregisterSubscription topic uri a m = Inr u"
    by (simp add: master_unregisterSubscription_def m1(1) printState_returns[OF us(1)])
  then show "\<exists>m'. master_unregisterSubscription topic uri a m = Inr m' \<and> master_inv m'
    \<and> sub_rel m' = sub_rel m - {(uri, topic)} \<and> pub_rel m' = pub_rel m
    \<and> (\<forall>c. map_of (heap m') c \<noteq> None \<longrightarrow> c = a \<or> map_of (heap m) c \<noteq> None)"
    using us m1(4-7) by (intro exI[of _ u]) simp
  define p where "p = m1\<lparr>heap := oput b (n\<lparr>ni_pubs := set_insert topic (ni_pubs n)\<rparr>) (heap m1),
    topics := oput topic ((tinfo topic m1)\<lparr>ti_pubs := set_insert b (ti_pubs (tinfo topic m1))\<rparr>) (topics m1)\<rparr>"
  note ps = change_pubs[OF m1(2,3) _ _ _ p_def, where b = True, simplified, OF distinct_set_ops(1)[OF d(2)]]
  have "ni_publish b topic m1 = Inr p" by (simp add: ni_publish_def deref_def m1(3) p_def)
  then have "master_registerPublication topic uri a m = Inr p"
    by (simp add: master_registerPublication_def m1(1) printState_returns[OF ps(1)])
  then show "\<exists>m'. master_registerPublication topic uri a m = Inr m' \<and> master_inv m'
    \<and> sub_rel m' = sub_rel m \<and> pub_rel m' = insert (uri, topic) (pub_rel m)
    \<and> (\<forall>c. map_of (heap m') c \<noteq> None \<longrightarrow> c = a \<or> map_of (heap m) c \<noteq> None)"
    using ps m1(4-7) by (intro exI[of _ p]) simp
  define q where "q = m1\<lparr>heap := oput b (n\<lparr>ni_pubs := set_erase topic (ni_pubs n)\<rparr>) (heap m1),
    topics := oput topic ((tinfo topic m1)\<lparr>ti_pubs := set_erase b (ti_pubs (tinfo topic m1))\<rparr>) (topics m1)\<rparr>"
  note qs = change_pubs[OF m1(2,3) _ _ _ q_def, where b = False, simplified, OF distinct_set_ops(2)[OF d(2)]]
  have "ni_unpublish b topic m1 = Inr q" by (simp add: ni_unpublish_def deref_def m1(3) q_def)
  then have "master_unregisterPublication topic uri a m = Inr q"
    by (simp add: master_unregisterPublication_def m1(1) printState_returns[OF qs(1)])
  then show "\<exists>m'. master_unregisterPublication topic uri a m = Inr m' \<and> master_inv m'
    \<and> sub_rel m' = sub_rel m \<and> pub_rel m' = pub_rel m - {(uri, topic)}
    \<and> (\<forall>c. map_of (heap m') c \<noteq> None \<longrightarrow> c = a \<or> map_of (heap m) c \<noteq> None)"
    using qs m1(4-7) by (intro exI[of _ q]) simp
qed

section \<open>Runs of the master\<close>

text \<open>
  A request as a service delivers it, with the address the allocator would return for a new node.
  Nodes are only freed by the destructor of the master, so a run is given distinct addresses.
\<close>

datatype master_request =
    Register_Subscription (req_topic: string) (req_uri: string) (req_addr: nat)
  | Unregister_Subscription (req_topic: string) (req_uri: string) (req_addr: nat)
  | Register_Publication (req_topic: string) (req_uri: string) (req_addr: nat)
  | Unregister_Publication (req_topic: string) (req_uri: string) (req_addr: nat)

fun master_handle :: "master_request \<Rightarrow> master \<Rightarrow> (string list \<times> master) res" where
  "master_handle (Register_Subscription topic uri a) m = registerSubscription topic uri a m"
| "master_handle (Unregister_Subscription topic uri a) m =
     bindR (master_unregisterSubscription topic uri a m) (\<lambda>m'. Inr ([], m'))"
| "master_handle (Register_Publication topic uri a) m =
     bindR (master_registerPublication topic uri a m) (\<lambda>m'. Inr ([], m'))"
| "master_handle (Unregister_Publication topic uri a) m =
     bindR (master_unregisterPublication topic uri a m) (\<lambda>m'. Inr ([], m'))"

fun master_run :: "master_request list \<Rightarrow> master \<Rightarrow> (string list list \<times> master) res" where
  "master_run [] m = Inr ([], m)"
| "master_run (r # rs) m = bindR (master_handle r m) (\<lambda>(us, m').
     bindR (master_run rs m') (\<lambda>(uss, m''). Inr (us # uss, m'')))"

text \<open>The specification keeps two relations; the answer of a subscription is a set of URIs.\<close>

type_synonym registry = "(string \<times> string) set \<times> (string \<times> string) set"

fun spec_handle :: "master_request \<Rightarrow> registry \<Rightarrow> registry" where
  "spec_handle (Register_Subscription topic uri a) (S, P) = (insert (uri, topic) S, P)"
| "spec_handle (Unregister_Subscription topic uri a) (S, P) = (S - {(uri, topic)}, P)"
| "spec_handle (Register_Publication topic uri a) (S, P) = (S, insert (uri, topic) P)"
| "spec_handle (Unregister_Publication topic uri a) (S, P) = (S, P - {(uri, topic)})"

fun spec_answer :: "master_request \<Rightarrow> registry \<Rightarrow> string set" where
  "spec_answer (Register_Subscription topic uri a) (S, P) = {u. (u, topic) \<in> P}"
| "spec_answer _ _ = {}"

fun spec_answers :: "master_request list \<Rightarrow> registry \<Rightarrow> string set list" where
  "spec_answers [] R = []"
| "spec_answers (r # rs) R = spec_answer r R # spec_answers rs (spec_handle r R)"

lemma master_handle_refines:
  assumes "master_inv m" and "map_of (heap m) (req_addr r) = None"
  shows "\<exists>us m'. master_handle r m = Inr (us, m') \<and> master_inv m'
    \<and> (sub_rel m', pub_rel m') = spec_handle r (sub_rel m, pub_rel m)
    \<and> set us = spec_answer r (sub_rel m, pub_rel m) \<and> distinct us
    \<and> (\<forall>c. map_of (heap m') c \<noteq> None \<longrightarrow> c = req_addr r \<or> map_of (heap m) c \<noteq> None)"
proof (cases r)
  case (Register_Subscription topic uri a)
  then show ?thesis using registerSubscription_result[OF assms(1), of a topic uri] assms(2) by fastforce
next
  case (Unregister_Subscription topic uri a)
  then show ?thesis using other_services_result(1)[OF assms(1), of a topic uri] assms(2) by fastforce
next
  case (Register_Publication topic uri a)
  then show ?thesis using other_services_result(2)[OF assms(1), of a topic uri] assms(2) by fastforce
next
  case (Unregister_Publication topic uri a)
  then show ?thesis using other_services_result(3)[OF assms(1), of a topic uri] assms(2) by fastforce
qed

lemma master_run_refines:
  assumes "master_inv m" and "distinct (map req_addr rs)"
    and "\<forall>r \<in> set rs. map_of (heap m) (req_addr r) = None"
  shows "\<exists>uss m'. master_run rs m = Inr (uss, m') \<and> master_inv m'
    \<and> (sub_rel m', pub_rel m') = fold spec_handle rs (sub_rel m, pub_rel m)
    \<and> map set uss = spec_answers rs (sub_rel m, pub_rel m) \<and> list_all distinct uss"
  using assms
proof (induction rs arbitrary: m)
  case (Cons r rs)
  then obtain us m1 where m1: "master_handle r m = Inr (us, m1)" "master_inv m1"
    "(sub_rel m1, pub_rel m1) = spec_handle r (sub_rel m, pub_rel m)"
    "set us = spec_answer r (sub_rel m, pub_rel m)" "distinct us"
    "\<forall>c. map_of (heap m1) c \<noteq> None \<longrightarrow> c = req_addr r \<or> map_of (heap m) c \<noteq> None"
    using master_handle_refines[of m r] by auto
  have "\<forall>q \<in> set rs. map_of (heap m1) (req_addr q) = None"
  proof
    fix q
    assume q: "q \<in> set rs"
    then have "req_addr q \<noteq> req_addr r" "map_of (heap m) (req_addr q) = None"
      using Cons.prems by (force simp: image_iff)+
    then show "map_of (heap m1) (req_addr q) = None" using m1(6) by blast
  qed
  then obtain uss m2 where "master_run rs m1 = Inr (uss, m2)" "master_inv m2"
    "(sub_rel m2, pub_rel m2) = fold spec_handle rs (sub_rel m1, pub_rel m1)"
    "map set uss = spec_answers rs (sub_rel m1, pub_rel m1)" "list_all distinct uss"
    using Cons.IH[OF m1(2)] Cons.prems(2) by auto
  then show ?case using m1 by auto
qed simp

lemma new_master_ok:
  "master_inv new_master" "sub_rel new_master = {}" "pub_rel new_master = {}" "map_of (heap new_master) a = None"
  by (simp_all add: master_inv_def new_master_def tinfo_def sub_rel_def pub_rel_def)

text \<open>
  C8: From an empty master, any sequence of the four services returns (no pointer dangles), and
  the master is its specification: the pairs of node and topic it holds are those the two
  relations hold after the same requests, and each registerSubscription answers with exactly the
  publishers registered for the topic at that moment, each once.
\<close>
theorem master_refines:
  assumes "distinct (map req_addr rs)"
  shows "\<exists>uss m. master_run rs new_master = Inr (uss, m)
    \<and> (sub_rel m, pub_rel m) = fold spec_handle rs ({}, {})
    \<and> map set uss = spec_answers rs ({}, {}) \<and> list_all distinct uss"
  using master_run_refines[OF new_master_ok(1) assms] by (simp add: new_master_ok) blast

definition example_requests :: "master_request list" where
  "example_requests =
     [Register_Publication ''chat'' ''a:1'' 7, Register_Subscription ''chat'' ''b:2'' 3,
      Register_Publication ''chat'' ''c:3'' 5, Unregister_Publication ''chat'' ''a:1'' 9,
      Register_Subscription ''chat'' ''a:1'' 8]"

lemma example_master_run:
  "map_prod id heap (projr (master_run example_requests new_master)) =
    ([[], [''a:1''], [], [], [''c:3'']],
     [(3, \<lparr>ni_uri = ''b:2'', ni_subs = [''chat''], ni_pubs = []\<rparr>),
      (5, \<lparr>ni_uri = ''c:3'', ni_subs = [], ni_pubs = [''chat'']\<rparr>),
      (7, \<lparr>ni_uri = ''a:1'', ni_subs = [''chat''], ni_pubs = []\<rparr>)])"
  by code_simp

theorem master_refines_witness:
  "\<exists>m. master_run example_requests new_master = Inr ([[], [''a:1''], [], [], [''c:3'']], m)
    \<and> (sub_rel m, pub_rel m) = ({(''b:2'', ''chat''), (''a:1'', ''chat'')}, {(''c:3'', ''chat'')})"
proof -
  have d: "distinct (map req_addr example_requests)" by (simp add: example_requests_def)
  obtain uss m where m: "master_run example_requests new_master = Inr (uss, m)"
    "(sub_rel m, pub_rel m) = fold spec_handle example_requests ({}, {})"
    using master_refines[OF d] by blast
  have "uss = [[], [''a:1''], [], [], [''c:3'']]"
    using example_master_run by (simp add: m(1))
  moreover have "fold spec_handle example_requests ({}, {})
    = ({(''b:2'', ''chat''), (''a:1'', ''chat'')}, {(''c:3'', ''chat'')})"
    by (auto simp: example_requests_def)
  ultimately show ?thesis using m by auto
qed

section \<open>Destruction\<close>

lemma delete_nodes:
  assumes "distinct as" and "\<forall>a \<in> set as. map_of (heap m) a \<noteq> None"
  shows "(case foldR delete_node as m of
      Inl e \<Rightarrow> e = Use_After_Free \<and> (\<exists>a \<in> set as. \<exists>n. map_of (heap m) a = Some n \<and> (ni_subs n \<noteq> [] \<or> ni_pubs n \<noteq> []))
    | Inr m' \<Rightarrow> (\<forall>a \<in> set as. \<forall>n. map_of (heap m) a = Some n \<longrightarrow> ni_subs n = [] \<and> ni_pubs n = [])
        \<and> (\<forall>a. map_of (heap m') a = (if a \<in> set as then None else map_of (heap m) a)))"
  using assms
proof (induction as arbitrary: m)
  case (Cons a as)
  obtain n where n: "map_of (heap m) a = Some n" using Cons.prems(2) by auto
  show ?case
  proof (cases "ni_subs n = [] \<and> ni_pubs n = []")
    case True
    define m1 where "m1 = m\<lparr>heap := odel a (heap m)\<rparr>"
    have m1: "delete_node a m = Inr m1" using True by (simp add: delete_node_def deref_def n m1_def)
    have h: "map_of (heap m1) = (map_of (heap m))(a := None)" by (simp add: m1_def omap_simps)
    have p: "\<forall>b \<in> set as. map_of (heap m1) b \<noteq> None" using Cons.prems by (auto simp: h)
    have d: "distinct as" "a \<notin> set as" using Cons.prems(1) by simp_all
    show ?thesis using Cons.IH[OF d(1) p] d n True by (auto simp: m1 h split: sum.splits if_splits)
  next
    case False
    then have "delete_node a m = Inl Use_After_Free" by (simp add: delete_node_def deref_def n ensure_def)
    then show ?thesis using n False by auto
  qed
qed simp

text \<open>
  Destroying a master is only sound when nothing is registered: with any live subscription
  or publication, the destructor of the node reads a topic name it has just erased.
\<close>
theorem destroy_master:
  assumes inv: "master_inv m"
  shows "if sub_rel m = {} \<and> pub_rel m = {} then \<exists>m'. delete_master m = Inr m' \<and> map_of (heap m') = Map.empty
    else delete_master m = Inl Use_After_Free"
proof -
  have node: "map_of (nodes m) uri = Some a \<longleftrightarrow> (\<exists>n. map_of (heap m) a = Some n \<and> ni_uri n = uri)" for uri a
    using inv unfolding master_inv_def by blast
  have ok: "omap_ok (nodes m)" using inv by (simp add: master_inv_def)
  have mem: "a \<in> set (map snd (nodes m)) \<longleftrightarrow> map_of (heap m) a \<noteq> None" for a
  proof -
    have "a \<in> set (map snd (nodes m)) \<longleftrightarrow> (\<exists>uri. map_of (nodes m) uri = Some a)"
      by (force simp: omap_ok_map_of[OF ok] image_iff)
    then show ?thesis using node by auto
  qed
  have d: "distinct (map snd (nodes m))"
  proof -
    have "inj_on snd (set (nodes m))"
      using node omap_ok_map_of[OF ok] by (intro inj_onI) (metis option.inject prod.collapse)
    moreover have "distinct (nodes m)" using omap_ok_distinct[OF ok] by (simp add: distinct_map)
    ultimately show ?thesis by (simp add: distinct_map)
  qed
  have none: "(\<forall>a n. map_of (heap m) a = Some n \<longrightarrow> ni_subs n = [] \<and> ni_pubs n = [])
    \<longleftrightarrow> sub_rel m = {} \<and> pub_rel m = {}"
    by (auto simp: sub_rel_def pub_rel_def) (metis equals0I set_empty)+
  have all: "\<forall>a \<in> set (map snd (nodes m)). map_of (heap m) a \<noteq> None" using mem by blast
  note del = delete_nodes[OF d all, folded delete_master_def, unfolded Ball_def Bex_def mem]
  show ?thesis
  proof (cases "delete_master m")
    case (Inl e)
    have "e = Use_After_Free \<and> (\<exists>a. map_of (heap m) a \<noteq> None
        \<and> (\<exists>n. map_of (heap m) a = Some n \<and> (ni_subs n \<noteq> [] \<or> ni_pubs n \<noteq> [])))"
      using del by (simp only: Inl sum.case)
    then show ?thesis using Inl none by auto
  next
    case (Inr m')
    have "(\<forall>a. map_of (heap m) a \<noteq> None \<longrightarrow>
          (\<forall>n. map_of (heap m) a = Some n \<longrightarrow> ni_subs n = [] \<and> ni_pubs n = []))"
      and "\<forall>a. map_of (heap m') a = (if map_of (heap m) a \<noteq> None then None else map_of (heap m) a)"
      using del unfolding Inr sum.case by blast+
    then have "sub_rel m = {} \<and> pub_rel m = {}" and "map_of (heap m') = Map.empty"
      using none by (auto simp: fun_eq_iff)
    then show ?thesis using Inr by simp
  qed
qed

theorem destroy_master_witness:
  "\<exists>m. delete_master m = Inl Use_After_Free \<and> sub_rel m = {(''b:2'', ''chat'')}"
proof -
  obtain uss m where "master_inv m" and "(sub_rel m, pub_rel m)
    = fold spec_handle [Register_Subscription ''chat'' ''b:2'' 3] ({}, {})"
    using master_run_refines[OF new_master_ok(1), of "[Register_Subscription ''chat'' ''b:2'' 3]"]
    by (auto simp: new_master_ok)
  then show ?thesis using destroy_master[of m] by (intro exI[of _ m]) simp
qed

end
