(* ===== verification/Poll_Set.thy ===== *)
theory Poll_Set
  imports Prelude
begin

text \<open>
  Models \<open>src/src/poll_set.cpp\<close> with the declarations of \<open>poll_set.h\<close>, and the POSIX branch of
  \<open>poll_sockets\<close> in \<open>io.cpp\<close>: the set of sockets that the poll thread waits on, the signal pipe
  that interrupts a blocked poll, and one round of \<open>PollSet::update\<close>. The result of the
  \<open>poll()\<close> system call is an argument (\<open>os_poll\<close>), and so is the reaction of the registered
  functions (\<open>disp\<close>), which may change the poll set while the round is running.

  The lemmas show that the array handed to \<open>poll()\<close> always lists the registered sockets with
  their current event masks, that a change of the set leaves a byte in the signal pipe, and
  exactly which functions a round calls. The locale \<open>event_registry\<close> is the contract the TCP
  transport relies on.
\<close>

section \<open>State\<close>

text \<open>The event bits of \<open><poll.h>\<close>.\<close>

definition POLLIN :: u32 where "POLLIN = 1"
definition POLLOUT :: u32 where "POLLOUT = 4"
definition POLLERR :: u32 where "POLLERR = 8"
definition POLLHUP :: u32 where "POLLHUP = 16"
definition POLLNVAL :: u32 where "POLLNVAL = 32"

lemmas poll_bits = POLLIN_def POLLOUT_def POLLERR_def POLLHUP_def POLLNVAL_def

text \<open>
  \<open>boost::function\<close> values are named, not stored: the pipe's own handler, or a client's
  function identified by \<open>'h\<close>. A transport kept alive by the set is named by a number.
\<close>

datatype 'h handler = On_Local_Pipe | Client 'h

record 'h socket_info =
  si_transport :: "nat option"
  si_func :: "'h handler option"
  si_fd :: int
  si_events :: u32

record pollfd =
  pfd_fd :: int
  pfd_events :: u16
  pfd_revents :: u16

record 'h poll_set =
  socket_info :: "(int, 'h socket_info) omap"
  sockets_changed :: bool
  just_deleted :: "int list"
  ufds :: "pollfd list"
  signal_pipe :: "int \<times> int"
  pipe_bytes :: nat
  pipe_capacity :: nat

section \<open>Operations\<close>

text \<open>
  \<open>signal\<close> writes one byte to the non-blocking pipe; a full pipe makes the write fail, and the
  failure is ignored. (When another thread holds \<open>signal_mutex_\<close> nothing is written, but that
  thread is writing its byte.)
\<close>

definition signal :: "'h poll_set \<Rightarrow> 'h poll_set" where
  "signal p = (if pipe_bytes p < pipe_capacity p
               then p\<lparr>pipe_bytes := Suc (pipe_bytes p)\<rparr> else p)"

definition addSocket ::
  "int \<Rightarrow> 'h handler option \<Rightarrow> nat option \<Rightarrow> 'h poll_set \<Rightarrow> bool \<times> 'h poll_set" where
  "addSocket fd update_func transport p =
     (let info = \<lparr>si_transport = transport, si_func = update_func, si_fd = fd, si_events = 0\<rparr>
      in if map_of (socket_info p) fd \<noteq> None then (False, p)
         else (True, signal (p\<lparr>socket_info := oput fd info (socket_info p),
                               sockets_changed := True\<rparr>)))"

definition delSocket :: "int \<Rightarrow> 'h poll_set \<Rightarrow> bool \<times> 'h poll_set" where
  "delSocket fd p =
     (if fd < 0 then (False, p)
      else case map_of (socket_info p) fd of
        None \<Rightarrow> (False, p)
      | Some _ \<Rightarrow>
          (True, signal (p\<lparr>socket_info := odel fd (socket_info p),
                           just_deleted := just_deleted p @ [fd],
                           sockets_changed := True\<rparr>)))"

definition addEvents :: "int \<Rightarrow> u32 \<Rightarrow> 'h poll_set \<Rightarrow> bool \<times> 'h poll_set" where
  "addEvents fd events p =
     (case map_of (socket_info p) fd of
        None \<Rightarrow> (False, p)
      | Some info \<Rightarrow>
          (True, signal (p\<lparr>socket_info :=
             oset fd (info\<lparr>si_events := si_events info OR events\<rparr>) (socket_info p)\<rparr>)))"

definition delEvents :: "int \<Rightarrow> u32 \<Rightarrow> 'h poll_set \<Rightarrow> bool \<times> 'h poll_set" where
  "delEvents fd events p =
     (case map_of (socket_info p) fd of
        None \<Rightarrow> (False, p)
      | Some info \<Rightarrow>
          (True, signal (p\<lparr>socket_info :=
             oset fd (info\<lparr>si_events := si_events info AND NOT events\<rparr>) (socket_info p)\<rparr>)))"

text \<open>The constructor: \<open>pair\<close> is what \<open>create_signal_pair\<close> gives, \<open>None\<close> if it failed.\<close>

definition new_poll_set :: "(int \<times> int) option \<Rightarrow> nat \<Rightarrow> 'h poll_set res" where
  "new_poll_set pair cap =
     (case pair of
        None \<Rightarrow> Inl Ros_Break
      | Some (r, w) \<Rightarrow>
          let p0 = \<lparr>socket_info = [], sockets_changed = False, just_deleted = [], ufds = [],
                    signal_pipe = (r, w), pipe_bytes = 0, pipe_capacity = cap\<rparr>;
              p1 = snd (addSocket r (Some On_Local_Pipe) None p0)
          in Inr (snd (addEvents r POLLIN p1)))"

text \<open>The pipe's handler reads single bytes until a read returns nothing.\<close>

fun drain :: "nat \<Rightarrow> nat" where
  "drain 0 = 0"
| "drain (Suc n) = drain n"

definition onLocalPipeEvents :: "u32 \<Rightarrow> 'h poll_set \<Rightarrow> 'h poll_set" where
  "onLocalPipeEvents events p =
     (if events AND POLLIN \<noteq> 0 then p\<lparr>pipe_bytes := drain (pipe_bytes p)\<rparr> else p)"

definition createNativePollset :: "'h poll_set \<Rightarrow> 'h poll_set" where
  "createNativePollset p =
     (if \<not> sockets_changed p then p
      else p\<lparr>ufds := map (\<lambda>(_, info). \<lparr>pfd_fd = si_fd info, pfd_events = ucast (si_events info),
                                       pfd_revents = 0\<rparr>) (socket_info p)\<rparr>)"

text \<open>
  What the \<open>poll()\<close> call does: it is interrupted by a signal, fails otherwise, or returns with
  the \<open>revents\<close> of each entry. \<open>poll_sockets\<close> turns an interruption into \<open>0\<close>.
\<close>

datatype os_poll = Poll_EINTR | Poll_Error | Poll_Revents "u16 list"

fun set_revents :: "u16 list \<Rightarrow> pollfd list \<Rightarrow> pollfd list" where
  "set_revents rs [] = []"
| "set_revents [] (u # us) = u\<lparr>pfd_revents := 0\<rparr> # set_revents [] us"
| "set_revents (r # rs) (u # us) = u\<lparr>pfd_revents := r\<rparr> # set_revents rs us"

definition poll_sockets :: "os_poll \<Rightarrow> pollfd list \<Rightarrow> int \<times> pollfd list" where
  "poll_sockets r fds =
     (case r of
        Poll_EINTR \<Rightarrow> (0, fds)
      | Poll_Error \<Rightarrow> (-1, fds)
      | Poll_Revents rs \<Rightarrow>
          let fds' = set_revents rs fds
          in (int (length (filter (\<lambda>u. pfd_revents u \<noteq> 0) fds')), fds'))"

text \<open>
  One round of \<open>update\<close>. \<open>disp h ev\<close> runs the client function \<open>h\<close> on the events \<open>ev\<close>; it sees
  the poll set and the rest of the process (\<open>'w\<close>) and may change both. \<open>service\<close> is one
  iteration of the loop over \<open>ufds_\<close>.
\<close>

definition err_bits :: u32 where
  "err_bits = POLLERR OR POLLHUP OR POLLNVAL"

definition call_func ::
  "('h \<Rightarrow> u32 \<Rightarrow> 'h poll_set \<times> 'w \<Rightarrow> ('h poll_set \<times> 'w) res) \<Rightarrow> 'h handler \<Rightarrow> u32
   \<Rightarrow> 'h poll_set \<times> 'w \<Rightarrow> ('h poll_set \<times> 'w) res" where
  "call_func disp f ev s =
     (case f of On_Local_Pipe \<Rightarrow> Inr (onLocalPipeEvents ev (fst s), snd s)
              | Client h \<Rightarrow> disp h ev s)"

definition clear_revents :: "nat \<Rightarrow> 'h poll_set \<Rightarrow> 'h poll_set" where
  "clear_revents i p = p\<lparr>ufds := (ufds p)[i := (ufds p ! i)\<lparr>pfd_revents := 0\<rparr>]\<rparr>"

definition service ::
  "('h \<Rightarrow> u32 \<Rightarrow> 'h poll_set \<times> 'w \<Rightarrow> ('h poll_set \<times> 'w) res) \<Rightarrow> nat
   \<Rightarrow> 'h poll_set \<times> 'w \<Rightarrow> ('h poll_set \<times> 'w) res" where
  "service disp i s =
     (let p = fst s; u = ufds p ! i
      in if pfd_revents u = 0 then Inr s
         else case map_of (socket_info p) (pfd_fd u) of
           None \<Rightarrow> Inr s
         | Some info \<Rightarrow>
             let events = si_events info;
                 revents = scast (pfd_revents u) :: u32;
                 skip = (revents AND err_bits \<noteq> 0 \<and> pfd_fd u \<in> set (just_deleted p))
             in bindR
                  (case si_func info of
                     None \<Rightarrow> Inr s
                   | Some f \<Rightarrow>
                       if (events AND revents \<noteq> 0 \<or> revents AND POLLERR \<noteq> 0
                           \<or> revents AND POLLHUP \<noteq> 0 \<or> revents AND POLLNVAL \<noteq> 0) \<and> \<not> skip
                       then call_func disp f (revents AND (events OR err_bits)) s
                       else Inr s)
                  (\<lambda>s'. Inr (clear_revents i (fst s'), snd s')))"

definition update ::
  "('h \<Rightarrow> u32 \<Rightarrow> 'h poll_set \<times> 'w \<Rightarrow> ('h poll_set \<times> 'w) res) \<Rightarrow> os_poll
   \<Rightarrow> 'h poll_set \<times> 'w \<Rightarrow> ('h poll_set \<times> 'w) res" where
  "update disp r s =
     (let p1 = createNativePollset (fst s);
          (ret, us) = poll_sockets r (ufds p1);
          s2 = (p1\<lparr>ufds := us\<rparr>, snd s)
      in if ret > 0
         then bindR (foldR (service disp) [0..<length us] s2)
                (\<lambda>s'. Inr ((fst s')\<lparr>just_deleted := []\<rparr>, snd s'))
         else Inr s2)"

section \<open>The contract of the registry\<close>

text \<open>
  \<open>mask p fd\<close> is the event mask of a registered descriptor. The transport only relies on how
  the four operations change masks; \<open>event_registry\<close> states these laws, and derives from them
  the facts about single event bits that the transport uses.
\<close>

definition mask :: "'h poll_set \<Rightarrow> int \<Rightarrow> u32 option" where
  "mask p fd = map_option si_events (map_of (socket_info p) fd)"

fun bit_on :: "u32 option \<Rightarrow> u32 \<Rightarrow> bool" where
  "bit_on None b = False"
| "bit_on (Some e) b = (e AND b \<noteq> 0)"

locale event_registry =
  fixes mk :: "'p \<Rightarrow> int \<Rightarrow> u32 option"
    and reg :: "int \<Rightarrow> 'p \<Rightarrow> 'p"
    and unreg :: "int \<Rightarrow> 'p \<Rightarrow> 'p"
    and add_ev :: "int \<Rightarrow> u32 \<Rightarrow> 'p \<Rightarrow> 'p"
    and del_ev :: "int \<Rightarrow> u32 \<Rightarrow> 'p \<Rightarrow> 'p"
  assumes mk_reg: "mk (reg fd p) = (if mk p fd = None then (mk p)(fd \<mapsto> 0) else mk p)"
    and mk_unreg: "0 \<le> fd \<Longrightarrow> mk (unreg fd p) = (mk p)(fd := None)"
    and mk_add: "mk (add_ev fd b p) = (mk p)(fd := map_option (\<lambda>e. e OR b) (mk p fd))"
    and mk_del: "mk (del_ev fd b p) = (mk p)(fd := map_option (\<lambda>e. e AND NOT b) (mk p fd))"
begin

lemma frame_other:
  assumes "gd \<noteq> fd"
  shows "mk (reg fd p) gd = mk p gd" "mk (add_ev fd b p) gd = mk p gd"
    "mk (del_ev fd b p) gd = mk p gd" "0 \<le> fd \<Longrightarrow> mk (unreg fd p) gd = mk p gd"
  using assms by (simp_all add: mk_reg mk_add mk_del mk_unreg)

lemma registered:
  "mk (reg fd p) fd \<noteq> None"
  "mk (add_ev fd b p) fd = None \<longleftrightarrow> mk p fd = None"
  "mk (del_ev fd b p) fd = None \<longleftrightarrow> mk p fd = None"
  by (simp_all add: mk_reg mk_add mk_del)

lemma fresh_clear: "mk p fd = None \<Longrightarrow> \<not> bit_on (mk (reg fd p) fd) b"
  by (simp add: mk_reg)

lemma unregistered: "0 \<le> fd \<Longrightarrow> \<not> bit_on (mk (unreg fd p) fd) b"
  by (simp add: mk_unreg)

lemma armed: "mk p fd \<noteq> None \<Longrightarrow> b \<noteq> 0 \<Longrightarrow> bit_on (mk (add_ev fd b p) fd) b"
proof -
  have "(e OR b) AND b = b" for e :: u32
    by (rule bit_word_eqI) (auto simp: bit_simps)
  then show "mk p fd \<noteq> None \<Longrightarrow> b \<noteq> 0 \<Longrightarrow> bit_on (mk (add_ev fd b p) fd) b"
    by (auto simp: mk_add)
qed

lemma disarmed: "\<not> bit_on (mk (del_ev fd b p) fd) b"
proof -
  have "(e AND NOT b) AND b = 0" for e :: u32
    by (rule bit_word_eqI) (auto simp: bit_simps)
  then show ?thesis by (cases "mk p fd") (simp_all add: mk_del)
qed

lemma other_bit:
  assumes "b AND c = 0"
  shows "bit_on (mk (add_ev fd b p) fd) c = bit_on (mk p fd) c"
    and "bit_on (mk (del_ev fd b p) fd) c = bit_on (mk p fd) c"
proof -
  have z: "\<not> (bit b n \<and> bit c n)" for n
    using assms by (metis bit_and_iff bit_0_eq bot_apply bot_bool_def)
  have "(e OR b) AND c = e AND c" "(e AND NOT b) AND c = e AND c" for e :: u32
    using z by (auto intro!: bit_word_eqI simp: bit_simps)
  then show "bit_on (mk (add_ev fd b p) fd) c = bit_on (mk p fd) c"
    and "bit_on (mk (del_ev fd b p) fd) c = bit_on (mk p fd) c"
    by (cases "mk p fd"; simp add: mk_add mk_del)+
qed

end

lemma signal_fields [simp]:
  "socket_info (signal p) = socket_info p" "sockets_changed (signal p) = sockets_changed p"
  "just_deleted (signal p) = just_deleted p" "ufds (signal p) = ufds p"
  "signal_pipe (signal p) = signal_pipe p" "pipe_capacity (signal p) = pipe_capacity p"
  by (simp_all add: signal_def)

lemma mask_signal [simp]: "mask (signal p) = mask p"
  by (simp add: mask_def fun_eq_iff)

lemma mask_addSocket:
  "mask (snd (addSocket fd h t p)) = (if mask p fd = None then (mask p)(fd \<mapsto> 0) else mask p)"
  by (auto simp: addSocket_def mask_def fun_eq_iff omap_simps Let_def)

lemma mask_delSocket: "0 \<le> fd \<Longrightarrow> mask (snd (delSocket fd p)) = (mask p)(fd := None)"
  by (auto simp: delSocket_def mask_def fun_eq_iff omap_simps split: option.splits)

lemma mask_addEvents:
  "mask (snd (addEvents fd b p)) = (mask p)(fd := map_option (\<lambda>e. e OR b) (mask p fd))"
  by (auto simp: addEvents_def mask_def fun_eq_iff omap_simps split: option.splits)

lemma mask_delEvents:
  "mask (snd (delEvents fd b p)) = (mask p)(fd := map_option (\<lambda>e. e AND NOT b) (mask p fd))"
  by (auto simp: delEvents_def mask_def fun_eq_iff omap_simps split: option.splits)

interpretation pr: event_registry mask "\<lambda>fd p. snd (addSocket fd h t p)"
  "\<lambda>fd p. snd (delSocket fd p)" "\<lambda>fd b p. snd (addEvents fd b p)"
  "\<lambda>fd b p. snd (delEvents fd b p)" for h t
  by unfold_locales (simp_all add: mask_addSocket mask_delSocket mask_addEvents mask_delEvents)

section \<open>Invariant\<close>

text \<open>
  Entries are stored under their own descriptor, the dirty flag is up, and the pipe's read end
  \<open>r\<close> is registered with its handler and listens for \<open>POLLIN\<close>.
\<close>

definition ps_inv :: "int \<Rightarrow> 'h poll_set \<Rightarrow> bool" where
  "ps_inv r p \<longleftrightarrow> omap_ok (socket_info p) \<and> (\<forall>(fd, i) \<in> set (socket_info p). si_fd i = fd)
     \<and> sockets_changed p \<and> fst (signal_pipe p) = r
     \<and> map_option si_func (map_of (socket_info p) r) = Some (Some On_Local_Pipe)
     \<and> bit_on (mask p r) POLLIN"

datatype 'h ps_op =
    Add_Socket int 'h "nat option"
  | Del_Socket int
  | Add_Events int u32
  | Del_Events int u32
  | Signal
  | Pipe_Events u32
  | Create_Native

fun ps_step :: "'h ps_op \<Rightarrow> 'h poll_set \<Rightarrow> 'h poll_set res" where
  "ps_step (Add_Socket fd h t) p = Inr (snd (addSocket fd (Some (Client h)) t p))"
| "ps_step (Del_Socket fd) p = Inr (snd (delSocket fd p))"
| "ps_step (Add_Events fd e) p = Inr (snd (addEvents fd e p))"
| "ps_step (Del_Events fd e) p = Inr (snd (delEvents fd e p))"
| "ps_step Signal p = Inr (signal p)"
| "ps_step (Pipe_Events e) p = Inr (onLocalPipeEvents e p)"
| "ps_step Create_Native p = Inr (createNativePollset p)"

text \<open>Clients do not remove or re-mask the pipe's own descriptor.\<close>

fun ps_ok :: "int \<Rightarrow> 'h ps_op \<Rightarrow> bool" where
  "ps_ok r (Del_Socket fd) = (fd \<noteq> r)"
| "ps_ok r (Del_Events fd e) = (fd \<noteq> r)"
| "ps_ok r _ = True"

lemma set_oput: "set (oput k v m) \<subseteq> insert (k, v) (set m)"
  by (induction m) auto

lemma drain_zero [simp]: "drain n = 0"
  by (induction n) auto

lemma onLocal_fields [simp]:
  "socket_info (onLocalPipeEvents e p) = socket_info p"
  "sockets_changed (onLocalPipeEvents e p) = sockets_changed p"
  "signal_pipe (onLocalPipeEvents e p) = signal_pipe p"
  "just_deleted (onLocalPipeEvents e p) = just_deleted p"
  "ufds (onLocalPipeEvents e p) = ufds p"
  by (simp_all add: onLocalPipeEvents_def)

lemma native_fields [simp]:
  "socket_info (createNativePollset p) = socket_info p"
  "sockets_changed (createNativePollset p) = sockets_changed p"
  "signal_pipe (createNativePollset p) = signal_pipe p"
  "just_deleted (createNativePollset p) = just_deleted p"
  by (simp_all add: createNativePollset_def)

lemma mask_same: "socket_info p = socket_info q \<Longrightarrow> mask p = mask q"
  by (simp add: mask_def fun_eq_iff)

lemma set_odel: "set (odel k m) \<subseteq> set m"
  by (auto simp: odel_def)

lemma set_oset: "set (oset k v m) \<subseteq> insert (k, v) (set m)"
  by (auto simp: oset_def)

lemma in_poll_bits: "POLLIN \<noteq> 0" "POLLOUT \<noteq> 0" "POLLIN AND POLLOUT = 0" "POLLOUT AND POLLIN = 0"
  by (simp_all add: poll_bits)

lemma bit_on_or: "bit_on (Some e) b \<Longrightarrow> bit_on (Some (e OR f)) b"
proof -
  have "(e OR f) AND b = (e AND b) OR (f AND b)"
    by (rule bit_word_eqI) (auto simp: bit_simps)
  then show "bit_on (Some e) b \<Longrightarrow> bit_on (Some (e OR f)) b" by (simp add: or_eq_0_iff)
qed

lemma ps_inv_signal [simp]: "ps_inv r (signal p) = ps_inv r p"
  by (simp add: ps_inv_def)

lemma ps_inv_addSocket: "ps_inv r p \<Longrightarrow> ps_inv r (snd (addSocket fd f t p))"
  using set_oput[of fd _ "socket_info p"]
  by (fastforce simp: ps_inv_def addSocket_def Let_def omap_simps mask_def intro: omap_ok_oput)

lemma ps_inv_delSocket: "ps_inv r p \<Longrightarrow> fd \<noteq> r \<Longrightarrow> ps_inv r (snd (delSocket fd p))"
  using set_odel[of fd "socket_info p"]
  by (fastforce simp: ps_inv_def delSocket_def omap_simps mask_def intro: omap_ok_odel split: option.splits)

lemma ps_inv_key: "ps_inv r p \<Longrightarrow> map_of (socket_info p) fd = Some i \<Longrightarrow> si_fd i = fd"
  by (auto simp: ps_inv_def dest: map_of_SomeD)

lemma ps_inv_addEvents: "ps_inv r p \<Longrightarrow> ps_inv r (snd (addEvents fd e p))"
  using ps_inv_key[of r p fd] set_oset[of fd _ "socket_info p"] bit_on_or
  by (fastforce simp: ps_inv_def addEvents_def omap_simps mask_def intro: omap_ok_oset split: option.splits)

lemma ps_inv_delEvents: "ps_inv r p \<Longrightarrow> fd \<noteq> r \<Longrightarrow> ps_inv r (snd (delEvents fd e p))"
  using ps_inv_key[of r p fd] set_oset[of fd _ "socket_info p"]
  by (fastforce simp: ps_inv_def delEvents_def omap_simps mask_def intro: omap_ok_oset split: option.splits)

lemma ps_inv_onLocal: "ps_inv r p \<Longrightarrow> ps_inv r (onLocalPipeEvents e p)"
  by (simp add: ps_inv_def mask_def)

lemma ps_inv_native: "ps_inv r p \<Longrightarrow> ps_inv r (createNativePollset p)"
  by (simp add: ps_inv_def mask_def)

lemmas ps_inv_ops = ps_inv_addSocket ps_inv_delSocket ps_inv_addEvents ps_inv_delEvents
  ps_inv_onLocal ps_inv_native

interpretation ps: safe_system ps_step "ps_inv r" "ps_ok r" for r
  apply unfold_locales
  subgoal for s e s' by (cases e) (auto intro: ps_inv_ops)
  subgoal for s e by (cases e) auto
  done

lemma ps_inv_new:
  assumes "new_poll_set (Some (r, w)) cap = Inr p"
  shows "ps_inv r p"
  using assms
  by (auto simp: new_poll_set_def Let_def addSocket_def addEvents_def ps_inv_def mask_def
      oset_def poll_bits omap_ok_Cons)


lemma native_ufds:
  assumes "ps_inv r p"
  shows "ufds (createNativePollset p) =
    map (\<lambda>(fd, i). \<lparr>pfd_fd = fd, pfd_events = ucast (si_events i), pfd_revents = 0\<rparr>) (socket_info p)"
  using assms by (auto simp: ps_inv_def createNativePollset_def)

section \<open>Properties\<close>

text \<open>
  C15: From the constructor, after any sequence of operations that leaves the pipe's descriptor
  alone, the array that \<open>createNativePollset\<close> hands to \<open>poll()\<close> lists exactly the registered
  descriptors, in ascending order, each with its current event mask and no stale result, and
  the signal pipe is among them. (The code never lowers \<open>sockets_changed_\<close>, so the early
  return of \<open>createNativePollset\<close> is never taken; \<open>addEvents\<close> and \<open>delEvents\<close> depend on it.)
\<close>

theorem poll_array_current:
  assumes "new_poll_set (Some (r, w)) cap = Inr p0" and "list_all (ps_ok r) ops"
  shows "\<exists>p. foldR ps_step ops p0 = Inr p
    \<and> ufds (createNativePollset p) =
        map (\<lambda>(fd, i). \<lparr>pfd_fd = fd, pfd_events = ucast (si_events i), pfd_revents = 0\<rparr>) (socket_info p)
    \<and> sorted_wrt (<) (map pfd_fd (ufds (createNativePollset p)))
    \<and> r \<in> pfd_fd ` set (ufds (createNativePollset p))"
proof -
  obtain p where p: "foldR ps_step ops p0 = Inr p" "ps_inv r p"
    using ps.run_safe[OF ps_inv_new[OF assms(1)] assms(2)] by blast
  have keys: "map pfd_fd (ufds (createNativePollset p)) = map fst (socket_info p)"
    by (simp add: native_ufds[OF p(2)] case_prod_unfold)
  have "r \<in> fst ` set (socket_info p)"
    using p(2) by (force simp: ps_inv_def dest: map_of_SomeD)
  then show ?thesis
    using p keys native_ufds[OF p(2)] unfolding ps_inv_def omap_ok_def
    by (metis (no_types, lifting) list.set_map)
qed

theorem poll_array_current_witness:
  "\<exists>p0 p. new_poll_set (Some (3, 4)) 16 = Inr p0
     \<and> foldR ps_step [Add_Socket 7 () None, Add_Events 7 POLLIN] p0 = Inr p
     \<and> map pfd_fd (ufds (createNativePollset p)) = [3, 7]"
proof -
  obtain p0 :: "unit poll_set" where p0: "new_poll_set (Some (3, 4)) 16 = Inr p0"
    by (simp add: new_poll_set_def Let_def)
  have ok: "list_all (ps_ok 3) [Add_Socket 7 () None, Add_Events 7 POLLIN]" by simp
  obtain p where p: "foldR ps_step [Add_Socket 7 () None, Add_Events 7 POLLIN] p0 = Inr p"
    "ufds (createNativePollset p) =
        map (\<lambda>(fd, i). \<lparr>pfd_fd = fd, pfd_events = ucast (si_events i), pfd_revents = 0\<rparr>) (socket_info p)"
    using poll_array_current[OF p0 ok] by blast
  have "map fst (socket_info p) = [3, 7]"
    using p(1) p0 by (auto simp: new_poll_set_def Let_def addSocket_def addEvents_def oset_def)
  then have "map pfd_fd (ufds (createNativePollset p)) = [3, 7]"
    by (simp add: p(2) case_prod_unfold comp_def)
  with p0 p(1) show ?thesis
    by (intro exI[of _ p0] exI[of _ p] conjI)
qed

text \<open>
  Every successful change of the poll set leaves a byte in the signal pipe, so a poll that is
  blocked, or about to block, returns.
\<close>

theorem change_wakes_poll:
  assumes "0 < pipe_capacity p"
  shows "(fst (addSocket fd f t p) \<longrightarrow> 0 < pipe_bytes (snd (addSocket fd f t p)))
    \<and> (fst (delSocket fd p) \<longrightarrow> 0 < pipe_bytes (snd (delSocket fd p)))
    \<and> (fst (addEvents fd e p) \<longrightarrow> 0 < pipe_bytes (snd (addEvents fd e p)))
    \<and> (fst (delEvents fd e p) \<longrightarrow> 0 < pipe_bytes (snd (delEvents fd e p)))"
  using assms
  by (auto simp: addSocket_def delSocket_def addEvents_def delEvents_def signal_def Let_def
      split: option.splits if_splits)

theorem change_wakes_poll_witness:
  "\<exists>p. new_poll_set (Some (3, 4)) 1 = Inr p \<and> fst (addSocket 7 (Some (Client ())) None p)
     \<and> 0 < pipe_bytes (snd (addSocket 7 (Some (Client ())) None p))"
proof -
  obtain p :: "unit poll_set" where p: "new_poll_set (Some (3, 4)) 1 = Inr p"
    by (simp add: new_poll_set_def Let_def)
  then have "0 < pipe_capacity p" "fst (addSocket 7 (Some (Client ())) None p)"
    by (auto simp: new_poll_set_def Let_def addSocket_def addEvents_def oset_def)
  then show ?thesis
    using change_wakes_poll[of p 7 "Some (Client ())" None] p by blast
qed

text \<open>A handler that only records its calls.\<close>

definition log_call :: "'h \<Rightarrow> u32 \<Rightarrow> 'h poll_set \<times> ('h \<times> u32) list
    \<Rightarrow> ('h poll_set \<times> ('h \<times> u32) list) res" where
  "log_call h ev s = Inr (fst s, snd s @ [(h, ev)])"

lemma service_unregistered:
  "map_of (socket_info p) (pfd_fd (ufds p ! i)) = None \<Longrightarrow> service disp i (p, w) = Inr (p, w)"
  by (simp add: service_def Let_def)

lemma clear_fields [simp]:
  "socket_info (clear_revents i p) = socket_info p"
  "sockets_changed (clear_revents i p) = sockets_changed p"
  "signal_pipe (clear_revents i p) = signal_pipe p"
  "just_deleted (clear_revents i p) = just_deleted p"
  "length (ufds (clear_revents i p)) = length (ufds p)"
  "i < j \<Longrightarrow> ufds (clear_revents i p) ! j = ufds p ! j"
  by (simp_all add: clear_revents_def)

lemma ps_inv_frame:
  "ps_inv r p \<Longrightarrow> socket_info q = socket_info p \<Longrightarrow> sockets_changed q = sockets_changed p
   \<Longrightarrow> signal_pipe q = signal_pipe p \<Longrightarrow> ps_inv r q"
  by (simp add: ps_inv_def mask_def)

lemma service_inv:
  assumes "\<And>h ev s s'. ps_inv r (fst s) \<Longrightarrow> disp h ev s = Inr s' \<Longrightarrow> ps_inv r (fst s')"
    and "ps_inv r (fst s)" and "service disp i s = Inr s'"
  shows "ps_inv r (fst s')"
proof -
  have call: "ps_inv r (fst t)" if "call_func disp f ev s = Inr t" for f ev t
    using that assms(1,2) by (auto simp: call_func_def intro: ps_inv_onLocal split: handler.splits)
  have clear: "ps_inv r (clear_revents i q)" if "ps_inv r q" for q :: "'a poll_set"
    using that by (rule ps_inv_frame) simp_all
  show ?thesis
    using assms(2,3)
    by (auto simp: service_def Let_def res_simps intro: clear dest!: call split: option.splits if_splits)
qed

text \<open>
  A round of \<open>update\<close> keeps the invariant of the poll set, whatever the handlers do to it, as
  long as each handler keeps it.
\<close>

theorem update_keeps_registry:
  assumes "\<And>h ev s s'. ps_inv r (fst s) \<Longrightarrow> disp h ev s = Inr s' \<Longrightarrow> ps_inv r (fst s')"
    and "ps_inv r p" and "update disp ret (p, w) = Inr (p', w')"
  shows "ps_inv r p'"
proof -
  have frame: "ps_inv r (q\<lparr>ufds := us\<rparr>)" "ps_inv r (q\<lparr>just_deleted := ds\<rparr>)"
    if "ps_inv r q" for q :: "'a poll_set" and us ds
    using that by (auto elim: ps_inv_frame)
  have loop: "ps_inv r (fst t)"
    if "foldR (service disp) is s = Inr t" "ps_inv r (fst s)" for "is" s t
    by (rule foldR_inv[where f = "service disp" and I = "\<lambda>s. ps_inv r (fst s)", OF _ that(2,1)])
      (rule service_inv[where disp = disp, OF assms(1)])
  show ?thesis
    using assms(2,3)
    by (auto simp: update_def Let_def res_simps frame ps_inv_native split: prod.splits if_splits
        dest!: loop)
qed

theorem update_keeps_registry_witness:
  "\<exists>p p'. ps_inv 3 p \<and> update (\<lambda>h ev s. Inr (snd (delSocket 7 (fst s)), snd s))
       (Poll_Revents [0, 1]) (p :: unit poll_set, ()) = Inr (p', ()) \<and> ps_inv 3 p'
     \<and> map_of (socket_info p') 7 = None"
proof -
  let ?d = "\<lambda>h ev s. Inr (snd (delSocket 7 (fst s)), snd s) :: (unit poll_set \<times> unit) res"
  let ?p = "\<lparr>socket_info = [(3, \<lparr>si_transport = None, si_func = Some On_Local_Pipe,
        si_fd = 3, si_events = POLLIN\<rparr>), (7, \<lparr>si_transport = None, si_func = Some (Client ()),
        si_fd = 7, si_events = POLLIN\<rparr>)], sockets_changed = True, just_deleted = [],
      ufds = [], signal_pipe = (3, 4), pipe_bytes = 0, pipe_capacity = 1\<rparr> :: unit poll_set"
  have p: "ps_inv 3 ?p" by (simp add: ps_inv_def mask_def omap_ok_Cons poll_bits)
  obtain q where q: "update ?d (Poll_Revents [0, 1]) (?p, ()) = Inr (q, ())"
    "map_of (socket_info q) 7 = None"
    by (simp add: update_def createNativePollset_def poll_sockets_def upt_rec service_def
        call_func_def delSocket_def odel_def signal_def poll_bits err_bits_def clear_revents_def Let_def)
  have "ps_inv 3 q"
    by (rule update_keeps_registry[OF _ p q(1)]) (auto simp: ps_inv_delSocket)
  with p q show ?thesis by blast
qed

text \<open>The call an entry of the result array stands for, if any.\<close>

definition expected_call :: "'h poll_set \<Rightarrow> pollfd \<Rightarrow> ('h \<times> u32) list" where
  "expected_call p u =
     (let revents = scast (pfd_revents u) :: u32 in
      case map_of (socket_info p) (pfd_fd u) of
        Some info \<Rightarrow>
          (case si_func info of
             Some (Client h) \<Rightarrow>
               (if revents AND (si_events info OR err_bits) \<noteq> 0
                   \<and> \<not> (revents AND err_bits \<noteq> 0 \<and> pfd_fd u \<in> set (just_deleted p))
                then [(h, revents AND (si_events info OR err_bits))] else [])
           | _ \<Rightarrow> [])
      | None \<Rightarrow> [])"

lemma and_or_zero: "(r :: u32) AND (e OR f) = 0 \<longleftrightarrow> r AND e = 0 \<and> r AND f = 0"
proof -
  have "r AND (e OR f) = (r AND e) OR (r AND f)"
    by (rule bit_word_eqI) (auto simp: bit_simps)
  then show ?thesis by (simp add: or_eq_0_iff)
qed

lemma relevant_iff:
  "((e :: u32) AND r \<noteq> 0 \<or> r AND POLLERR \<noteq> 0 \<or> r AND POLLHUP \<noteq> 0 \<or> r AND POLLNVAL \<noteq> 0)
   \<longleftrightarrow> r AND (e OR err_bits) \<noteq> 0"
  by (auto simp: err_bits_def and_or_zero and.commute[of e r])

lemma service_log:
  "\<exists>q. service log_call i (p, l) = Inr (q, l @ expected_call p (ufds p ! i))
     \<and> socket_info q = socket_info p \<and> just_deleted q = just_deleted p
     \<and> length (ufds q) = length (ufds p) \<and> (\<forall>j > i. ufds q ! j = ufds p ! j)"
proof (cases "pfd_revents (ufds p ! i) = 0")
  case True
  then show ?thesis
    by (auto simp: service_def expected_call_def Let_def split: option.splits handler.splits)
next
  case False
  show ?thesis
    unfolding service_def Let_def relevant_iff
    using False
    by (auto simp: expected_call_def Let_def call_func_def log_call_def
        split: option.splits handler.splits)
qed

lemma loop_log:
  assumes "k \<le> length (ufds p)"
  shows "\<exists>q. foldR (service log_call) [k..<length (ufds p)] (p, l)
      = Inr (q, l @ concat (map (expected_call p) (drop k (ufds p))))
    \<and> socket_info q = socket_info p"
  using assms
proof (induction "length (ufds p) - k" arbitrary: k p l)
  case 0
  then show ?case by simp
next
  case (Suc n)
  then have k: "k < length (ufds p)" by simp
  obtain q where q: "service log_call k (p, l) = Inr (q, l @ expected_call p (ufds p ! k))"
    and same: "socket_info q = socket_info p" "just_deleted q = just_deleted p"
      "length (ufds q) = length (ufds p)" "\<forall>j > k. ufds q ! j = ufds p ! j"
    using service_log[of k p l] by blast
  have "expected_call q = expected_call p"
    by (intro ext) (unfold expected_call_def same(1,2), rule refl)
  moreover have "drop (Suc k) (ufds q) = drop (Suc k) (ufds p)"
    using same by (intro nth_equalityI) auto
  moreover have "\<exists>t. foldR (service log_call) [Suc k..<length (ufds q)]
      (q, l @ expected_call p (ufds p ! k)) = Inr (t, (l @ expected_call p (ufds p ! k))
        @ concat (map (expected_call q) (drop (Suc k) (ufds q)))) \<and> socket_info t = socket_info q"
    by (rule Suc(1)) (use Suc(2) k same(3) in auto)
  ultimately show ?case
    using k same(1,3) q by (auto simp: upt_conv_Cons Cons_nth_drop_Suc[symmetric])
qed

lemma expected_call_zero: "pfd_revents u = 0 \<Longrightarrow> expected_call p u = []"
  by (auto simp: expected_call_def Let_def split: option.splits handler.splits)

lemma expected_call_native [simp]:
  "expected_call ((createNativePollset p)\<lparr>ufds := us\<rparr>) = expected_call p"
  by (intro ext) (simp add: expected_call_def cong: option.case_cong handler.case_cong)

text \<open>A round of \<open>update\<close> with handlers that only record their calls.\<close>

lemma update_log:
  fixes p :: "'h poll_set" and rs :: "u16 list"
  defines "us \<equiv> snd (poll_sockets (Poll_Revents rs) (ufds (createNativePollset p)))"
  shows "\<exists>q. update log_call (Poll_Revents rs) (p, []) = Inr (q, concat (map (expected_call p) us))
    \<and> socket_info q = socket_info p
    \<and> just_deleted q = (if \<forall>u \<in> set us. pfd_revents u = 0 then just_deleted p else [])"
proof -
  have us: "us = set_revents rs (ufds (createNativePollset p))"
    by (simp add: us_def poll_sockets_def Let_def)
  define p2 where "p2 = (createNativePollset p)\<lparr>ufds := us\<rparr>"
  have p2: "expected_call p2 = expected_call p" "ufds p2 = us" "socket_info p2 = socket_info p"
    by (simp_all add: p2_def)
  show ?thesis
  proof (cases "\<forall>u \<in> set us. pfd_revents u = 0")
    case True
    then have "concat (map (expected_call p) us) = []" by (auto intro: expected_call_zero)
    moreover have "update log_call (Poll_Revents rs) (p, []) = Inr (p2, [])"
      using True by (simp add: update_def poll_sockets_def Let_def us[symmetric] p2_def filter_empty_conv[THEN iffD2])
    ultimately show ?thesis using True p2(3) by (simp add: p2_def)
  next
    case False
    obtain q where q: "foldR (service log_call) [0..<length us] (p2, [])
      = Inr (q, concat (map (expected_call p) us))" "socket_info q = socket_info p"
      using loop_log[of 0 p2 "[]"] by (auto simp: p2)
    have "filter (\<lambda>u. pfd_revents u \<noteq> 0) us \<noteq> []" using False by (simp add: filter_empty_conv)
    then have "update log_call (Poll_Revents rs) (p, []) =
        Inr (q\<lparr>just_deleted := []\<rparr>, concat (map (expected_call p) us))"
      using q(1) by (simp add: update_def poll_sockets_def Let_def us[symmetric] p2_def)
    then show ?thesis using q(2) by (simp only: False if_False) simp
  qed
qed

text \<open>An entry of the result array that reports an error on \<open>fd\<close>.\<close>

definition error_on :: "int \<Rightarrow> pollfd \<Rightarrow> bool" where
  "error_on fd u = (pfd_fd u = fd \<and> scast (pfd_revents u) AND err_bits \<noteq> 0)"

lemma error_on_nonzero: "error_on fd u \<Longrightarrow> pfd_revents u \<noteq> 0"
  by (auto simp: error_on_def)

lemma deleted_stays: "ps_step e p = Inr q \<Longrightarrow> set (just_deleted p) \<subseteq> set (just_deleted q)"
  by (cases e) (auto simp: addSocket_def delSocket_def addEvents_def delEvents_def signal_def Let_def
      split: option.splits if_splits)

lemma stale_no_call: "error_on fd u \<Longrightarrow> fd \<in> set (just_deleted p) \<Longrightarrow> expected_call p u = []"
  by (auto simp: error_on_def expected_call_def Let_def split: option.splits handler.splits)

lemma concat_map_filter: "(\<And>x. \<not> P x \<Longrightarrow> f x = []) \<Longrightarrow> concat (map f xs) = concat (map f (filter P xs))"
  by (induction xs) auto

lemma error_called:
  assumes "error_on fd u" and "map_of (socket_info p) fd = Some info" and "si_func info = Some (Client h)"
    and "just_deleted p = []"
  shows "(h, scast (pfd_revents u) AND (si_events info OR err_bits)) \<in> set (expected_call p u)"
  using assms by (simp add: error_on_def expected_call_def Let_def and_or_zero)

text \<open>
  C25: A stale error is ignored, a real one is not. A descriptor is deleted; before the next round
  the poll set may change in any way, in particular the number may be registered again for another
  socket and function. If the next round then reports an error on that number, the round calls
  exactly the functions that the other entries stand for: nothing is called for the deleted
  descriptor, whoever owns the number now. But if the error is reported in the round after that,
  the function registered by then is called with it. The functions called are recorded and leave
  the poll set alone.
\<close>

theorem stale_error_ignored:
  assumes "fst (delSocket fd p)" and "foldR ps_step ops (snd (delSocket fd p)) = Inr q"
    and "us = snd (poll_sockets (Poll_Revents rs) (ufds (createNativePollset q)))"
    and "\<exists>u \<in> set us. error_on fd u"
  shows "\<exists>q'. update log_call (Poll_Revents rs) (q, []) =
      Inr (q', concat (map (expected_call q) (filter (\<lambda>u. \<not> error_on fd u) us)))
    \<and> (\<forall>rs' u info h. u \<in> set (snd (poll_sockets (Poll_Revents rs') (ufds (createNativePollset q'))))
        \<and> error_on fd u \<and> map_of (socket_info q) fd = Some info \<and> si_func info = Some (Client h) \<longrightarrow>
        (\<exists>q'' log. update log_call (Poll_Revents rs') (q', []) = Inr (q'', log)
          \<and> (h, scast (pfd_revents u) AND (si_events info OR err_bits)) \<in> set log))"
proof -
  have "fd \<in> set (just_deleted (snd (delSocket fd p)))"
    using assms(1) by (auto simp: delSocket_def split: option.splits if_splits)
  then have "fd \<in> set (just_deleted q)"
    by (intro foldR_inv[where f = ps_step and I = "\<lambda>s. fd \<in> set (just_deleted s)", OF _ _ assms(2)])
      (use deleted_stays in blast)+
  then have log: "concat (map (expected_call q) us)
      = concat (map (expected_call q) (filter (\<lambda>u. \<not> error_on fd u) us))"
    by (intro concat_map_filter) (simp add: stale_no_call)
  have some: "\<not> (\<forall>u \<in> set us. pfd_revents u = 0)" using assms(4) error_on_nonzero by blast
  obtain q' where q': "update log_call (Poll_Revents rs) (q, []) = Inr (q', concat (map (expected_call q) us))"
    "socket_info q' = socket_info q" "just_deleted q' = []"
    using update_log[of rs q] some unfolding assms(3)[symmetric] by auto
  have "\<exists>q'' log. update log_call (Poll_Revents rs') (q', []) = Inr (q'', log)
      \<and> (h, scast (pfd_revents u) AND (si_events info OR err_bits)) \<in> set log"
    if "u \<in> set (snd (poll_sockets (Poll_Revents rs') (ufds (createNativePollset q'))))" "error_on fd u"
      "map_of (socket_info q) fd = Some info" "si_func info = Some (Client h)" for rs' u info h
  proof -
    have "(h, scast (pfd_revents u) AND (si_events info OR err_bits)) \<in> set (expected_call q' u)"
      using error_called[of fd u q'] that q'(2,3) by simp
    then show ?thesis using update_log[of rs' q'] that(1) by (auto intro!: bexI[of _ u])
  qed
  then show ?thesis using q'(1) log by (intro exI[of _ q']) auto
qed

text \<open>Descriptor 7 is closed and used again for another socket; both rounds report a hang-up.\<close>

theorem stale_error_ignored_witness:
  "\<exists>p :: nat poll_set. \<exists>q q'. fst (delSocket 7 p)
    \<and> foldR ps_step [Add_Socket 7 2 None, Add_Events 7 POLLIN] (snd (delSocket 7 p)) = Inr q
    \<and> update log_call (Poll_Revents [16]) (q, []) = Inr (q', [])
    \<and> (\<exists>q'' log. update log_call (Poll_Revents [16]) (q', []) = Inr (q'', log) \<and> (2, POLLHUP) \<in> set log)"
proof -
  define p :: "nat poll_set" where "p = \<lparr>socket_info = [(7, \<lparr>si_transport = None, si_func = Some (Client 1),
      si_fd = 7, si_events = POLLIN\<rparr>)], sockets_changed = True, just_deleted = [], ufds = [],
      signal_pipe = (3, 4), pipe_bytes = 0, pipe_capacity = 16\<rparr>"
  define q :: "nat poll_set" where "q = \<lparr>socket_info = [(7, \<lparr>si_transport = None, si_func = Some (Client 2),
      si_fd = 7, si_events = POLLIN\<rparr>)], sockets_changed = True, just_deleted = [7], ufds = [],
      signal_pipe = (3, 4), pipe_bytes = 3, pipe_capacity = 16\<rparr>"
  define u where "u = \<lparr>pfd_fd = 7, pfd_events = 1, pfd_revents = 16\<rparr>"
  have del: "fst (delSocket 7 p)" by (simp add: p_def delSocket_def)
  have q: "foldR ps_step [Add_Socket 7 2 None, Add_Events 7 POLLIN] (snd (delSocket 7 p)) = Inr q"
    by (simp add: p_def q_def delSocket_def odel_def addSocket_def addEvents_def oset_def signal_def Let_def)
  have us: "[u] = snd (poll_sockets (Poll_Revents [16]) (ufds (createNativePollset q)))"
    by (simp add: q_def u_def createNativePollset_def poll_sockets_def poll_bits)
  have err: "error_on 7 u" by (simp add: error_on_def u_def err_bits_def poll_bits)
  have ok: "\<exists>v \<in> set [u]. error_on 7 v" using err by simp
  define q1 where "q1 = q\<lparr>just_deleted := [], ufds := [u\<lparr>pfd_revents := 0\<rparr>]\<rparr>"
  have eval: "update log_call (Poll_Revents [16]) (q, []) = Inr (q1, [])"
    by (simp add: q1_def u_def q_def update_def createNativePollset_def poll_sockets_def service_def
        clear_revents_def poll_bits err_bits_def Let_def)
  have us1: "u \<in> set (snd (poll_sockets (Poll_Revents [16]) (ufds (createNativePollset q1))))"
    by (simp add: q1_def q_def u_def createNativePollset_def poll_sockets_def poll_bits)
  define info where "info = \<lparr>si_transport = None, si_func = Some (Client (2 :: nat)), si_fd = 7, si_events = POLLIN\<rparr>"
  have reg: "map_of (socket_info q) 7 = Some info" "si_func info = Some (Client 2)" by (simp_all add: q_def info_def)
  have ev: "scast (pfd_revents u) AND (si_events info OR err_bits) = POLLHUP"
    by (simp add: u_def info_def err_bits_def poll_bits)
  have "\<exists>q'' log. update log_call (Poll_Revents [16]) (q1, []) = Inr (q'', log) \<and> (2, POLLHUP) \<in> set log"
    using stale_error_ignored[OF del q us ok] eval us1 err reg unfolding ev[symmetric] by fastforce
  then show ?thesis using del q eval by blast
qed

text \<open>
  C29: With handlers that leave the poll set alone, one round of \<open>update\<close> calls, in descriptor
  order, exactly the functions of the registered descriptors with a requested event or an
  error, each once and with the requested and error bits only; errors on descriptors deleted
  since the last round are held back.
\<close>

theorem update_calls:
  "\<exists>q. update log_call (Poll_Revents rs) (p, []) =
     Inr (q, concat (map (expected_call p) (set_revents rs (ufds (createNativePollset p)))))"
  using update_log[of rs p] by (auto simp: poll_sockets_def Let_def)


end
