(* ===== verification/Transport_TCP.thy ===== *)
theory Transport_TCP
  imports Poll_Set
begin

text \<open>
  Models the state and the socket-level operations of \<open>TransportTCP\<close>
  (\<open>src/src/transport_tcp.cpp\<close>, \<open>transport_tcp.h\<close>, \<open>transport.h\<close>): closing, reading, writing and
  the switches that tell the poll set what to wait for. Message framing is in \<open>Messages\<close>,
  connection set-up and event dispatch in \<open>Connection\<close>.

  Every operation runs on a view of the process: one transport, the poll set it shares with
  the others, the bytes the kernel took and gave on its socket, the descriptors closed so far,
  the socket options set and the calls made to the functions that the layer above installed, in order. Results of
  system calls are arguments.
\<close>

section \<open>State\<close>

record frame =
  f_data :: "byte list"
  f_size :: u32

record message =
  m_frames :: "frame list"
  m_numframes :: u32
  m_numframes_filled :: u32
  m_frame_ind :: u32
  m_frame_filled :: u32
  m_frame_sz :: u32
  m_frame_sz_filled :: u32

text \<open>
  \<open>read_cb_\<close> and \<open>write_cb_\<close> are only ever set by \<open>enableMessagePass\<close>; the callbacks of the
  layer above are named by \<open>'cb\<close>.
\<close>

datatype io_cb = Read_Message | Write_Message

record 'cb tcp =
  self :: nat
  sock :: int
  is_closed :: bool
  expecting_read :: bool
  expecting_write :: bool
  is_server :: bool
  server_port :: int
  cached_remote_host :: string
  has_poll_set :: bool
  flags :: u32
  connected_host :: string
  connected_port :: int
  messages_only :: bool
  reading :: bool
  read_msg :: message
  send_msgs :: "message list"
  msg_counter :: int
  filter_num :: int
  disconnect_cb :: "'cb option"
  read_cb :: "io_cb option"
  write_cb :: "io_cb option"
  accept_cb :: "'cb option"
  readmsg_cb :: "'cb option"

datatype 'cb upcall =
    Disconnected 'cb nat
  | Accepted 'cb "'cb tcp"
  | Received 'cb "frame list"

datatype sockopt = SO_REUSEADDR | SO_KEEPALIVE | TCP_KEEPIDLE | TCP_KEEPINTVL | TCP_KEEPCNT | TCP_NODELAY

record 'cb tw =
  conn :: "'cb tcp"
  pset :: "nat poll_set"
  sent :: "byte list"
  rcvd :: "byte list"
  closed_fds :: "int list"
  sockopts :: "(int \<times> sockopt \<times> int) list"
  upcalls :: "'cb upcall list"

definition SYNCHRONOUS :: u32 where "SYNCHRONOUS = 1"

definition synchronous :: "'cb tcp \<Rightarrow> bool" where
  "synchronous t \<longleftrightarrow> flags t AND SYNCHRONOUS \<noteq> 0"

definition INVALID_SOCKET :: int where "INVALID_SOCKET = -1"

definition INT_MAX :: u32 where "INT_MAX = 2147483647"

definition empty_message :: message where
  "empty_message = \<lparr>m_frames = [], m_numframes = 0, m_numframes_filled = 0, m_frame_ind = 0,
     m_frame_filled = 0, m_frame_sz = 0, m_frame_sz_filled = 0\<rparr>"

text \<open>
  The constructor. It leaves \<open>read_msg_\<close> and the connected port uninitialised; they are
  written before they are read, and start as zeros here.
\<close>

definition new_tcp :: "nat \<Rightarrow> bool \<Rightarrow> u32 \<Rightarrow> 'cb tcp" where
  "new_tcp i ps fl =
     \<lparr>self = i, sock = INVALID_SOCKET, is_closed = False, expecting_read = False,
      expecting_write = False, is_server = False, server_port = -1, cached_remote_host = [],
      has_poll_set = ps, flags = fl, connected_host = [], connected_port = 0,
      messages_only = False, reading = False, read_msg = empty_message, send_msgs = [],
      msg_counter = 0, filter_num = 1, disconnect_cb = None, read_cb = None, write_cb = None,
      accept_cb = None, readmsg_cb = None\<rparr>"

text \<open>The destructor asserts that the socket was closed.\<close>

definition destroy :: "'cb tcp \<Rightarrow> unit res" where
  "destroy t = ensure (sock t = -1) Assert_Failed (Inr ())"

section \<open>Closing\<close>

definition upd_conn :: "('cb tcp \<Rightarrow> 'cb tcp) \<Rightarrow> ('cb, 'm) tw_scheme \<Rightarrow> ('cb, 'm) tw_scheme" where
  "upd_conn f w = w\<lparr>conn := f (conn w)\<rparr>"

definition disconnect_call :: "'cb tcp \<Rightarrow> 'cb upcall list" where
  "disconnect_call t =
     (case disconnect_cb t of None \<Rightarrow> [] | Some cb \<Rightarrow> [Disconnected cb (self t)])"

text \<open>
  \<open>close\<close>: only the first call does anything. The socket leaves the poll set, the descriptor is
  shut down and closed, all callbacks are dropped, and the disconnect callback (saved before)
  runs last.
\<close>

definition close :: "('cb, 'm) tw_scheme \<Rightarrow> ('cb, 'm) tw_scheme res" where
  "close w =
     (let t = conn w in
      if is_closed t then Inr w
      else ensure (sock t \<noteq> INVALID_SOCKET) Assert_Failed
        (Inr (w\<lparr>conn := t\<lparr>is_closed := True, sock := INVALID_SOCKET, disconnect_cb := None,
                         read_cb := None, write_cb := None, accept_cb := None\<rparr>,
                pset := (if has_poll_set t then snd (delSocket (sock t) (pset w)) else pset w),
                closed_fds := closed_fds w @ [sock t],
                upcalls := upcalls w @ disconnect_call t\<rparr>)))"

section \<open>Reading and writing\<close>

text \<open>
  What \<open>::recv\<close> does: it delivers data (at most what was asked for; no data is the end of the
  stream), would block, or fails. What \<open>::send\<close> does: it takes some of the bytes, would block,
  or fails.
\<close>

datatype os_recv = Recv_Data "byte list" | Recv_Would_Block | Recv_Error
datatype os_send = Send_Accepts nat | Send_Would_Block | Send_Error

definition tcp_read ::
  "os_recv \<Rightarrow> u32 \<Rightarrow> ('cb, 'm) tw_scheme \<Rightarrow> (int \<times> byte list \<times> ('cb, 'm) tw_scheme) res" where
  "tcp_read r sz w =
     (if is_closed (conn w) then Inr (-1, [], w)
      else ensure (sz > 0) Assert_Failed
        (let read_size = min sz INT_MAX in
         case r of
           Recv_Error \<Rightarrow> bindR (close w) (\<lambda>w'. Inr (-1, [], w'))
         | Recv_Would_Block \<Rightarrow> Inr (0, [], w)
         | Recv_Data bs \<Rightarrow>
             let got = take (unat read_size) bs in
             if got = [] then bindR (close w) (\<lambda>w'. Inr (-1, [], w'))
             else Inr (int (length got), got, w\<lparr>rcvd := rcvd w @ got\<rparr>)))"

text \<open>\<open>buf\<close> is the memory from the given pointer on.\<close>

definition tcp_write ::
  "os_send \<Rightarrow> byte list \<Rightarrow> u32 \<Rightarrow> ('cb, 'm) tw_scheme \<Rightarrow> (int \<times> ('cb, 'm) tw_scheme) res" where
  "tcp_write r buf sz w =
     (if is_closed (conn w) then Inr (-1, w)
      else ensure (sz > 0) Assert_Failed
        (let writesize = min sz INT_MAX in
         case r of
           Send_Error \<Rightarrow> bindR (close w) (\<lambda>w'. Inr (-1, w'))
         | Send_Would_Block \<Rightarrow> Inr (0, w)
         | Send_Accepts n \<Rightarrow>
             let k = min n (unat writesize)
             in Inr (int k, w\<lparr>sent := sent w @ take k buf\<rparr>)))"

section \<open>What to wait for\<close>

definition with_poll_set ::
  "(nat poll_set \<Rightarrow> nat poll_set) \<Rightarrow> ('cb, 'm) tw_scheme \<Rightarrow> ('cb, 'm) tw_scheme res" where
  "with_poll_set f w = ensure (has_poll_set (conn w)) Null_Deref (Inr (w\<lparr>pset := f (pset w)\<rparr>))"

definition enableRead :: "('cb, 'm) tw_scheme \<Rightarrow> ('cb, 'm) tw_scheme res" where
  "enableRead w =
     ensure (\<not> synchronous (conn w)) Assert_Failed
       (if is_closed (conn w) \<or> expecting_read (conn w) then Inr w
        else bindR (with_poll_set (\<lambda>p. snd (addEvents (sock (conn w)) POLLIN p)) w)
               (\<lambda>w'. Inr (upd_conn (\<lambda>t. t\<lparr>expecting_read := True\<rparr>) w')))"

definition disableRead :: "('cb, 'm) tw_scheme \<Rightarrow> ('cb, 'm) tw_scheme res" where
  "disableRead w =
     ensure (\<not> synchronous (conn w)) Assert_Failed
       (if is_closed (conn w) \<or> \<not> expecting_read (conn w) then Inr w
        else bindR (with_poll_set (\<lambda>p. snd (delEvents (sock (conn w)) POLLIN p)) w)
               (\<lambda>w'. Inr (upd_conn (\<lambda>t. t\<lparr>expecting_read := False\<rparr>) w')))"

definition enableWrite :: "('cb, 'm) tw_scheme \<Rightarrow> ('cb, 'm) tw_scheme res" where
  "enableWrite w =
     ensure (\<not> synchronous (conn w)) Assert_Failed
       (if is_closed (conn w) \<or> expecting_write (conn w) then Inr w
        else bindR (with_poll_set (\<lambda>p. snd (addEvents (sock (conn w)) POLLOUT p)) w)
               (\<lambda>w'. Inr (upd_conn (\<lambda>t. t\<lparr>expecting_write := True\<rparr>) w')))"

definition disableWrite :: "('cb, 'm) tw_scheme \<Rightarrow> ('cb, 'm) tw_scheme res" where
  "disableWrite w =
     ensure (\<not> synchronous (conn w)) Assert_Failed
       (if is_closed (conn w) \<or> \<not> expecting_write (conn w) then Inr w
        else bindR (with_poll_set (\<lambda>p. snd (delEvents (sock (conn w)) POLLOUT p)) w)
               (\<lambda>w'. Inr (upd_conn (\<lambda>t. t\<lparr>expecting_write := False\<rparr>) w')))"

section \<open>Callbacks of the layer above\<close>

definition setDisconnectCallback :: "'cb \<Rightarrow> ('cb, 'm) tw_scheme \<Rightarrow> ('cb, 'm) tw_scheme" where
  "setDisconnectCallback cb = upd_conn (\<lambda>t. t\<lparr>disconnect_cb := Some cb\<rparr>)"

definition setReadCallback :: "io_cb \<Rightarrow> ('cb, 'm) tw_scheme \<Rightarrow> ('cb, 'm) tw_scheme" where
  "setReadCallback cb = upd_conn (\<lambda>t. t\<lparr>read_cb := Some cb\<rparr>)"

definition setWriteCallback :: "io_cb \<Rightarrow> ('cb, 'm) tw_scheme \<Rightarrow> ('cb, 'm) tw_scheme" where
  "setWriteCallback cb = upd_conn (\<lambda>t. t\<lparr>write_cb := Some cb\<rparr>)"

definition getTransportInfo :: "'cb tcp \<Rightarrow> string" where
  "getTransportInfo t = ''TCPROS connection to ['' @ cached_remote_host t @ '']''"

end
