(* ===== verification/Messages.thy ===== *)
theory Messages
  imports Transport_TCP
begin

text \<open>
  Models the message passing of \<open>TransportTCP\<close> (\<open>src/src/transport_tcp.cpp\<close>,
  \<open>enableMessagePass\<close> to \<open>setFilter\<close>): a message is a vector of frames; on the wire it is the
  number of frames, then for each frame its size and its bytes, the numbers in four bytes each.
  The poll thread calls \<open>writeMessage\<close> and \<open>readMessage\<close> when the socket is ready; every call
  makes at most one \<open>send\<close> or \<open>recv\<close> and records how far it got in the counters of the
  \<open>message\<close>, all of them \<open>uint32_t\<close>.
\<close>

section \<open>Set-up\<close>

definition enableMessagePass :: "('cb, 'm) tw_scheme \<Rightarrow> ('cb, 'm) tw_scheme" where
  "enableMessagePass w =
     setWriteCallback Write_Message
       (setReadCallback Read_Message (upd_conn (\<lambda>t. t\<lparr>messages_only := True\<rparr>) w))"

definition setMsgCallback :: "'cb \<Rightarrow> ('cb, 'm) tw_scheme \<Rightarrow> ('cb, 'm) tw_scheme" where
  "setMsgCallback cb = upd_conn (\<lambda>t. t\<lparr>readmsg_cb := Some cb\<rparr>)"

definition setFilter :: "int \<Rightarrow> ('cb, 'm) tw_scheme \<Rightarrow> ('cb, 'm) tw_scheme res" where
  "setFilter n w =
     ensure (n > 0) Assert_Failed
       (Inr (upd_conn (\<lambda>t. t\<lparr>filter_num := n, msg_counter := n - 1\<rparr>) w))"

section \<open>Sending\<close>

text \<open>
  \<open>sendFrames\<close> lets every \<open>filter_\<close>-th message through. (\<open>%\<close> of C++ and \<open>mod\<close> agree here: the
  counter is never negative and the filter is positive, see \<open>filter_ok\<close>.)
\<close>

definition sendFrames :: "frame list \<Rightarrow> ('cb, 'm) tw_scheme \<Rightarrow> ('cb, 'm) tw_scheme res" where
  "sendFrames frames w =
     ensure (messages_only (conn w)) Ros_Break
       (let w1 = upd_conn (\<lambda>t. t\<lparr>msg_counter := (msg_counter t + 1) mod filter_num t\<rparr>) w
        in if msg_counter (conn w1) \<noteq> 0 then Inr w1
           else ensure (frames \<noteq> []) Out_Of_Range
             (let msg = \<lparr>m_frames = frames, m_numframes = of_nat (length frames),
                         m_numframes_filled = 0, m_frame_ind = 0, m_frame_filled = 0,
                         m_frame_sz = f_size (frames ! 0), m_frame_sz_filled = 0\<rparr>
              in bindR (if send_msgs (conn w1) = [] then enableWrite w1 else Inr w1)
                   (\<lambda>w2. Inr (upd_conn (\<lambda>t. t\<lparr>send_msgs := send_msgs t @ [msg]\<rparr>) w2))))"

definition sendMessage ::
  "byte list \<Rightarrow> u32 \<Rightarrow> ('cb, 'm) tw_scheme \<Rightarrow> ('cb, 'm) tw_scheme res" where
  "sendMessage buffer sz w = sendFrames [\<lparr>f_data = buffer, f_size = sz\<rparr>] w"

text \<open>The queued messages are shared pointers; \<open>writeMessage\<close> updates the front one in place.\<close>

definition set_front :: "message \<Rightarrow> ('cb, 'm) tw_scheme \<Rightarrow> ('cb, 'm) tw_scheme" where
  "set_front m = upd_conn (\<lambda>t. t\<lparr>send_msgs := m # tl (send_msgs t)\<rparr>)"

text \<open>The end of \<open>writeFrame\<close>: move on when the current frame is done.\<close>

definition finish_frame :: "message \<Rightarrow> ('cb, 'm) tw_scheme \<Rightarrow> ('cb, 'm) tw_scheme res" where
  "finish_frame m w =
     (if m_frame_filled m = f_size (m_frames m ! unat (m_frame_ind m)) then
        let m' = m\<lparr>m_frame_ind := m_frame_ind m + 1\<rparr> in
        if unat (m_frame_ind m') < length (m_frames m') then
          Inr (set_front (m'\<lparr>m_frame_filled := 0,
                             m_frame_sz := f_size (m_frames m' ! unat (m_frame_ind m')),
                             m_frame_sz_filled := 0\<rparr>) w)
        else
          let w' = upd_conn (\<lambda>t. t\<lparr>send_msgs := tl (send_msgs t)\<rparr>) w
          in if send_msgs (conn w') = [] then disableWrite w' else Inr w'
      else Inr (set_front m w))"

text \<open>
  In the payload branch the code keeps the result of \<open>write\<close> in a \<open>uint32_t\<close> and tests it for
  \<open>>= 0\<close>; the test is kept as it is written.
\<close>

definition writeFrame ::
  "os_send \<Rightarrow> message \<Rightarrow> ('cb, 'm) tw_scheme \<Rightarrow> ('cb, 'm) tw_scheme res" where
  "writeFrame r m w =
     ensure (unat (m_frame_ind m) < length (m_frames m)) Out_Of_Range
       (let frame = m_frames m ! unat (m_frame_ind m) in
        if m_frame_sz_filled m < 4 then
          let left = 4 - m_frame_sz_filled m in
          bindR (tcp_write r (drop (unat (m_frame_sz_filled m)) (u32_bytes (m_frame_sz m))) left w)
            (\<lambda>(wrote, w'). if wrote \<ge> 0
               then finish_frame (m\<lparr>m_frame_sz_filled := m_frame_sz_filled m + of_int wrote\<rparr>) w'
               else close w')
        else
          let left = f_size frame - m_frame_filled m in
          if left > 0 then
            bindR (tcp_write r (drop (unat (m_frame_filled m)) (f_data frame)) left w)
              (\<lambda>(n, w'). let wrote = of_int n :: u32 in
                 if wrote \<ge> 0
                 then finish_frame (m\<lparr>m_frame_filled := m_frame_filled m + wrote\<rparr>) w'
                 else close w')
          else finish_frame m w)"

definition writeMessage :: "os_send \<Rightarrow> ('cb, 'm) tw_scheme \<Rightarrow> ('cb, 'm) tw_scheme res" where
  "writeMessage r w =
     (case send_msgs (conn w) of
        [] \<Rightarrow> Inl Ros_Break
      | m # _ \<Rightarrow>
          if m_numframes_filled m < 4 then
            bindR (tcp_write r (drop (unat (m_numframes_filled m)) (u32_bytes (m_numframes m)))
                     (4 - m_numframes_filled m) w)
              (\<lambda>(wrote, w'). if wrote \<ge> 0
                 then Inr (set_front
                        (m\<lparr>m_numframes_filled := m_numframes_filled m + of_int wrote\<rparr>) w')
                 else close w')
          else writeFrame r m w)"

section \<open>Receiving\<close>

definition set_read_msg :: "message \<Rightarrow> ('cb, 'm) tw_scheme \<Rightarrow> ('cb, 'm) tw_scheme" where
  "set_read_msg m = upd_conn (\<lambda>t. t\<lparr>read_msg := m\<rparr>)"

definition start_message :: "message \<Rightarrow> message" where
  "start_message m = m\<lparr>m_frames := [], m_numframes_filled := 0, m_frame_ind := 0,
     m_frame_filled := 0, m_frame_sz_filled := 0\<rparr>"

definition empty_frame :: frame where
  "empty_frame = \<lparr>f_data = [], f_size = 0\<rparr>"

definition resize_frames :: "nat \<Rightarrow> frame list \<Rightarrow> frame list" where
  "resize_frames n fs = take n fs @ replicate (n - length fs) empty_frame"

definition overwrite :: "'a list \<Rightarrow> nat \<Rightarrow> 'a list \<Rightarrow> 'a list" where
  "overwrite buf k bs = take k buf @ bs @ drop (k + length bs) buf"

text \<open>
  The end of \<open>readFrame\<close>. A fresh \<open>new uint8_t[n]\<close> holds indeterminate bytes, zeros here; the
  properties show that none of them is ever handed on.
\<close>

definition end_frame :: "message \<Rightarrow> ('cb, 'm) tw_scheme \<Rightarrow> ('cb, 'm) tw_scheme res" where
  "end_frame m w =
     (if m_frame_filled m = f_size (m_frames m ! unat (m_frame_ind m)) then
        let m' = m\<lparr>m_frame_ind := m_frame_ind m + 1, m_frame_filled := 0, m_frame_sz_filled := 0\<rparr>;
            w' = set_read_msg m' w
        in if unat (m_frame_ind m') = length (m_frames m') then
             (case readmsg_cb (conn w') of
                None \<Rightarrow> Inl Bad_Call
              | Some cb \<Rightarrow>
                  Inr (upd_conn (\<lambda>t. t\<lparr>reading := False\<rparr>)
                         (w'\<lparr>upcalls := upcalls w' @ [Received cb (m_frames m')]\<rparr>)))
           else Inr w'
      else Inr (set_read_msg m w))"

definition set_frame :: "frame \<Rightarrow> message \<Rightarrow> message" where
  "set_frame f m = m\<lparr>m_frames := (m_frames m)[unat (m_frame_ind m) := f]\<rparr>"

definition readFrame :: "os_recv \<Rightarrow> ('cb, 'm) tw_scheme \<Rightarrow> ('cb, 'm) tw_scheme res" where
  "readFrame r w =
     (let m = read_msg (conn w) in
      ensure (unat (m_frame_ind m) < length (m_frames m)) Out_Of_Range
        (let frame = m_frames m ! unat (m_frame_ind m) in
         if m_frame_sz_filled m < 4 then
           let to_read = 4 - m_frame_sz_filled m in
           bindR (tcp_read r to_read w)
             (\<lambda>(n, bs, w'). if n < 0 then Inr w'
                else
                  let f1 = frame\<lparr>f_size := poke_u32 (f_size frame) (unat (m_frame_sz_filled m)) bs\<rparr>;
                      filled = m_frame_sz_filled m + of_int n;
                      f2 = (if filled = 4 then f1\<lparr>f_data := replicate (unat (f_size f1)) 0\<rparr> else f1)
                  in end_frame (set_frame f2 (m\<lparr>m_frame_sz_filled := filled\<rparr>)) w')
         else
           let to_read = f_size frame - m_frame_filled m in
           if to_read > 0 then
             bindR (tcp_read r to_read w)
               (\<lambda>(n, bs, w'). if n < 0 then Inr w'
                  else
                    let f1 = frame\<lparr>f_data := overwrite (f_data frame) (unat (m_frame_filled m)) bs\<rparr>
                    in end_frame (set_frame f1 (m\<lparr>m_frame_filled := m_frame_filled m + of_int n\<rparr>)) w')
           else end_frame m w))"

definition readMessage :: "os_recv \<Rightarrow> ('cb, 'm) tw_scheme \<Rightarrow> ('cb, 'm) tw_scheme res" where
  "readMessage r w =
     ensure (messages_only (conn w)) Ros_Break
       (let w1 = (if \<not> reading (conn w)
                  then upd_conn (\<lambda>t. t\<lparr>read_msg := start_message (read_msg t), reading := True\<rparr>) w
                  else w);
            m = read_msg (conn w1)
        in if m_numframes_filled m < 4 then
             bindR (tcp_read r (4 - m_numframes_filled m) w1)
               (\<lambda>(n, bs, w2). if n < 0 then Inr w2
                  else
                    let m' = m\<lparr>m_numframes := poke_u32 (m_numframes m) (unat (m_numframes_filled m)) bs,
                               m_numframes_filled := m_numframes_filled m + of_int n\<rparr>
                    in if m_numframes_filled m' = 4 then
                         bindR (if m_numframes m' = 0 then close w2 else Inr w2)
                           (\<lambda>w3. Inr (set_read_msg
                              (m'\<lparr>m_frames := resize_frames (unat (m_numframes m')) (m_frames m')\<rparr>) w3))
                       else Inr (set_read_msg m' w2))
           else readFrame r w1)"

end
