(* ===== verification/Framing.thy ===== *)
theory Framing
  imports Messages
begin

text \<open>
  The wire format of a message as a specification (\<open>enc_msg\<close>), and the proof that
  \<open>writeMessage\<close> produces it: \<open>pending\<close> is what the queue still has to put on the wire, every
  write step moves a prefix of it to the kernel, and \<open>sendFrames\<close> appends an encoding to it.
  The one exception, the header of an empty frame written in pieces, is made explicit
  (\<open>short_empty_header\<close>).
\<close>

section \<open>The wire format\<close>

definition payload :: "frame \<Rightarrow> byte list" where
  "payload f = take (unat (f_size f)) (f_data f)"

definition enc_frame :: "frame \<Rightarrow> byte list" where
  "enc_frame f = u32_bytes (f_size f) @ payload f"

definition enc_msg :: "frame list \<Rightarrow> byte list" where
  "enc_msg fs = u32_bytes (of_nat (length fs)) @ concat (map enc_frame fs)"

text \<open>A frame the program may send: its buffer holds at least \<open>size\<close> bytes.\<close>

definition frame_ok :: "frame \<Rightarrow> bool" where
  "frame_ok f \<longleftrightarrow> unat (f_size f) \<le> length (f_data f)"

section \<open>What a message still has to put on the wire\<close>

definition frames_rest :: "message \<Rightarrow> byte list" where
  "frames_rest m =
     (let f = m_frames m ! unat (m_frame_ind m)
      in drop (unat (m_frame_sz_filled m)) (u32_bytes (f_size f))
         @ drop (unat (m_frame_filled m)) (payload f)
         @ concat (map enc_frame (drop (Suc (unat (m_frame_ind m))) (m_frames m))))"

definition msg_rest :: "message \<Rightarrow> byte list" where
  "msg_rest m = drop (unat (m_numframes_filled m)) (u32_bytes (m_numframes m)) @ frames_rest m"

definition pending :: "'cb tcp \<Rightarrow> byte list" where
  "pending t = concat (map msg_rest (send_msgs t))"

text \<open>
  The invariant of a queued message. \<open>wr_mid\<close> is the state between a write and the check at
  the end of \<open>writeFrame\<close>, where the current frame may be complete.
\<close>

definition wr_mid :: "message \<Rightarrow> bool" where
  "wr_mid m \<longleftrightarrow>
     (let f = m_frames m ! unat (m_frame_ind m) in
      unat (m_numframes_filled m) \<le> 4 \<and> unat (m_frame_ind m) < length (m_frames m)
      \<and> length (m_frames m) < 2 ^ 32 \<and> m_numframes m = of_nat (length (m_frames m))
      \<and> m_frame_sz m = f_size f \<and> unat (m_frame_sz_filled m) \<le> 4
      \<and> (unat (m_numframes_filled m) < 4 \<longrightarrow> m_frame_ind m = 0 \<and> m_frame_sz_filled m = 0)
      \<and> (unat (m_frame_sz_filled m) < 4 \<longrightarrow> m_frame_filled m = 0)
      \<and> m_frame_filled m \<le> f_size f
      \<and> (\<forall>f \<in> set (m_frames m). frame_ok f))"

definition wr_ok :: "message \<Rightarrow> bool" where
  "wr_ok m \<longleftrightarrow> wr_mid m
     \<and> (unat (m_frame_sz_filled m) = 4 \<longrightarrow>
          m_frame_filled m < f_size (m_frames m ! unat (m_frame_ind m)))"

lemma upd_conn_simps [simp]:
  "conn (upd_conn f w) = f (conn w)" "pset (upd_conn f w) = pset w"
  "sent (upd_conn f w) = sent w" "rcvd (upd_conn f w) = rcvd w"
  "closed_fds (upd_conn f w) = closed_fds w" "upcalls (upd_conn f w) = upcalls w"
  by (simp_all add: upd_conn_def)

lemma set_front_simps [simp]:
  "conn (set_front m w) = (conn w)\<lparr>send_msgs := m # tl (send_msgs (conn w))\<rparr>"
  "pset (set_front m w) = pset w" "sent (set_front m w) = sent w"
  "rcvd (set_front m w) = rcvd w" "upcalls (set_front m w) = upcalls w"
  "closed_fds (set_front m w) = closed_fds w"
  by (simp_all add: set_front_def)

text \<open>The four switches differ from a no-op in the poll set and their own flag only.\<close>

lemma switch_result:
  "enableRead w = Inr w' \<Longrightarrow> w' = w \<or>
     w' = w\<lparr>pset := snd (addEvents (sock (conn w)) POLLIN (pset w)),
            conn := (conn w)\<lparr>expecting_read := True\<rparr>\<rparr>"
  "disableRead w = Inr w' \<Longrightarrow> w' = w \<or>
     w' = w\<lparr>pset := snd (delEvents (sock (conn w)) POLLIN (pset w)),
            conn := (conn w)\<lparr>expecting_read := False\<rparr>\<rparr>"
  "enableWrite w = Inr w' \<Longrightarrow> w' = w \<or>
     w' = w\<lparr>pset := snd (addEvents (sock (conn w)) POLLOUT (pset w)),
            conn := (conn w)\<lparr>expecting_write := True\<rparr>\<rparr>"
  "disableWrite w = Inr w' \<Longrightarrow> w' = w \<or>
     w' = w\<lparr>pset := snd (delEvents (sock (conn w)) POLLOUT (pset w)),
            conn := (conn w)\<lparr>expecting_write := False\<rparr>\<rparr>"
  by (auto simp: enableRead_def disableRead_def enableWrite_def disableWrite_def with_poll_set_def
      upd_conn_def res_simps split: if_splits)

lemma close_result:
  assumes "close w = Inr w'"
  shows "sent w' = sent w \<and> rcvd w' = rcvd w \<and> is_closed (conn w')
    \<and> send_msgs (conn w') = send_msgs (conn w) \<and> read_msg (conn w') = read_msg (conn w)
    \<and> reading (conn w') = reading (conn w) \<and> messages_only (conn w') = messages_only (conn w)"
  using assms by (auto simp: close_def Let_def res_simps split: if_splits)

lemma tcp_write_result:
  assumes "tcp_write r buf sz w = Inr (n, w')" and "\<not> is_closed (conn w)"
  obtains (took) k where "n = int k" "k \<le> unat sz" "w' = w\<lparr>sent := sent w @ take k buf\<rparr>"
      "r = Send_Would_Block \<and> k = 0 \<or> (\<exists>j. r = Send_Accepts j \<and> k = min j (unat (min sz INT_MAX)))"
  | (failed) "n = -1" "r = Send_Error" "close w = Inr w'"
  using assms
  by (auto simp: tcp_write_def Let_def res_simps min_def word_le_nat_alt split: os_send.splits if_splits)

lemma frames_rest_done:
  assumes "wr_mid m" and "m_frame_filled m = f_size (m_frames m ! unat (m_frame_ind m))"
    and "unat (m_frame_sz_filled m) = 4"
  shows "frames_rest m = concat (map enc_frame (drop (Suc (unat (m_frame_ind m))) (m_frames m)))"
  using assms by (simp add: frames_rest_def payload_def Let_def)

lemma wr_mid_next:
  assumes "wr_mid m" and "unat (m_numframes_filled m) = 4"
    and "Suc (unat (m_frame_ind m)) < length (m_frames m)"
    and "m' = m\<lparr>m_frame_ind := m_frame_ind m + 1, m_frame_filled := 0,
              m_frame_sz := f_size (m_frames m ! Suc (unat (m_frame_ind m))), m_frame_sz_filled := 0\<rparr>"
  shows "wr_ok m'"
    and "msg_rest m' = concat (map enc_frame (drop (Suc (unat (m_frame_ind m))) (m_frames m)))"
proof -
  have i: "unat (m_frame_ind m + 1) = Suc (unat (m_frame_ind m))"
    using assms(1,3) unat_add_of_nat[of "m_frame_ind m" 1] by (simp add: wr_mid_def Let_def)
  show "wr_ok m'" using assms i by (simp add: wr_ok_def wr_mid_def Let_def)
  show "msg_rest m' = concat (map enc_frame (drop (Suc (unat (m_frame_ind m))) (m_frames m)))"
    using assms i
    by (simp add: msg_rest_def frames_rest_def enc_frame_def Let_def Cons_nth_drop_Suc[symmetric])
qed

lemma disableWrite_keeps:
  assumes "disableWrite w = Inr w'"
  shows "sent w' = sent w \<and> send_msgs (conn w') = send_msgs (conn w)
    \<and> is_closed (conn w') = is_closed (conn w)"
  using switch_result(4)[OF assms] by auto

lemma finish_frame_sends:
  assumes mid: "wr_mid m" and nf: "unat (m_numframes_filled m) = 4"
    and queue: "send_msgs (conn w) = m0 # ms" "\<forall>x \<in> set ms. wr_ok x"
    and ret: "finish_frame m w = Inr w'"
  shows "sent w' = sent w \<and> (\<forall>x \<in> set (send_msgs (conn w')). wr_ok x)
    \<and> is_closed (conn w') = is_closed (conn w)
    \<and> ((unat (m_frame_sz_filled m) < 4 \<longrightarrow> f_size (m_frames m ! unat (m_frame_ind m)) \<noteq> 0) \<longrightarrow>
         pending (conn w') = msg_rest m @ concat (map msg_rest ms))"
proof (cases "m_frame_filled m = f_size (m_frames m ! unat (m_frame_ind m))")
  case False
  then have "wr_ok m" using mid by (auto simp: wr_ok_def wr_mid_def Let_def word_gt_0)
  with False ret queue show ?thesis by (auto simp: finish_frame_def pending_def)
next
  case True
  have rest: "msg_rest m = concat (map enc_frame (drop (Suc (unat (m_frame_ind m))) (m_frames m)))"
    if "unat (m_frame_sz_filled m) < 4 \<longrightarrow> f_size (m_frames m ! unat (m_frame_ind m)) \<noteq> 0"
    using frames_rest_done[OF mid True] mid nf True that
    by (fastforce simp: msg_rest_def wr_mid_def Let_def)
  have i: "unat (m_frame_ind m + 1) = Suc (unat (m_frame_ind m))"
    using mid unat_add_of_nat[of "m_frame_ind m" 1] by (simp add: wr_mid_def Let_def)
  show ?thesis
  proof (cases "Suc (unat (m_frame_ind m)) < length (m_frames m)")
    case more: True
    show ?thesis
      using ret True more i queue wr_mid_next[OF mid nf more refl] rest
      by (auto simp: finish_frame_def Let_def pending_def)
  next
    case False
    then show ?thesis
      using ret True i queue rest
      by (auto simp: finish_frame_def Let_def pending_def dest!: disableWrite_keeps split: if_splits)
  qed
qed

text \<open>
  The one hazard: the header of an empty frame is written in pieces. The check at the end of
  \<open>writeFrame\<close> then finds \<open>frame_filled == frame.size\<close> with part of the header unsent.
\<close>

definition short_empty_header :: "os_send \<Rightarrow> message \<Rightarrow> bool" where
  "short_empty_header r m \<longleftrightarrow>
     unat (m_numframes_filled m) = 4 \<and> unat (m_frame_sz_filled m) < 4
     \<and> f_size (m_frames m ! unat (m_frame_ind m)) = 0
     \<and> (case r of Send_Accepts n \<Rightarrow> n < 4 - unat (m_frame_sz_filled m) | _ \<Rightarrow> True)"

text \<open>What one write step does: it keeps the queue well-formed, and moves bytes to the kernel.\<close>

definition write_step_ok ::
  "bool \<Rightarrow> ('cb, 'm) tw_scheme \<Rightarrow> ('cb, 'm) tw_scheme \<Rightarrow> bool" where
  "write_step_ok safe w w' \<longleftrightarrow>
     (\<forall>x \<in> set (send_msgs (conn w')). wr_ok x) \<and> \<not> is_closed (conn w')
     \<and> (\<exists>out. sent w' = sent w @ out \<and> (safe \<longrightarrow> pending (conn w) = out @ pending (conn w')))"

lemma write_size_step:
  assumes ok: "wr_ok m" and nf: "unat (m_numframes_filled m) = 4"
    and queue: "send_msgs (conn w) = m # ms" "\<forall>x \<in> set ms. wr_ok x"
    and opn: "\<not> is_closed (conn w)" and alive: "r \<noteq> Send_Error"
    and lt: "unat (m_frame_sz_filled m) < 4" and ret: "writeFrame r m w = Inr w'"
  shows "write_step_ok (\<not> short_empty_header r m) w w'"
proof -
  let ?f = "m_frames m ! unat (m_frame_ind m)"
  let ?left = "4 - m_frame_sz_filled m" and ?k0 = "unat (m_frame_sz_filled m)"
  have mid: "wr_mid m" using ok by (simp add: wr_ok_def)
  have left: "unat ?left = 4 - ?k0" using lt by (simp add: unat_4_minus)
  obtain n w1 where wr: "tcp_write r (drop ?k0 (u32_bytes (m_frame_sz m))) ?left w = Inr (n, w1)"
    and fin: "(if n \<ge> 0 then finish_frame (m\<lparr>m_frame_sz_filled := m_frame_sz_filled m + of_int n\<rparr>) w1
      else close w1) = Inr w'"
    using ret lt mid by (auto simp: writeFrame_def Let_def res_simps less_4_iff wr_mid_def)
  obtain k where took: "n = int k" "k \<le> unat ?left"
      "w1 = w\<lparr>sent := sent w @ take k (drop ?k0 (u32_bytes (m_frame_sz m)))\<rparr>"
      "r = Send_Would_Block \<and> k = 0 \<or> (\<exists>j. r = Send_Accepts j \<and> k = min j (unat (min ?left INT_MAX)))"
    using wr opn alive by (auto elim: tcp_write_result)
  let ?m = "m\<lparr>m_frame_sz_filled := m_frame_sz_filled m + of_nat k\<rparr>"
  have k: "unat (m_frame_sz_filled m + of_nat k) = ?k0 + k"
    using took(2) left lt by (intro unat_add_of_nat) simp
  have kle: "?k0 + k \<le> 4" using took(2) left lt by simp
  have mid': "wr_mid ?m" using mid lt k kle nf by (auto simp: wr_mid_def Let_def)
  have "min ?left INT_MAX = ?left"
    using left by (intro min_absorb1) (simp add: word_le_nat_alt INT_MAX_def)
  then have ne: "f_size ?f \<noteq> 0" if "?k0 + k < 4" "\<not> short_empty_header r m"
    using that took(4) nf lt by (auto simp: short_empty_header_def left)
  have fin': "finish_frame ?m w1 = Inr w'" using fin took(1) by simp
  have w1: "send_msgs (conn w1) = m # ms" "\<not> is_closed (conn w1)"
    using took(3) queue(1) opn by simp_all
  have "msg_rest m = take k (drop ?k0 (u32_bytes (m_frame_sz m))) @ msg_rest ?m"
    using k nf mid append_take_drop_id[of k "drop ?k0 (u32_bytes (m_frame_sz m))"]
    by (simp add: msg_rest_def frames_rest_def Let_def wr_mid_def add.commute[of k])
  then show ?thesis
    using finish_frame_sends[OF mid' _ w1(1) queue(2) fin'] nf k ne w1(2) took(3) queue(1)
    by (auto simp: pending_def write_step_ok_def)
qed

lemma write_payload_step:
  assumes ok: "wr_ok m" and nf: "unat (m_numframes_filled m) = 4"
    and queue: "send_msgs (conn w) = m # ms" "\<forall>x \<in> set ms. wr_ok x"
    and opn: "\<not> is_closed (conn w)" and alive: "r \<noteq> Send_Error"
    and sz: "unat (m_frame_sz_filled m) = 4" and ret: "writeFrame r m w = Inr w'"
  shows "write_step_ok safe w w'"
proof -
  let ?f = "m_frames m ! unat (m_frame_ind m)"
  let ?left = "f_size ?f - m_frame_filled m" and ?k0 = "unat (m_frame_filled m)"
  have mid: "wr_mid m" and less: "m_frame_filled m < f_size ?f"
    using ok sz by (simp_all add: wr_ok_def)
  have left: "unat ?left = unat (f_size ?f) - ?k0" using less by (simp add: unat_sub)
  have pos: "0 < ?left" using less left by (simp add: word_less_nat_alt)
  obtain n w1 where wr: "tcp_write r (drop ?k0 (f_data ?f)) ?left w = Inr (n, w1)"
    and fin: "finish_frame (m\<lparr>m_frame_filled := m_frame_filled m + of_int n\<rparr>) w1 = Inr w'"
    using ret sz mid pos by (auto simp: writeFrame_def Let_def res_simps less_4_iff wr_mid_def)
  obtain k where took: "n = int k" "k \<le> unat ?left"
      "w1 = w\<lparr>sent := sent w @ take k (drop ?k0 (f_data ?f))\<rparr>"
    using wr opn alive by (auto elim: tcp_write_result)
  let ?m = "m\<lparr>m_frame_filled := m_frame_filled m + of_nat k\<rparr>"
  have kle: "?k0 + k \<le> unat (f_size ?f)"
    using took(2) left less by (simp add: word_less_nat_alt)
  have k: "unat (m_frame_filled m + of_nat k) = ?k0 + k"
    using kle u32_bound[of "f_size ?f"] by (intro unat_add_of_nat) simp
  have mid': "wr_mid ?m"
    using mid sz k kle by (simp add: wr_mid_def Let_def word_le_nat_alt)
  have fin': "finish_frame ?m w1 = Inr w'" using fin took(1) by simp
  have w1: "send_msgs (conn w1) = m # ms" "\<not> is_closed (conn w1)"
    using took(3) queue(1) opn by simp_all
  have "drop ?k0 (payload ?f) = take k (drop ?k0 (f_data ?f)) @ drop (?k0 + k) (payload ?f)"
    unfolding payload_def using kle by (rule drop_take_split)
  then have "msg_rest m = take k (drop ?k0 (f_data ?f)) @ msg_rest ?m"
    using k nf sz by (simp add: msg_rest_def frames_rest_def Let_def)
  then show ?thesis
    using finish_frame_sends[OF mid' _ w1(1) queue(2) fin'] nf sz w1(2) took(3) queue(1)
    by (auto simp: pending_def write_step_ok_def)
qed

lemma write_count_step:
  assumes ok: "wr_ok m" and lt: "unat (m_numframes_filled m) < 4"
    and queue: "send_msgs (conn w) = m # ms" "\<forall>x \<in> set ms. wr_ok x"
    and opn: "\<not> is_closed (conn w)" and alive: "r \<noteq> Send_Error"
    and ret: "writeMessage r w = Inr w'"
  shows "write_step_ok safe w w'"
proof -
  let ?left = "4 - m_numframes_filled m" and ?k0 = "unat (m_numframes_filled m)"
  have left: "unat ?left = 4 - ?k0" using lt by (simp add: unat_4_minus)
  obtain n w1 where wr: "tcp_write r (drop ?k0 (u32_bytes (m_numframes m))) ?left w = Inr (n, w1)"
    and fin: "(if n \<ge> 0
      then Inr (set_front (m\<lparr>m_numframes_filled := m_numframes_filled m + of_int n\<rparr>) w1)
      else close w1) = Inr w'"
    using ret lt queue(1) by (auto simp: writeMessage_def res_simps less_4_iff)
  obtain k where took: "n = int k" "k \<le> unat ?left"
      "w1 = w\<lparr>sent := sent w @ take k (drop ?k0 (u32_bytes (m_numframes m)))\<rparr>"
    using wr opn alive by (auto elim: tcp_write_result)
  let ?m = "m\<lparr>m_numframes_filled := m_numframes_filled m + of_nat k\<rparr>"
  have k: "unat (m_numframes_filled m + of_nat k) = ?k0 + k"
    using took(2) left lt by (intro unat_add_of_nat) simp
  have "wr_ok ?m" using ok lt k took(2) left by (auto simp: wr_ok_def wr_mid_def Let_def)
  moreover have "msg_rest m = take k (drop ?k0 (u32_bytes (m_numframes m))) @ msg_rest ?m"
    using k append_take_drop_id[of k "drop ?k0 (u32_bytes (m_numframes m))"]
    by (simp add: msg_rest_def frames_rest_def Let_def add.commute[of k])
  ultimately show ?thesis
    using fin took queue opn by (auto simp: pending_def write_step_ok_def)
qed

lemma writeMessage_step:
  assumes "\<forall>x \<in> set (send_msgs (conn w)). wr_ok x" and "\<not> is_closed (conn w)"
    and "r \<noteq> Send_Error" and ret: "writeMessage r w = Inr w'"
  shows "write_step_ok (\<not> short_empty_header r (hd (send_msgs (conn w)))) w w'"
proof -
  obtain m ms where q: "send_msgs (conn w) = m # ms"
    using ret by (auto simp: writeMessage_def split: list.splits)
  have mid: "wr_mid m" using q assms(1) by (simp add: wr_ok_def)
  have frame: "writeFrame r m w = Inr w'" if "\<not> unat (m_numframes_filled m) < 4"
    using ret q that by (simp add: writeMessage_def less_4_iff)
  consider "unat (m_numframes_filled m) < 4"
    | "unat (m_numframes_filled m) = 4" "unat (m_frame_sz_filled m) < 4"
    | "unat (m_numframes_filled m) = 4" "unat (m_frame_sz_filled m) = 4"
    using mid by (fastforce simp: wr_mid_def Let_def)
  then show ?thesis
    by cases (use write_count_step write_size_step write_payload_step frame assms q in auto)
qed

end
