(* ===== verification/Sending.thy ===== *)
theory Sending
  imports Framing
begin

text \<open>
  The sending side of a transport over whole histories (\<open>sendFrames\<close> and \<open>writeMessage\<close> of
  \<open>src/src/transport_tcp.cpp\<close>): what a write step cannot change, that it returns, that it makes
  progress; then \<open>send_run\<close>, the histories of posts and write rounds, and \<open>flush\<close>, the rounds that
  empty the queue.
\<close>

section \<open>Write steps\<close>

lemma close_closed [simp]: "is_closed (conn w) \<Longrightarrow> close w = Inr w"
  by (simp add: close_def Let_def)

lemma close_returns: "sock (conn w) \<noteq> INVALID_SOCKET \<Longrightarrow> \<exists>w'. close w = Inr w'"
  by (simp add: close_def Let_def)

text \<open>What no read or write step of a transport changes.\<close>

definition same_setup :: "'cb tcp \<Rightarrow> 'cb tcp \<Rightarrow> bool" where
  "same_setup t t' \<longleftrightarrow> filter_num t' = filter_num t \<and> msg_counter t' = msg_counter t
     \<and> flags t' = flags t \<and> has_poll_set t' = has_poll_set t
     \<and> messages_only t' = messages_only t \<and> self t' = self t \<and> is_server t' = is_server t"

lemma same_setup_refl [simp]: "same_setup t t"
  by (simp add: same_setup_def)

lemma same_setup_trans: "same_setup t u \<Longrightarrow> same_setup u v \<Longrightarrow> same_setup t v"
  by (simp add: same_setup_def)

lemma same_setup_upd [simp]:
  "same_setup t (t\<lparr>send_msgs := q\<rparr>)" "same_setup t (t\<lparr>read_msg := m\<rparr>)"
  "same_setup t (t\<lparr>expecting_write := b\<rparr>)" "same_setup t (t\<lparr>expecting_read := b\<rparr>)"
  "same_setup t (t\<lparr>reading := b\<rparr>)"
  "same_setup t (u\<lparr>send_msgs := q\<rparr>) = same_setup t u"
  by (simp_all add: same_setup_def)

lemma close_setup: "close w = Inr w' \<Longrightarrow> same_setup (conn w) (conn w')"
  by (auto simp: close_def Let_def res_simps same_setup_def split: if_splits)

lemma finish_frame_keeps:
  "finish_frame m w = Inr w' \<Longrightarrow> sent w' = sent w \<and> is_closed (conn w') = is_closed (conn w)
    \<and> same_setup (conn w) (conn w')"
  by (auto simp: finish_frame_def Let_def dest!: switch_result(4) split: if_splits)
    (auto simp: same_setup_def)

text \<open>
  The shape of a write step: at most one \<open>write\<close>, then an update of the front message, the
  check at the end of a frame, or \<open>close\<close>.
\<close>

definition write_ends :: "(int \<times> ('cb, 'm) tw_scheme \<Rightarrow> ('cb, 'm) tw_scheme res) \<Rightarrow> bool" where
  "write_ends F \<longleftrightarrow> (\<forall>n w. F (n, w) = close w \<or> (\<exists>m. F (n, w) = finish_frame m w)
     \<or> (\<exists>m. F (n, w) = Inr (set_front m w)))"

lemma writeMessage_shape:
  assumes q: "send_msgs (conn w) = m # ms" and ok: "wr_ok m"
  shows "\<exists>buf sz F. 0 < sz \<and> buf \<noteq> [] \<and> write_ends F
    \<and> writeMessage r w = bindR (tcp_write r buf sz w) F"
proof -
  have ind: "unat (m_frame_ind m) < length (m_frames m)"
    using ok by (simp add: wr_ok_def wr_mid_def Let_def)
  have pos: "0 < (4 - x :: u32)" if "x < 4" for x :: u32
    using that by (simp add: word_gt_0 less_4_iff unat_eq_zero[symmetric] unat_4_minus)
  have found: ?thesis
    if "0 < sz" "buf \<noteq> []" "writeMessage r w = bindR (tcp_write r buf sz w) F"
      "\<And>n w1. F (n, w1) = close w1 \<or> (\<exists>m. F (n, w1) = finish_frame m w1)
        \<or> (\<exists>m. F (n, w1) = Inr (set_front m w1))" for buf sz F
    using that unfolding write_ends_def by blast
  consider "m_numframes_filled m < 4"
    | "\<not> m_numframes_filled m < 4" "m_frame_sz_filled m < 4"
    | "\<not> m_numframes_filled m < 4" "\<not> m_frame_sz_filled m < 4"
    by blast
  then show ?thesis
  proof cases
    case 1
    then show ?thesis
      by (intro found[OF pos[OF 1]]) (auto simp: writeMessage_def q less_4_iff, blast)
  next
    case 2
    then show ?thesis
      by (intro found[OF pos[OF 2(2)]])
        (auto simp: writeMessage_def writeFrame_def q ind Let_def less_4_iff)
  next
    case 3
    then have less: "m_frame_filled m < f_size (m_frames m ! unat (m_frame_ind m))"
      using ok by (auto simp: wr_ok_def wr_mid_def Let_def less_4_iff)
    then have "0 < f_size (m_frames m ! unat (m_frame_ind m)) - m_frame_filled m"
      by (auto simp: word_gt_0)
    moreover have "frame_ok (m_frames m ! unat (m_frame_ind m))"
      using ok ind by (simp add: wr_ok_def wr_mid_def Let_def)
    then have "drop (unat (m_frame_filled m)) (f_data (m_frames m ! unat (m_frame_ind m))) \<noteq> []"
      using less by (simp add: frame_ok_def word_less_nat_alt)
    ultimately show ?thesis
      using 3 by (intro found) (auto simp: writeMessage_def writeFrame_def q ind Let_def)
  qed
qed

lemma write_ends_keeps:
  assumes "write_ends F" and "F (n, w) = Inr w'"
  shows "(is_closed (conn w) \<longrightarrow> is_closed (conn w')) \<and> sent w' = sent w
    \<and> same_setup (conn w) (conn w')"
proof -
  consider "close w = Inr w'" | m where "finish_frame m w = Inr w'" | m where "w' = set_front m w"
    using assms(1)[unfolded write_ends_def, rule_format, of n w] assms(2) by auto
  then show ?thesis by cases (auto dest: finish_frame_keeps close_result close_setup)
qed

lemma writeMessage_setup:
  assumes "writeMessage r w = Inr w'" and "\<forall>x \<in> set (send_msgs (conn w)). wr_ok x"
  shows "same_setup (conn w) (conn w')"
proof -
  obtain m ms where q: "send_msgs (conn w) = m # ms"
    using assms(1) by (auto simp: writeMessage_def split: list.splits)
  obtain buf sz F where F: "write_ends F" "writeMessage r w = bindR (tcp_write r buf sz w) F"
    using writeMessage_shape[OF q] assms(2) q by (metis list.set_intros(1))
  obtain n w1 where w1: "tcp_write r buf sz w = Inr (n, w1)" "F (n, w1) = Inr w'"
    using assms(1) F(2) by (auto simp: res_simps)
  have "same_setup (conn w) (conn w1)"
    using w1(1) by (auto simp: tcp_write_def Let_def res_simps close_setup
        split: if_splits os_send.splits)
  then show ?thesis using write_ends_keeps[OF F(1) w1(2)] by (auto intro: same_setup_trans)
qed

lemma writeMessage_error:
  assumes "writeMessage Send_Error w = Inr w'" and "\<not> is_closed (conn w)"
    and "\<forall>x \<in> set (send_msgs (conn w)). wr_ok x"
  shows "is_closed (conn w') \<and> sent w' = sent w"
proof -
  obtain m ms where q: "send_msgs (conn w) = m # ms"
    using assms(1) by (auto simp: writeMessage_def split: list.splits)
  obtain buf sz F where F: "write_ends F"
    "writeMessage Send_Error w = bindR (tcp_write Send_Error buf sz w) F"
    using writeMessage_shape[OF q] assms(3) q by (metis list.set_intros(1))
  obtain n w1 where w1: "tcp_write Send_Error buf sz w = Inr (n, w1)" "F (n, w1) = Inr w'"
    using assms(1) F(2) by (auto simp: res_simps)
  then have "close w = Inr w1" using assms(2) by (auto elim: tcp_write_result)
  then show ?thesis using close_result write_ends_keeps[OF F(1) w1(2)] by metis
qed

lemma writeMessage_progress:
  assumes "writeMessage (Send_Accepts n) w = Inr w'" and "0 < n" and "\<not> is_closed (conn w)"
    and "\<forall>x \<in> set (send_msgs (conn w)). wr_ok x"
  shows "length (sent w) < length (sent w')"
proof -
  obtain m ms where q: "send_msgs (conn w) = m # ms"
    using assms(1) by (auto simp: writeMessage_def split: list.splits)
  obtain buf sz F where F: "0 < sz" "buf \<noteq> []" "write_ends F"
    "writeMessage (Send_Accepts n) w = bindR (tcp_write (Send_Accepts n) buf sz w) F"
    using writeMessage_shape[OF q] assms(4) q by (metis list.set_intros(1))
  obtain i w1 where w1: "tcp_write (Send_Accepts n) buf sz w = Inr (i, w1)" "F (i, w1) = Inr w'"
    using assms(1) F(4) by (auto simp: res_simps)
  have "0 < unat (min sz INT_MAX)"
    using F(1) by (auto simp: min_def INT_MAX_def word_less_nat_alt)
  then have "length (sent w) < length (sent w1)"
    using w1(1) assms(2,3) F(1,2) by (auto simp: tcp_write_def Let_def)
  then show ?thesis using write_ends_keeps[OF F(3) w1(2)] by simp
qed

section \<open>Safety of sending\<close>

text \<open>
  An asynchronous transport with a poll set, whose socket is still there unless closed: what
  the switches and \<open>close\<close> need in order to return.
\<close>

definition usable :: "'cb tcp \<Rightarrow> bool" where
  "usable t \<longleftrightarrow> \<not> synchronous t \<and> has_poll_set t \<and> (\<not> is_closed t \<longrightarrow> 0 \<le> sock t)"

lemma usable_close: "usable (conn w) \<Longrightarrow> \<exists>w'. close w = Inr w' \<and> usable (conn w')"
  by (cases "is_closed (conn w)") (auto simp: close_def Let_def usable_def synchronous_def INVALID_SOCKET_def)

lemma usable_switch:
  assumes "usable (conn w)"
  shows "\<exists>w'. enableRead w = Inr w'" "\<exists>w'. disableRead w = Inr w'"
    "\<exists>w'. enableWrite w = Inr w'" "\<exists>w'. disableWrite w = Inr w'"
  using assms
  by (simp_all add: usable_def enableRead_def disableRead_def enableWrite_def disableWrite_def
      with_poll_set_def)

lemma usable_upd [simp]:
  "usable (t\<lparr>send_msgs := q\<rparr>) = usable t" "usable (t\<lparr>read_msg := m\<rparr>) = usable t"
  "usable (t\<lparr>expecting_write := b\<rparr>) = usable t" "usable (t\<lparr>expecting_read := b\<rparr>) = usable t"
  "usable (t\<lparr>msg_counter := c\<rparr>) = usable t" "usable (t\<lparr>reading := b\<rparr>) = usable t"
  by (simp_all add: usable_def synchronous_def)

lemma tcp_write_returns:
  assumes "usable (conn w)" and "0 < sz"
  shows "\<exists>n w'. tcp_write r buf sz w = Inr (n, w') \<and> usable (conn w')"
  using assms usable_close[OF assms(1)]
  by (cases r) (auto simp: tcp_write_def Let_def)

lemma finish_frame_returns:
  assumes "usable (conn w)"
  shows "\<exists>w'. finish_frame m w = Inr w' \<and> usable (conn w')"
proof -
  have dis: "\<exists>w'. disableWrite v = Inr w' \<and> usable (conn w')"
    if use: "usable (conn v)" for v :: "('a, 'b) tw_scheme"
  proof -
    obtain w' where w': "disableWrite v = Inr w'" using usable_switch(4)[OF use] by blast
    then have "usable (conn w')" using switch_result(4)[OF w'] use by auto
    with w' show ?thesis by blast
  qed
  show ?thesis
    using assms by (auto simp: finish_frame_def Let_def intro!: dis)
qed

lemma writeMessage_returns:
  assumes use: "usable (conn w)" and q: "send_msgs (conn w) = m # ms" and ok: "wr_ok m"
  shows "\<exists>w'. writeMessage r w = Inr w' \<and> usable (conn w')"
proof -
  obtain buf sz F where F: "0 < sz" "write_ends F" "writeMessage r w = bindR (tcp_write r buf sz w) F"
    using writeMessage_shape[OF q ok] by metis
  obtain n w1 where w1: "tcp_write r buf sz w = Inr (n, w1)" "usable (conn w1)"
    using tcp_write_returns[OF use F(1)] by blast
  have front: "usable (conn (set_front m w1))" for m using w1(2) by simp
  have "\<exists>w'. F (n, w1) = Inr w' \<and> usable (conn w')"
    using F(2) finish_frame_returns[OF w1(2)] usable_close[OF w1(2)] front
    unfolding write_ends_def by metis
  then show ?thesis using F(3) w1(1) by simp
qed

section \<open>Queueing\<close>

definition sendable :: "frame list \<Rightarrow> bool" where
  "sendable fs \<longleftrightarrow> fs \<noteq> [] \<and> length fs < 2 ^ 32 \<and> (\<forall>f \<in> set fs. frame_ok f)"

definition filter_ok :: "'cb tcp \<Rightarrow> bool" where
  "filter_ok t \<longleftrightarrow> 0 < filter_num t \<and> 0 \<le> msg_counter t \<and> msg_counter t < filter_num t"

lemma sendFrames_step:
  assumes "sendFrames fs w = Inr w'" and "sendable fs"
    and "\<forall>x \<in> set (send_msgs (conn w)). wr_ok x"
  shows "sent w' = sent w \<and> is_closed (conn w') = is_closed (conn w)
    \<and> filter_num (conn w') = filter_num (conn w)
    \<and> msg_counter (conn w') = (msg_counter (conn w) + 1) mod filter_num (conn w)
    \<and> (\<forall>x \<in> set (send_msgs (conn w')). wr_ok x)
    \<and> pending (conn w') = pending (conn w)
        @ (if (msg_counter (conn w) + 1) mod filter_num (conn w) = 0 then enc_msg fs else [])"
proof -
  define m where "m = \<lparr>m_frames = fs, m_numframes = of_nat (length fs),
     m_numframes_filled = 0, m_frame_ind = 0, m_frame_filled = 0,
     m_frame_sz = f_size (fs ! 0), m_frame_sz_filled = 0\<rparr>"
  obtain f fs' where fs: "fs = f # fs'" using assms(2) by (cases fs) (auto simp: sendable_def)
  have m: "wr_ok m" "msg_rest m = enc_msg fs"
    using assms(2)
    by (auto simp: m_def sendable_def wr_ok_def wr_mid_def Let_def msg_rest_def frames_rest_def
        enc_msg_def enc_frame_def fs)
  show ?thesis
    using assms(1,3) m
    by (auto simp: sendFrames_def Let_def res_simps pending_def m_def[symmetric]
        dest!: switch_result(3) split: if_splits)
qed

text \<open>
  A history of a transport that sends: messages posted from any thread and rounds of the poll
  thread. Left out are write rounds in which \<open>send\<close> fails (\<open>write\<close> then closes the connection, and the
  history of the stream is over) and those that hit \<open>short_empty_header\<close>.
\<close>

datatype send_event = Post "frame list" | Writable os_send

inductive send_run :: "('cb, 'm) tw_scheme \<Rightarrow> send_event list \<Rightarrow> ('cb, 'm) tw_scheme \<Rightarrow> bool" where
  finished: "send_run w [] w"
| post: "sendable fs \<Longrightarrow> sendFrames fs w = Inr w1 \<Longrightarrow> send_run w1 es w'
    \<Longrightarrow> send_run w (Post fs # es) w'"
| writable: "r \<noteq> Send_Error \<Longrightarrow> \<not> short_empty_header r (hd (send_msgs (conn w)))
    \<Longrightarrow> writeMessage r w = Inr w1 \<Longrightarrow> send_run w1 es w' \<Longrightarrow> send_run w (Writable r # es) w'"

fun posted :: "send_event list \<Rightarrow> frame list list" where
  "posted [] = []"
| "posted (Post fs # es) = fs # posted es"
| "posted (Writable r # es) = posted es"

text \<open>What the filter lets through: with counter \<open>c\<close>, every message that brings it to 0.\<close>

fun decimate :: "int \<Rightarrow> int \<Rightarrow> 'a list \<Rightarrow> 'a list" where
  "decimate n c [] = []"
| "decimate n c (x # xs) =
     (if (c + 1) mod n = 0 then x # decimate n ((c + 1) mod n) xs
      else decimate n ((c + 1) mod n) xs)"

lemma send_run_stream:
  assumes "send_run w es w'" and "\<not> is_closed (conn w)" and "\<forall>m \<in> set (send_msgs (conn w)). wr_ok m"
  shows "sent w' @ pending (conn w') = sent w @ pending (conn w)
      @ concat (map enc_msg (decimate (filter_num (conn w)) (msg_counter (conn w)) (posted es)))
    \<and> (\<forall>m \<in> set (send_msgs (conn w')). wr_ok m) \<and> \<not> is_closed (conn w')"
  using assms
proof (induction rule: send_run.induct)
  case (finished w)
  then show ?case by simp
next
  case (post fs w w1 es w')
  then show ?case using sendFrames_step[OF post(2,1)] by (auto simp: Let_def)
next
  case (writable r w w1 es w')
  have "write_step_ok True w w1" "same_setup (conn w) (conn w1)"
    using writeMessage_step[OF writable.prems(2,1) writable.hyps(1,3)] writable.hyps(2)
      writeMessage_setup[OF writable.hyps(3) writable.prems(2)] by simp_all
  with writable.IH show ?case by (auto simp: write_step_ok_def same_setup_def)
qed

section \<open>Properties\<close>

text \<open>
  C13: The byte stream of a connection is faithful. Over any interleaving of posted well-formed
  messages and write rounds in which no \<open>send\<close> fails and none hits the defect \<open>short_empty_header\<close>,
  the bytes on the wire followed by those still pending are the encodings of exactly the messages
  the filter let through, in the order they were posted: nothing lost, repeated or torn. Each
  \<open>send\<close> may take any number of bytes, except that it must not take less than what is left of the
  size header of an empty frame: \<open>short_empty_header\<close> is such a round, in which the code loses the
  rest of the header (shown in \<open>Channel\<close>).
\<close>

theorem send_stream:
  assumes "send_run w es w'" and "\<not> is_closed (conn w)" and "\<forall>m \<in> set (send_msgs (conn w)). wr_ok m"
  shows "sent w' @ pending (conn w') = sent w @ pending (conn w)
      @ concat (map enc_msg (decimate (filter_num (conn w)) (msg_counter (conn w)) (posted es)))
    \<and> (\<forall>m \<in> set (send_msgs (conn w')). wr_ok m) \<and> \<not> is_closed (conn w')"
  using send_run_stream[OF assms] .

text \<open>The poll thread keeps calling \<open>writeMessage\<close> as long as there is something to send.\<close>

fun flush :: "os_send list \<Rightarrow> ('cb, 'm) tw_scheme \<Rightarrow> ('cb, 'm) tw_scheme res" where
  "flush [] w = Inr w"
| "flush (r # rs) w =
     (if send_msgs (conn w) = [] then Inr w else bindR (writeMessage r w) (flush rs))"

lemma msg_rest_nonempty: "wr_ok m \<Longrightarrow> msg_rest m \<noteq> []"
proof -
  assume ok: "wr_ok m"
  let ?f = "m_frames m ! unat (m_frame_ind m)"
  have "drop (unat (m_frame_filled m)) (payload ?f) \<noteq> []"
    if "unat (m_frame_sz_filled m) = 4"
    using ok that nth_mem[of "unat (m_frame_ind m)" "m_frames m"]
    by (auto simp: wr_ok_def wr_mid_def Let_def frame_ok_def payload_def word_less_nat_alt)
  then show ?thesis
    using ok by (auto simp: msg_rest_def frames_rest_def wr_ok_def wr_mid_def Let_def)
qed

lemma pending_Nil: "\<forall>m \<in> set (send_msgs t). wr_ok m \<Longrightarrow> pending t = [] \<longleftrightarrow> send_msgs t = []"
  using msg_rest_nonempty by (cases "send_msgs t") (auto simp: pending_def)

text \<open>
  C26: Sending ends. If every \<open>send\<close> takes at least four bytes (or all that is left), then after at
  most as many write rounds as there are bytes pending the queue is empty, all pending bytes
  are on the wire in order, no round aborted and the connection is still open.
\<close>

theorem flush_drains:
  assumes "usable (conn w)" and "\<not> is_closed (conn w)"
    and "\<forall>m \<in> set (send_msgs (conn w)). wr_ok m"
    and "length (pending (conn w)) \<le> length rs"
    and "\<forall>r \<in> set rs. \<exists>n \<ge> 4. r = Send_Accepts n"
  shows "\<exists>w'. flush rs w = Inr w' \<and> send_msgs (conn w') = [] \<and> \<not> is_closed (conn w')
    \<and> sent w' = sent w @ pending (conn w)"
  using assms
proof (induction rs arbitrary: w)
  case Nil
  then have "send_msgs (conn w) = []" using pending_Nil by auto
  then show ?case using Nil by (simp add: pending_def)
next
  case (Cons r rs)
  show ?case
  proof (cases "send_msgs (conn w)")
    case Nil
    then show ?thesis using Cons.prems by (simp add: pending_def)
  next
    case q: (Cons m ms)
    obtain n where r: "r = Send_Accepts n" "4 \<le> n" using Cons.prems(5) by auto
    obtain w1 where w1: "writeMessage r w = Inr w1" "usable (conn w1)"
      using writeMessage_returns[OF Cons.prems(1) q] Cons.prems(3) q by auto
    have "\<not> short_empty_header r m" using r by (auto simp: short_empty_header_def)
    then have step: "write_step_ok True w w1"
      using writeMessage_step[OF Cons.prems(3,2) _ w1(1)] r q by simp
    then obtain out where out: "sent w1 = sent w @ out" "pending (conn w) = out @ pending (conn w1)"
      by (auto simp: write_step_ok_def)
    have "length (sent w) < length (sent w1)"
      using writeMessage_progress[of n w w1] w1(1) r Cons.prems(2,3) by simp
    then have "length (pending (conn w1)) \<le> length rs" using out Cons.prems(4) by (cases out) simp_all
    then show ?thesis
      using Cons.IH[OF w1(2)] step out w1(1) q Cons.prems(5)
      by (auto simp: write_step_ok_def)
  qed
qed


text \<open>A connected transport in message mode, for the examples.\<close>

definition sample_world :: "nat tw" where
  "sample_world =
     \<lparr>conn = (new_tcp 1 True 0)\<lparr>sock := 7, messages_only := True, read_cb := Some Read_Message,
        write_cb := Some Write_Message, readmsg_cb := Some 5, disconnect_cb := Some 6,
        expecting_read := True\<rparr>,
      pset = \<lparr>socket_info =
          [(3, \<lparr>si_transport = None, si_func = Some On_Local_Pipe, si_fd = 3, si_events = POLLIN\<rparr>),
           (7, \<lparr>si_transport = Some 1, si_func = Some (Client 1), si_fd = 7, si_events = POLLIN\<rparr>)],
        sockets_changed = True, just_deleted = [], ufds = [], signal_pipe = (3, 4),
        pipe_bytes = 0, pipe_capacity = 16\<rparr>,
      sent = [], rcvd = [], closed_fds = [], sockopts = [], upcalls = []\<rparr>"

theorem send_stream_witness:
  "\<exists>w'. send_run sample_world [Post [\<lparr>f_data = [1, 2], f_size = 2\<rparr>], Writable (Send_Accepts 3),
       Writable (Send_Accepts 1), Writable (Send_Accepts 9)] w'
     \<and> sent w' @ pending (conn w') = enc_msg [\<lparr>f_data = [1, 2], f_size = 2\<rparr>]"
proof -
  let ?es = "[Post [\<lparr>f_data = [1, 2], f_size = 2\<rparr>], Writable (Send_Accepts 3),
       Writable (Send_Accepts 1), Writable (Send_Accepts 9)]"
  have "\<exists>w'. send_run sample_world ?es w'"
    by (rule exI, (rule send_run.post send_run.writable send_run.finished
        | (simp add: sample_world_def new_tcp_def sendFrames_def writeMessage_def writeFrame_def
            finish_frame_def tcp_write_def sendable_def frame_ok_def upd_conn_def enableWrite_def
            synchronous_def with_poll_set_def set_front_def INT_MAX_def short_empty_header_def
            Let_def; fail))+)
  then obtain w' where w': "send_run sample_world ?es w'" by blast
  have "\<not> is_closed (conn sample_world)" "\<forall>m \<in> set (send_msgs (conn sample_world)). wr_ok m"
    by (simp_all add: sample_world_def new_tcp_def)
  from send_stream[OF w' this] w' show ?thesis
    by (auto simp: sample_world_def new_tcp_def pending_def)
qed

theorem flush_drains_witness:
  "\<exists>w w'. sendFrames [\<lparr>f_data = [1, 2], f_size = 2\<rparr>] sample_world = Inr w
     \<and> flush (replicate 10 (Send_Accepts 4)) w = Inr w' \<and> send_msgs (conn w') = []
     \<and> sent w' = enc_msg [\<lparr>f_data = [1, 2], f_size = 2\<rparr>]"
proof -
  let ?fs = "[\<lparr>f_data = [1, 2], f_size = 2\<rparr>]"
  obtain w where w: "sendFrames ?fs sample_world = Inr w" and use: "usable (conn w)"
    by (simp add: sample_world_def new_tcp_def sendFrames_def upd_conn_def enableWrite_def
        synchronous_def with_poll_set_def Let_def usable_def)
  have "sendable ?fs" by (simp add: sendable_def frame_ok_def)
  from sendFrames_step[OF w this]
  have st: "\<not> is_closed (conn w)" "\<forall>m \<in> set (send_msgs (conn w)). wr_ok m"
    "sent w = []" "pending (conn w) = enc_msg ?fs"
    by (auto simp: sample_world_def new_tcp_def pending_def)
  have "length (pending (conn w)) \<le> length (replicate 10 (Send_Accepts 4))"
    by (simp add: st(4) enc_msg_def enc_frame_def payload_def)
  moreover have "\<forall>r \<in> set (replicate 10 (Send_Accepts 4)). \<exists>n \<ge> 4. r = Send_Accepts n" by simp
  ultimately show ?thesis
    using flush_drains[OF use st(1,2)] w st(3,4) by fastforce
qed

end
