(* ===== verification/Receiving.thy ===== *)
theory Receiving
  imports Sending
begin

text \<open>
  The receiving side of a transport (\<open>readMessage\<close> and \<open>readFrame\<close> of
  \<open>src/src/transport_tcp.cpp\<close>): the invariant of a partly received message, what each read step
  does with the bytes it got, that every step returns, and \<open>recv_run\<close>, the histories of read
  rounds. \<open>short_size\<close> makes the one exception explicit: a frame whose size arrives in pieces.
\<close>

section \<open>What has been received of the current message\<close>

definition frame_part :: "message \<Rightarrow> byte list" where
  "frame_part m =
     (let f = m_frames m ! unat (m_frame_ind m)
      in concat (map enc_frame (take (unat (m_frame_ind m)) (m_frames m)))
         @ take (unat (m_frame_sz_filled m)) (u32_bytes (f_size f))
         @ take (unat (m_frame_filled m)) (f_data f))"

definition consumed :: "message \<Rightarrow> byte list" where
  "consumed m =
     take (unat (m_numframes_filled m)) (u32_bytes (m_numframes m))
     @ (if unat (m_numframes_filled m) < 4 then [] else frame_part m)"

definition rd_data :: "'cb tcp \<Rightarrow> byte list" where
  "rd_data t = (if reading t then consumed (read_msg t) else [])"

text \<open>A frame whose buffer holds exactly its size; a completed frame is one.\<close>

definition exact :: "frame \<Rightarrow> bool" where
  "exact f \<longleftrightarrow> length (f_data f) = unat (f_size f)"

definition received_ok :: "frame list \<Rightarrow> bool" where
  "received_ok fs \<longleftrightarrow> fs \<noteq> [] \<and> length fs < 2 ^ 32 \<and> list_all exact fs"

definition rd_mid :: "message \<Rightarrow> bool" where
  "rd_mid m \<longleftrightarrow>
     (let f = m_frames m ! unat (m_frame_ind m) in
      unat (m_numframes_filled m) = 4 \<and> unat (m_frame_ind m) < length (m_frames m)
      \<and> length (m_frames m) = unat (m_numframes m) \<and> unat (m_frame_sz_filled m) \<le> 4
      \<and> (unat (m_frame_sz_filled m) < 4 \<longrightarrow> m_frame_filled m = 0 \<and> f_data f = [])
      \<and> (unat (m_frame_sz_filled m) = 4 \<longrightarrow> exact f)
      \<and> m_frame_filled m \<le> f_size f
      \<and> (\<forall>i < unat (m_frame_ind m). exact (m_frames m ! i))
      \<and> (\<forall>i < length (m_frames m). unat (m_frame_ind m) < i \<longrightarrow> m_frames m ! i = empty_frame))"

definition rd_ok :: "message \<Rightarrow> bool" where
  "rd_ok m \<longleftrightarrow>
     (if unat (m_numframes_filled m) < 4
      then m_frames m = [] \<and> m_frame_ind m = 0 \<and> m_frame_filled m = 0 \<and> m_frame_sz_filled m = 0
      else rd_mid m \<and> (unat (m_frame_sz_filled m) = 4 \<longrightarrow>
             m_frame_filled m < f_size (m_frames m ! unat (m_frame_ind m))))"

definition rd_inv :: "'cb tcp \<Rightarrow> bool" where
  "rd_inv t \<longleftrightarrow> (reading t \<longrightarrow> rd_ok (read_msg t))"

lemma set_read_msg_simps [simp]:
  "conn (set_read_msg m w) = (conn w)\<lparr>read_msg := m\<rparr>"
  "pset (set_read_msg m w) = pset w" "sent (set_read_msg m w) = sent w"
  "rcvd (set_read_msg m w) = rcvd w" "upcalls (set_read_msg m w) = upcalls w"
  "closed_fds (set_read_msg m w) = closed_fds w"
  by (simp_all add: set_read_msg_def)

text \<open>
  What a read step does with the bytes it got: they extend the current message, or complete it
  and hand its frames on.
\<close>

definition took_in ::
  "byte list \<Rightarrow> ('cb, 'm) tw_scheme \<Rightarrow> ('cb, 'm) tw_scheme \<Rightarrow> bool" where
  "took_in got w w' \<longleftrightarrow>
     (upcalls w' = upcalls w \<and> rd_data (conn w) @ got = rd_data (conn w'))
     \<or> (\<exists>cb fs. upcalls w' = upcalls w @ [Received cb fs] \<and> readmsg_cb (conn w) = Some cb
          \<and> rd_data (conn w) @ got = enc_msg fs \<and> \<not> reading (conn w') \<and> received_ok fs)"

lemma rd_mid_next:
  assumes "rd_mid m" and "Suc (unat (m_frame_ind m)) < length (m_frames m)"
    and "exact (m_frames m ! unat (m_frame_ind m))"
    and "m' = m\<lparr>m_frame_ind := m_frame_ind m + 1, m_frame_filled := 0, m_frame_sz_filled := 0\<rparr>"
  shows "rd_ok m'"
proof -
  have i: "unat (m_frame_ind m + 1) = Suc (unat (m_frame_ind m))"
    using assms(1,2) unat_add_of_nat[of "m_frame_ind m" 1] u32_bound[of "m_numframes m"]
    by (simp add: rd_mid_def Let_def)
  show ?thesis
    using assms i
    by (auto simp: rd_ok_def rd_mid_def Let_def less_Suc_eq empty_frame_def)
qed

lemma frame_part_done:
  assumes "rd_mid m" and "m_frame_filled m = f_size (m_frames m ! unat (m_frame_ind m))"
    and "unat (m_frame_sz_filled m) = 4"
  shows "frame_part m = concat (map enc_frame (take (Suc (unat (m_frame_ind m))) (m_frames m)))"
  using assms
  by (simp add: frame_part_def rd_mid_def Let_def take_Suc_conv_app_nth enc_frame_def payload_def)

lemma end_frame_step:
  assumes mid: "rd_mid m" and cb: "readmsg_cb (conn w) = Some cb" and rd: "reading (conn w)"
    and ret: "end_frame m w = Inr w'"
  shows "rd_inv (conn w') \<and> is_closed (conn w') = is_closed (conn w) \<and> rcvd w' = rcvd w
    \<and> ((unat (m_frame_sz_filled m) < 4 \<longrightarrow> f_size (m_frames m ! unat (m_frame_ind m)) \<noteq> 0) \<longrightarrow>
        (upcalls w' = upcalls w \<and> rd_data (conn w') = consumed m)
        \<or> (\<exists>fs. upcalls w' = upcalls w @ [Received cb fs] \<and> consumed m = enc_msg fs
             \<and> \<not> reading (conn w') \<and> received_ok fs))"
proof (cases "m_frame_filled m = f_size (m_frames m ! unat (m_frame_ind m))")
  case False
  then have "rd_ok m" using mid by (auto simp: rd_ok_def rd_mid_def Let_def word_gt_0)
  with False ret rd show ?thesis by (auto simp: end_frame_def rd_inv_def rd_data_def)
next
  case True
  let ?i = "unat (m_frame_ind m)"
  have ex: "exact (m_frames m ! ?i)"
    using mid True by (auto simp: rd_mid_def Let_def exact_def)
  have i: "unat (m_frame_ind m + 1) = Suc ?i"
    using mid unat_add_of_nat[of "m_frame_ind m" 1] u32_bound[of "m_numframes m"]
    by (simp add: rd_mid_def Let_def)
  have part: "frame_part m = concat (map enc_frame (take (Suc ?i) (m_frames m)))"
    if "unat (m_frame_sz_filled m) < 4 \<longrightarrow> f_size (m_frames m ! ?i) \<noteq> 0"
    using frame_part_done[OF mid True] mid True that by (fastforce simp: rd_mid_def Let_def)
  have n4: "unat (m_numframes_filled m) = 4" "?i < length (m_frames m)"
    "length (m_frames m) = unat (m_numframes m)"
    using mid by (simp_all add: rd_mid_def Let_def)
  show ?thesis
  proof (cases "Suc ?i < length (m_frames m)")
    case more: True
    show ?thesis
      using ret True more i rd rd_mid_next[OF mid more ex refl] part n4
      by (auto simp: end_frame_def Let_def rd_inv_def rd_data_def consumed_def frame_part_def)
  next
    case False
    then have last: "Suc ?i = length (m_frames m)" using n4(2) by simp
    have "\<forall>n < Suc ?i. exact (m_frames m ! n)"
      using mid ex by (auto simp: rd_mid_def Let_def less_Suc_eq)
    then have "received_ok (m_frames m)"
      using n4(2,3) u32_bound[of "m_numframes m"] by (auto simp: received_ok_def list_all_length last)
    moreover have "consumed m = enc_msg (m_frames m)"
      if "unat (m_frame_sz_filled m) < 4 \<longrightarrow> f_size (m_frames m ! ?i) \<noteq> 0"
      using part[OF that] n4 last by (simp add: consumed_def enc_msg_def)
    ultimately show ?thesis
      using ret True i last cb n4(2) by (auto simp: end_frame_def Let_def rd_inv_def)
  qed
qed


text \<open>
  The hazard on this side: a \<open>recv\<close> inside a frame header leaves it incomplete while the bytes
  of \<open>frame.size\<close> received so far are all zero. The check at the end of \<open>readFrame\<close> then takes
  the frame for an empty one.
\<close>

definition short_size :: "os_recv \<Rightarrow> message \<Rightarrow> bool" where
  "short_size r m \<longleftrightarrow>
     unat (m_numframes_filled m) = 4 \<and> unat (m_frame_sz_filled m) < 4
     \<and> (let k = unat (m_frame_sz_filled m);
            bs = (case r of Recv_Data ds \<Rightarrow> take (4 - k) ds | _ \<Rightarrow> [])
        in k + length bs < 4 \<and> poke_u32 (f_size (m_frames m ! unat (m_frame_ind m))) k bs = 0)"

lemma tcp_read_result:
  assumes "tcp_read r sz w = Inr (n, bs, w')" and "\<not> is_closed (conn w)"
  obtains (got) "n = int (length bs)" "length bs \<le> unat sz" "w' = w\<lparr>rcvd := rcvd w @ bs\<rparr>"
      "bs = (case r of Recv_Data ds \<Rightarrow> take (unat (min sz INT_MAX)) ds | _ \<Rightarrow> [])"
  | (ended) "n = -1" "close w = Inr w'"
proof (cases r)
  case (Recv_Data ds)
  let ?got = "take (unat (min sz INT_MAX)) ds"
  have "unat (min sz INT_MAX) \<le> unat sz" by (simp add: min_def word_le_nat_alt)
  then have len: "length ?got \<le> unat sz" by simp
  have eq: "0 < sz" "tcp_read r sz w = (if ?got = [] then bindR (close w) (\<lambda>w'. Inr (-1, [], w'))
      else Inr (int (length ?got), ?got, w\<lparr>rcvd := rcvd w @ ?got\<rparr>))"
    using assms Recv_Data by (simp_all add: tcp_read_def Let_def res_simps)
  show ?thesis
  proof (cases "?got = []")
    case True
    have "bindR (close w) (\<lambda>w'. Inr (-1, [], w')) = Inr (n, bs, w')"
      using eq(2) assms(1) by (simp only: if_P[OF True])
    then have "n = -1" "close w = Inr w'" by (simp_all add: res_simps)
    then show ?thesis by (rule that(2))
  next
    case False
    then have "Inr (n, bs, w') = (Inr (int (length ?got), ?got, w\<lparr>rcvd := rcvd w @ ?got\<rparr>)
        :: (int \<times> byte list \<times> ('a, 'b) tw_scheme) res)"
      using eq(2) assms(1) by (simp only: False if_False simp_thms)
    then have "n = int (length ?got)" "bs = ?got" "w' = w\<lparr>rcvd := rcvd w @ ?got\<rparr>" by blast+
    then show ?thesis using that(1) len Recv_Data by simp
  qed
next
  case Recv_Would_Block
  then show ?thesis using that assms by (auto simp: tcp_read_def res_simps)
next
  case Recv_Error
  then show ?thesis using that assms by (auto simp: tcp_read_def res_simps)
qed

definition read_step_ok ::
  "bool \<Rightarrow> ('cb, 'm) tw_scheme \<Rightarrow> ('cb, 'm) tw_scheme \<Rightarrow> bool" where
  "read_step_ok safe w w' \<longleftrightarrow> (\<not> is_closed (conn w') \<longrightarrow>
     rd_inv (conn w') \<and> (\<exists>got. rcvd w' = rcvd w @ got \<and> (safe \<longrightarrow> took_in got w w')))"

lemma read_size_step:
  assumes ok: "rd_ok (read_msg (conn w))" and rd: "reading (conn w)"
    and opn: "\<not> is_closed (conn w)" and cb: "readmsg_cb (conn w) = Some cb"
    and nf: "unat (m_numframes_filled (read_msg (conn w))) = 4"
    and lt: "unat (m_frame_sz_filled (read_msg (conn w))) < 4"
    and ret: "readFrame r w = Inr w'"
  shows "read_step_ok (\<not> short_size r (read_msg (conn w))) w w'"
proof -
  define m where "m = read_msg (conn w)"
  let ?i = "unat (m_frame_ind m)" and ?k = "unat (m_frame_sz_filled m)"
  let ?f = "m_frames m ! ?i"
  have mid: "rd_mid m" using ok nf by (simp add: rd_ok_def m_def)
  have left: "unat (4 - m_frame_sz_filled m) = 4 - ?k" using lt by (simp add: m_def unat_4_minus)
  obtain n bs w1 where rc: "tcp_read r (4 - m_frame_sz_filled m) w = Inr (n, bs, w1)"
    and fin: "(if n < 0 then Inr w1 else
       (let f1 = ?f\<lparr>f_size := poke_u32 (f_size ?f) ?k bs\<rparr>;
            filled = m_frame_sz_filled m + of_int n;
            f2 = (if filled = 4 then f1\<lparr>f_data := replicate (unat (f_size f1)) 0\<rparr> else f1)
        in end_frame (set_frame f2 (m\<lparr>m_frame_sz_filled := filled\<rparr>)) w1)) = Inr w'"
    using ret lt mid by (auto simp: readFrame_def Let_def res_simps less_4_iff rd_mid_def m_def[symmetric])
  from rc opn show ?thesis
  proof (cases rule: tcp_read_result)
    case ended
    then show ?thesis using fin close_result[of w w1] by (auto simp: read_step_ok_def)
  next
    case got
    let ?b = "length bs"
    let ?filled = "m_frame_sz_filled m + of_nat ?b"
    let ?f1 = "?f\<lparr>f_size := poke_u32 (f_size ?f) ?k bs\<rparr>"
    let ?f2 = "if ?filled = 4 then ?f1\<lparr>f_data := replicate (unat (f_size ?f1)) 0\<rparr> else ?f1"
    let ?m = "set_frame ?f2 (m\<lparr>m_frame_sz_filled := ?filled\<rparr>)"
    have kb: "?k + ?b \<le> 4" using got(2) left lt by (simp add: m_def)
    have k: "unat ?filled = ?k + ?b" using kb by (intro unat_add_of_nat) simp
    have k4: "?filled = 4 \<longleftrightarrow> ?k + ?b = 4" by (simp add: word_unat_eq_iff k del: of_nat_numeral)
    have i: "?i < length (m_frames m)" using mid by (simp add: rd_mid_def Let_def)
    have mid': "rd_mid ?m"
      using mid k kb k4 lt i
      by (auto simp: rd_mid_def Let_def set_frame_def exact_def m_def[symmetric] nth_list_update)
    have cons: "consumed ?m = consumed m @ bs"
      using mid lt i k kb take_u32_bytes_poke[OF kb, of "f_size ?f"]
      by (auto simp: consumed_def frame_part_def set_frame_def Let_def rd_mid_def m_def[symmetric])
    have "min (4 - m_frame_sz_filled m) INT_MAX = 4 - m_frame_sz_filled m"
      using left by (intro min_absorb1) (simp add: word_le_nat_alt INT_MAX_def)
    then have ne: "f_size (m_frames ?m ! unat (m_frame_ind ?m)) \<noteq> 0"
      if "\<not> short_size r m" "unat (m_frame_sz_filled ?m) < 4"
      using that got(4) nf lt i k k4 left
      by (auto simp: short_size_def set_frame_def Let_def m_def[symmetric] split: os_recv.splits)
    have w1: "readmsg_cb (conn w1) = Some cb" "reading (conn w1)" "\<not> is_closed (conn w1)"
      "upcalls w1 = upcalls w" "rcvd w1 = rcvd w @ bs"
      using got(3) cb rd opn by simp_all
    have "end_frame ?m w1 = Inr w'" using fin got(1) by (simp add: Let_def)
    from end_frame_step[OF mid' w1(1,2) this] show ?thesis
      using ne w1 cons rd cb by (auto simp: read_step_ok_def took_in_def rd_data_def m_def[symmetric])
  qed
qed


lemma read_payload_step:
  assumes ok: "rd_ok (read_msg (conn w))" and rd: "reading (conn w)"
    and opn: "\<not> is_closed (conn w)" and cb: "readmsg_cb (conn w) = Some cb"
    and nf: "unat (m_numframes_filled (read_msg (conn w))) = 4"
    and sz: "unat (m_frame_sz_filled (read_msg (conn w))) = 4"
    and ret: "readFrame r w = Inr w'"
  shows "read_step_ok safe w w'"
proof -
  define m where "m = read_msg (conn w)"
  let ?i = "unat (m_frame_ind m)" and ?k = "unat (m_frame_filled m)"
  let ?f = "m_frames m ! ?i"
  have mid: "rd_mid m" and less: "m_frame_filled m < f_size ?f"
    using ok nf sz by (simp_all add: rd_ok_def m_def)
  have i: "?i < length (m_frames m)" and sz4: "unat (m_frame_sz_filled m) = 4"
    and len: "length (f_data ?f) = unat (f_size ?f)" and n4: "unat (m_numframes_filled m) = 4"
    using mid sz by (simp_all add: rd_mid_def Let_def m_def exact_def)
  have left: "unat (f_size ?f - m_frame_filled m) = unat (f_size ?f) - ?k"
    using less by (simp add: unat_sub)
  have pos: "0 < f_size ?f - m_frame_filled m" using less left by (simp add: word_less_nat_alt)
  obtain n bs w1 where rc: "tcp_read r (f_size ?f - m_frame_filled m) w = Inr (n, bs, w1)"
    and fin: "(if n < 0 then Inr w1 else
       (let f1 = ?f\<lparr>f_data := overwrite (f_data ?f) ?k bs\<rparr>
        in end_frame (set_frame f1 (m\<lparr>m_frame_filled := m_frame_filled m + of_int n\<rparr>)) w1)) = Inr w'"
    using ret i sz4 pos
    by (auto simp: readFrame_def Let_def res_simps less_4_iff m_def[symmetric])
  from rc opn show ?thesis
  proof (cases rule: tcp_read_result)
    case ended
    then show ?thesis using fin close_result[of w w1] by (auto simp: read_step_ok_def)
  next
    case got
    let ?b = "length bs"
    let ?f1 = "?f\<lparr>f_data := overwrite (f_data ?f) ?k bs\<rparr>"
    let ?m = "set_frame ?f1 (m\<lparr>m_frame_filled := m_frame_filled m + of_nat ?b\<rparr>)"
    have kb: "?k + ?b \<le> unat (f_size ?f)"
      using got(2) left less by (simp add: word_less_nat_alt)
    have k: "unat (m_frame_filled m + of_nat ?b) = ?k + ?b"
      using kb u32_bound[of "f_size ?f"] by (intro unat_add_of_nat) simp
    have mid': "rd_mid ?m"
      using mid k kb sz4 i len
      by (auto simp: rd_mid_def Let_def set_frame_def exact_def nth_list_update overwrite_def
          word_le_nat_alt)
    have cons: "consumed ?m = consumed m @ bs"
      using mid n4 sz4 i k kb len
      by (simp add: consumed_def frame_part_def set_frame_def Let_def overwrite_def)
    have w1: "readmsg_cb (conn w1) = Some cb" "reading (conn w1)" "\<not> is_closed (conn w1)"
      "upcalls w1 = upcalls w" "rcvd w1 = rcvd w @ bs"
      using got(3) cb rd opn by simp_all
    have "end_frame ?m w1 = Inr w'" using fin got(1) by (simp add: Let_def)
    from end_frame_step[OF mid' w1(1,2) this] show ?thesis
      using sz4 w1 cons rd cb
      by (auto simp: read_step_ok_def took_in_def rd_data_def m_def[symmetric] set_frame_def)
  qed
qed

lemma read_count_step:
  assumes ok: "rd_ok m" and lt: "unat (m_numframes_filled m) < 4"
    and w: "reading (conn w)" "read_msg (conn w) = m" "\<not> is_closed (conn w)"
    and ret: "bindR (tcp_read r (4 - m_numframes_filled m) w)
      (\<lambda>(n, bs, w2). if n < 0 then Inr w2
         else
           let m' = m\<lparr>m_numframes := poke_u32 (m_numframes m) (unat (m_numframes_filled m)) bs,
                      m_numframes_filled := m_numframes_filled m + of_int n\<rparr>
           in if m_numframes_filled m' = 4 then
                bindR (if m_numframes m' = 0 then close w2 else Inr w2)
                  (\<lambda>w3. Inr (set_read_msg
                     (m'\<lparr>m_frames := resize_frames (unat (m_numframes m')) (m_frames m')\<rparr>) w3))
              else Inr (set_read_msg m' w2)) = Inr w'"
  shows "read_step_ok safe w w'"
proof -
  let ?k = "unat (m_numframes_filled m)"
  have left: "unat (4 - m_numframes_filled m) = 4 - ?k" using lt by (simp add: unat_4_minus)
  obtain n bs w1 where rc: "tcp_read r (4 - m_numframes_filled m) w = Inr (n, bs, w1)"
    using ret by (auto simp: res_simps)
  from rc w(3) show ?thesis
  proof (cases rule: tcp_read_result)
    case ended
    then show ?thesis using ret rc close_result[of w w1] by (auto simp: read_step_ok_def)
  next
    case got
    let ?v = "poke_u32 (m_numframes m) ?k bs"
    have kb: "?k + length bs \<le> 4" using got(2) left lt by simp
    have k: "unat (m_numframes_filled m + of_nat (length bs)) = ?k + length bs"
      using kb by (intro unat_add_of_nat) simp
    have k4: "m_numframes_filled m + of_nat (length bs) = 4 \<longleftrightarrow> ?k + length bs = 4"
      by (simp add: word_unat_eq_iff k del: of_nat_numeral)
    have tk: "take (?k + length bs) (u32_bytes ?v) = take ?k (u32_bytes (m_numframes m)) @ bs"
      by (rule take_u32_bytes_poke[OF kb])
    have m: "m_frames m = []" "m_frame_ind m = 0" "m_frame_filled m = 0" "m_frame_sz_filled m = 0"
      using ok lt by (simp_all add: rd_ok_def)
    show ?thesis
    proof (cases "?k + length bs = 4")
      case True
      have closed: "is_closed (conn w')" if "?v = 0"
        using ret rc got(1) True k4 that close_result[of w1]
        by (auto simp: Let_def res_simps)
      have w': "w' = set_read_msg (m\<lparr>m_numframes := ?v, m_numframes_filled := 4,
          m_frames := replicate (unat ?v) empty_frame\<rparr>) w1" if "?v \<noteq> 0"
        using ret rc got(1) True k4 that m(1) by (auto simp: Let_def resize_frames_def)
      show ?thesis
      proof (cases "?v = 0")
        case nz: False
        then have "0 < unat ?v" by (simp add: unat_gt_0)
        then have "rd_ok (read_msg (conn w')) \<and> consumed (read_msg (conn w')) = consumed m @ bs"
          using w'[OF nz] m lt tk True
          by (simp add: rd_ok_def rd_mid_def Let_def empty_frame_def consumed_def frame_part_def)
        then show ?thesis
          using w'[OF nz] got(3) w
          by (auto simp: read_step_ok_def took_in_def rd_inv_def rd_data_def)
      qed (use closed in \<open>simp add: read_step_ok_def\<close>)
    next
      case False
      then have w': "w' = set_read_msg (m\<lparr>m_numframes := ?v,
          m_numframes_filled := m_numframes_filled m + of_nat (length bs)\<rparr>) w1"
        using ret rc got(1) k4 by (auto simp: Let_def)
      then have "rd_ok (read_msg (conn w')) \<and> consumed (read_msg (conn w')) = consumed m @ bs"
        using m k kb False tk lt by (simp add: rd_ok_def consumed_def)
      then show ?thesis
        using w' got(3) w by (auto simp: read_step_ok_def took_in_def rd_inv_def rd_data_def)
    qed
  qed
qed

text \<open>The message a read step works on.\<close>

definition current :: "'cb tcp \<Rightarrow> message" where
  "current t = (if reading t then read_msg t else start_message (read_msg t))"

lemma readMessage_step:
  assumes inv: "rd_inv (conn w)" and opn: "\<not> is_closed (conn w)"
    and cb: "readmsg_cb (conn w) = Some cb" and ret: "readMessage r w = Inr w'"
  shows "read_step_ok (\<not> short_size r (current (conn w))) w w'"
proof -
  define w1 where "w1 = (if \<not> reading (conn w)
     then upd_conn (\<lambda>t. t\<lparr>read_msg := start_message (read_msg t), reading := True\<rparr>) w else w)"
  have w1: "reading (conn w1)" "read_msg (conn w1) = current (conn w)" "\<not> is_closed (conn w1)"
    "readmsg_cb (conn w1) = Some cb" "upcalls w1 = upcalls w" "rcvd w1 = rcvd w"
    "rd_data (conn w1) = rd_data (conn w)"
    using opn cb by (auto simp: w1_def current_def rd_data_def start_message_def consumed_def)
  have ok: "rd_ok (current (conn w))"
    using inv by (auto simp: current_def rd_inv_def rd_ok_def start_message_def)
  have same: "read_step_ok s w w'" if "read_step_ok s w1 w'" for s
    using that w1 cb by (simp add: read_step_ok_def took_in_def)
  let ?m = "current (conn w)"
  consider "unat (m_numframes_filled ?m) < 4"
    | "unat (m_numframes_filled ?m) = 4" "unat (m_frame_sz_filled ?m) < 4"
    | "unat (m_numframes_filled ?m) = 4" "unat (m_frame_sz_filled ?m) = 4"
    using ok by (fastforce simp: rd_ok_def rd_mid_def Let_def split: if_splits)
  then show ?thesis
  proof cases
    case 1
    have mo: "messages_only (conn w)" using ret by (simp add: readMessage_def res_simps)
    have "read_step_ok (\<not> short_size r ?m) w1 w'"
      using ret 1[folded w1(2)] mo w1(1,3) ok[folded w1(2)]
      by (intro read_count_step[where m = "read_msg (conn w1)" and r = r])
        (simp_all add: readMessage_def w1_def[symmetric] less_4_iff Let_def)
    then show ?thesis by (rule same)
  next
    case 2
    then have "readFrame r w1 = Inr w'"
      using ret w1(2) by (simp add: readMessage_def w1_def[symmetric] res_simps less_4_iff Let_def)
    then show ?thesis using read_size_step[of w1 cb r w'] ok w1 2 by (intro same) simp
  next
    case 3
    then have "readFrame r w1 = Inr w'"
      using ret w1(2) by (simp add: readMessage_def w1_def[symmetric] res_simps less_4_iff Let_def)
    then show ?thesis using read_payload_step[of w1 cb r w'] ok w1 3 by (intro same) simp
  qed
qed

text \<open>
  What a read step can change at all: the message being read, the bytes received and the calls
  made, and it may close the connection.
\<close>

definition rd_upd ::
  "bool \<Rightarrow> message \<Rightarrow> byte list \<Rightarrow> ('cb \<times> frame list) list \<Rightarrow> ('cb, 'm) tw_scheme
    \<Rightarrow> ('cb, 'm) tw_scheme" where
  "rd_upd b m rc up w =
     w\<lparr>conn := (conn w)\<lparr>reading := b, read_msg := m\<rparr>, rcvd := rc,
       upcalls := upcalls w @ map (\<lambda>(cb, fs). Received cb fs) up\<rparr>"

definition read_effect :: "('cb, 'm) tw_scheme \<Rightarrow> ('cb, 'm) tw_scheme \<Rightarrow> bool" where
  "read_effect w w' \<longleftrightarrow>
     (\<exists>b m rc up. w' = rd_upd b m rc up w
        \<or> (\<exists>w1 m'. close (rd_upd b m rc up w) = Inr w1 \<and> w' = set_read_msg m' w1))"

lemma rd_upd_self: "rd_upd (reading (conn w)) (read_msg (conn w)) (rcvd w) [] w = w"
  by (simp add: rd_upd_def)

lemma rd_upd_upd [simp]: "rd_upd b m rc up (rd_upd b' m' rc' up' w) = rd_upd b m rc (up' @ up) w"
  by (simp add: rd_upd_def)

lemma read_effect_open: "read_effect w (rd_upd b m rc up w)"
  unfolding read_effect_def by blast

lemma read_effect_trans_open: "read_effect (rd_upd b m rc up w) w' \<Longrightarrow> read_effect w w'"
  unfolding read_effect_def rd_upd_upd by blast

lemma read_effect_closed: "close w = Inr w1 \<Longrightarrow> read_effect w (set_read_msg m' w1)"
  unfolding read_effect_def by (metis rd_upd_self)

lemma set_read_msg_id [simp]: "set_read_msg (read_msg (conn w)) w = w"
  by (simp add: set_read_msg_def upd_conn_def)

lemma read_effect_refl [simp]: "read_effect w w"
  by (metis read_effect_open rd_upd_self)

lemma read_effect_close: "close w = Inr w' \<Longrightarrow> read_effect w w'"
  by (metis read_effect_closed set_read_msg_id)

lemma tcp_read_effect: "tcp_read r sz w = Inr (n, bs, w') \<Longrightarrow>
    (n < 0 \<longrightarrow> read_effect w w') \<and> (n \<ge> 0 \<longrightarrow> (\<exists>rc. w' = rd_upd (reading (conn w)) (read_msg (conn w)) rc [] w))"
  by (auto simp: tcp_read_def Let_def res_simps read_effect_close rd_upd_def split: if_splits os_recv.splits
      intro!: exI[of _ "rcvd w'"])

lemma set_read_msg_rd_upd: "set_read_msg m w = rd_upd (reading (conn w)) m (rcvd w) [] w"
  by (simp add: set_read_msg_def upd_conn_def rd_upd_def)

lemma end_frame_effect: 
  assumes "end_frame m w = Inr w'" 
  shows "\<exists>b m' up. w' = rd_upd b m' (rcvd w) up w"
proof (cases "m_frame_filled m = f_size (m_frames m ! unat (m_frame_ind m))")
  case False
  then show ?thesis using assms by (auto simp: end_frame_def set_read_msg_rd_upd)
next
  case True
  define m' where "m' = m\<lparr>m_frame_ind := m_frame_ind m + 1, m_frame_filled := 0, m_frame_sz_filled := 0\<rparr>"
  show ?thesis
  proof (cases "unat (m_frame_ind m') = length (m_frames m')")
    case t: True
    obtain cb where "readmsg_cb (conn w) = Some cb"
      using assms True t by (auto simp: end_frame_def Let_def m'_def[symmetric] split: option.splits)
    then have "w' = rd_upd False m' (rcvd w) [(cb, m_frames m')] w"
      using assms True t
      by (auto simp: end_frame_def Let_def m'_def[symmetric] set_read_msg_def upd_conn_def rd_upd_def)
    then show ?thesis by blast
  next
    case f: False
    then show ?thesis using assms True
      by (auto simp: end_frame_def Let_def m'_def[symmetric] set_read_msg_rd_upd)
  qed
qed

lemma end_frame_upd_effect:
  "end_frame m (rd_upd b m' rc up w) = Inr w' \<Longrightarrow> read_effect w w'"
  by (drule end_frame_effect) (auto intro: read_effect_open)

lemma readFrame_effect: 
  assumes "readFrame r w = Inr w'" shows "read_effect w w'"
proof -
  have neg: "read_effect w w'" if "tcp_read r sz w = Inr (n, bs, w')" "n < 0" for sz n bs
    using tcp_read_effect[OF that(1)] that(2) by simp
  have pos: "read_effect w w'"
    if "tcp_read r sz w = Inr (n, bs, w1)" "\<not> n < 0" "end_frame m w1 = Inr w'" for sz n bs w1 m
    using tcp_read_effect[OF that(1)] that(2,3) end_frame_upd_effect by auto
  have none: "read_effect w w'" if "end_frame m w = Inr w'" for m
    using end_frame_effect[OF that] read_effect_open by blast
  show ?thesis
    using assms
    by (auto simp: readFrame_def Let_def res_simps simp del: of_int_eq_iff split: if_splits
        intro: neg pos none)
qed

lemma readMessage_effect: 
  assumes "readMessage r w = Inr w'" shows "read_effect w w'"
proof -
  define w1 where "w1 = (if \<not> reading (conn w)
     then upd_conn (\<lambda>t. t\<lparr>read_msg := start_message (read_msg t), reading := True\<rparr>) w else w)"
  obtain m where m: "w1 = rd_upd True m (rcvd w) [] w"
  proof (cases "reading (conn w)")
    case True
    then show ?thesis using that[of "read_msg (conn w)"] rd_upd_self[of w] by (simp add: w1_def)
  next
    case False
    then show ?thesis using that[of "start_message (read_msg (conn w))"] by (simp add: w1_def rd_upd_def upd_conn_def)
  qed
  have "read_effect w1 w'"
  proof (cases "m_numframes_filled m < 4")
    case False
    then have "readFrame r w1 = Inr w'" using assms m
      by (simp add: readMessage_def w1_def[symmetric] res_simps Let_def) (simp add: rd_upd_def)
    then show ?thesis by (rule readFrame_effect)
  next
    case True
    have mo: "messages_only (conn w)" using assms by (simp add: readMessage_def res_simps)
    have w1m: "read_msg (conn w1) = m" by (simp add: m rd_upd_def)
    obtain n bs w2 where rc: "tcp_read r (4 - m_numframes_filled m) w1 = Inr (n, bs, w2)"
      and fin: "(if n < 0 then Inr w2
         else
           let m' = m\<lparr>m_numframes := poke_u32 (m_numframes m) (unat (m_numframes_filled m)) bs,
                      m_numframes_filled := m_numframes_filled m + of_int n\<rparr>
           in if m_numframes_filled m' = 4 then
                bindR (if m_numframes m' = 0 then close w2 else Inr w2)
                  (\<lambda>w3. Inr (set_read_msg
                     (m'\<lparr>m_frames := resize_frames (unat (m_numframes m')) (m_frames m')\<rparr>) w3))
              else Inr (set_read_msg m' w2)) = Inr w'"
      using assms True w1m mo
      unfolding readMessage_def w1_def[symmetric] bindR_eq_Inr Let_def by (auto simp: res_simps)
    show ?thesis
    proof (cases "n < 0")
      case True
      then show ?thesis using tcp_read_effect[OF rc] fin by simp
    next
      case False
      then obtain rc where w2: "w2 = rd_upd (reading (conn w1)) (read_msg (conn w1)) rc [] w1"
        using tcp_read_effect[OF rc] by auto
      have "(\<exists>m'. w' = set_read_msg m' w2) \<or> (\<exists>m' w3. close w2 = Inr w3 \<and> w' = set_read_msg m' w3)"
        using fin False unfolding Let_def by (simp only: if_False split: if_splits) (auto simp: res_simps)
      then have "read_effect w2 w'"
        using read_effect_closed by (auto simp: set_read_msg_rd_upd read_effect_open)
      then show ?thesis by (simp add: w2 read_effect_trans_open)
    qed
  qed
  then show ?thesis by (simp add: m read_effect_trans_open)
qed

lemma read_effect_keeps:
  assumes "read_effect w w'"
  shows "same_setup (conn w) (conn w')" "readmsg_cb (conn w') = readmsg_cb (conn w)"
    "send_msgs (conn w') = send_msgs (conn w)" "sent w' = sent w"
    "is_closed (conn w) \<Longrightarrow> is_closed (conn w')"
  using assms
  by (auto simp: read_effect_def rd_upd_def close_def Let_def res_simps same_setup_def split: if_splits)

lemma read_effect_still_open:
  assumes "read_effect w w'" and "\<not> is_closed (conn w')"
  shows "\<exists>b m rc up. w' = rd_upd b m rc up w"
  using assms close_result by (fastforce simp: read_effect_def)

lemma close_usable: "close w = Inr w' \<Longrightarrow> usable (conn w) \<Longrightarrow> usable (conn w')"
  by (auto simp: close_def Let_def res_simps usable_def synchronous_def split: if_splits)

lemma read_effect_usable: "read_effect w w' \<Longrightarrow> usable (conn w) \<Longrightarrow> usable (conn w')"
  using close_usable by (fastforce simp: read_effect_def rd_upd_def)

section \<open>Safety of receiving\<close>

lemma tcp_read_returns:
  assumes "usable (conn w)" and "0 < sz"
  obtains n bs w' where "tcp_read r sz w = Inr (n, bs, w')" "usable (conn w')"
    "readmsg_cb (conn w') = readmsg_cb (conn w)"
proof (cases "tcp_read r sz w")
  case (Inl e)
  then show ?thesis
    using assms usable_close[OF assms(1)]
    by (cases r) (auto simp: tcp_read_def Let_def split: if_splits)
next
  case (Inr x)
  obtain n bs w' where x: "x = (n, bs, w')" by (cases x)
  have "usable (conn w') \<and> readmsg_cb (conn w') = readmsg_cb (conn w)"
    using Inr x assms usable_close[OF assms(1)]
    by (auto simp: tcp_read_def Let_def res_simps read_effect_keeps(2)[OF read_effect_close] split: if_splits os_recv.splits)
  then show ?thesis using that Inr x by blast
qed

lemma end_frame_returns: "readmsg_cb (conn w) \<noteq> None \<Longrightarrow> \<exists>w'. end_frame m w = Inr w'"
  by (auto simp: end_frame_def Let_def)

lemma readFrame_returns:
  assumes use: "usable (conn w)" and cb: "readmsg_cb (conn w) \<noteq> None"
    and ok: "rd_ok (read_msg (conn w))" and nf: "unat (m_numframes_filled (read_msg (conn w))) = 4"
  shows "\<exists>w'. readFrame r w = Inr w'"
proof -
  define m where "m = read_msg (conn w)"
  have i: "unat (m_frame_ind m) < length (m_frames m)" and le: "unat (m_frame_sz_filled m) \<le> 4"
    and less: "\<not> m_frame_sz_filled m < 4 \<Longrightarrow> m_frame_filled m < f_size (m_frames m ! unat (m_frame_ind m))"
    using ok nf by (auto simp: rd_ok_def rd_mid_def Let_def m_def less_4_iff)
  show ?thesis
  proof (cases "m_frame_sz_filled m < 4")
    case True
    then have "0 < 4 - m_frame_sz_filled m" by (simp add: word_gt_0)
    then obtain n bs w1 where "tcp_read r (4 - m_frame_sz_filled m) w = Inr (n, bs, w1)" "readmsg_cb (conn w1) \<noteq> None"
      using tcp_read_returns[OF use] cb by metis
    then show ?thesis using i True by (auto simp: readFrame_def m_def[symmetric] Let_def intro!: end_frame_returns)
  next
    case False
    then have "0 < f_size (m_frames m ! unat (m_frame_ind m)) - m_frame_filled m" using less by (auto simp: word_gt_0)
    moreover then obtain n bs w1 where "tcp_read r (f_size (m_frames m ! unat (m_frame_ind m)) - m_frame_filled m) w = Inr (n, bs, w1)"
      "readmsg_cb (conn w1) \<noteq> None"
      using tcp_read_returns[OF use] cb by metis
    ultimately show ?thesis using i False by (auto simp: readFrame_def m_def[symmetric] Let_def intro!: end_frame_returns)
  qed
qed

lemma readMessage_returns:
  assumes use: "usable (conn w)" and cb: "readmsg_cb (conn w) \<noteq> None"
    and mo: "messages_only (conn w)" and inv: "rd_inv (conn w)"
  shows "\<exists>w'. readMessage r w = Inr w' \<and> usable (conn w')"
proof -
  define w1 where "w1 = (if \<not> reading (conn w)
     then upd_conn (\<lambda>t. t\<lparr>read_msg := start_message (read_msg t), reading := True\<rparr>) w else w)"
  have w1: "usable (conn w1)" "readmsg_cb (conn w1) \<noteq> None" using use cb by (auto simp: w1_def)
  have ok: "rd_ok (read_msg (conn w1))" 
    using inv by (auto simp: w1_def rd_inv_def rd_ok_def start_message_def)
  define m where "m = read_msg (conn w1)"
  have "\<exists>w'. readMessage r w = Inr w'"
  proof (cases "m_numframes_filled m < 4")
    case True
    then have "0 < 4 - m_numframes_filled m" by (simp add: word_gt_0)
    then obtain n bs w2 where rc: "tcp_read r (4 - m_numframes_filled m) w1 = Inr (n, bs, w2)" "usable (conn w2)"
      using tcp_read_returns[OF w1(1)] by metis
    obtain w3 where "close w2 = Inr w3" using usable_close[OF rc(2)] by blast
    then show ?thesis
      using rc(1) True mo unfolding readMessage_def w1_def[symmetric] m_def[symmetric]
      by (simp add: m_def[symmetric] Let_def)
  next
    case False
    moreover then have "unat (m_numframes_filled m) = 4" 
      using ok by (auto simp: m_def[symmetric] rd_ok_def less_4_iff rd_mid_def Let_def)
    ultimately show ?thesis using readFrame_returns[OF w1 ok] mo
       by (simp add: readMessage_def w1_def[symmetric] m_def[symmetric] Let_def)
  qed
  moreover have "usable (conn w')" if "readMessage r w = Inr w'" for w'
    using read_effect_usable[OF readMessage_effect[OF that]] use by simp
  ultimately show ?thesis by blast
qed

section \<open>Histories of read rounds\<close>

text \<open>
  Rounds of the poll thread on an open connection, none of which closes it or hits the hazard.
\<close>

inductive recv_run :: "('cb, 'm) tw_scheme \<Rightarrow> ('cb, 'm) tw_scheme \<Rightarrow> bool" where
  start: "recv_run w w"
| round: "recv_run w w1 \<Longrightarrow> readMessage r w1 = Inr w2 \<Longrightarrow> \<not> is_closed (conn w2)
    \<Longrightarrow> \<not> short_size r (current (conn w1)) \<Longrightarrow> recv_run w w2"

lemma recv_run_stream:
  assumes "recv_run w w'" and "rd_inv (conn w)" and "\<not> is_closed (conn w)"
    and "readmsg_cb (conn w) = Some cb"
  shows "rd_inv (conn w') \<and> \<not> is_closed (conn w') \<and> readmsg_cb (conn w') = Some cb
    \<and> (\<exists>got msgs. rcvd w' = rcvd w @ got \<and> upcalls w' = upcalls w @ map (Received cb) msgs
        \<and> rd_data (conn w) @ got = concat (map enc_msg msgs) @ rd_data (conn w')
        \<and> (\<forall>fs \<in> set msgs. received_ok fs))"
  using assms
proof (induction rule: recv_run.induct)
  case (start w)
  then show ?case by simp
next
  case (round w w1 r w2)
  then obtain got msgs where IH: "rd_inv (conn w1)" "\<not> is_closed (conn w1)" "readmsg_cb (conn w1) = Some cb"
    "rcvd w1 = rcvd w @ got" "upcalls w1 = upcalls w @ map (Received cb) msgs"
    "rd_data (conn w) @ got = concat (map enc_msg msgs) @ rd_data (conn w1)"
    "\<forall>fs \<in> set msgs. received_ok fs" by blast
  have st: "read_step_ok True w1 w2"
    using readMessage_step[OF IH(1-3) round.hyps(2)] round.hyps(4) by simp
  then obtain got2 where g: "rd_inv (conn w2)" "rcvd w2 = rcvd w1 @ got2" "took_in got2 w1 w2"
    using round.hyps(3) by (auto simp: read_step_ok_def)
  have cb: "readmsg_cb (conn w2) = Some cb"
    using read_effect_keeps(2)[OF readMessage_effect[OF round.hyps(2)]] IH(3) by simp
  from g(3) show ?case unfolding took_in_def
  proof (elim disjE exE conjE)
    assume "upcalls w2 = upcalls w1" "rd_data (conn w1) @ got2 = rd_data (conn w2)"
    moreover then have "rd_data (conn w) @ got @ got2 = concat (map enc_msg msgs) @ rd_data (conn w2)"
      using IH(6) by (metis append.assoc)
    ultimately show ?thesis using IH g cb round.hyps(3)
      by (intro conjI exI[of _ "got @ got2"] exI[of _ msgs]) simp_all
  next
    fix cb' fs
    assume d: "upcalls w2 = upcalls w1 @ [Received cb' fs]" "readmsg_cb (conn w1) = Some cb'"
      "rd_data (conn w1) @ got2 = enc_msg fs" "\<not> reading (conn w2)" "received_ok fs"
    have "rd_data (conn w) @ got @ got2 = concat (map enc_msg (msgs @ [fs]))"
      using IH(6) d(3) by (metis append.assoc concat.simps concat_append list.simps(8,9) map_append append_Nil2)
    then show ?thesis using IH g cb round.hyps(3) d
      by (intro conjI exI[of _ "got @ got2"] exI[of _ "msgs @ [fs]"]) (simp_all add: rd_data_def)
  qed
qed

end
