(* ===== verification/Channel.thy ===== *)
theory Channel
  imports Receiving
begin

text \<open>
  Two transports joined by a byte stream: the wire format of \<open>src/src/transport_tcp.cpp\<close> can be
  read back in one way only, so what the receiving side hands on is what the sending side was
  given. Also the two ways the stream can be lost: a header of an empty frame sent in pieces,
  and a frame size received in pieces.
\<close>

unbundle bit_operations_syntax

section \<open>The wire format can be read back in one way only\<close>

text \<open>What of a frame crosses the wire.\<close>

definition wire :: "frame \<Rightarrow> u32 \<times> byte list" where
  "wire f = (f_size f, payload f)"

lemma exact_frame_ok: "exact f \<Longrightarrow> frame_ok f"
  by (simp add: exact_def frame_ok_def)

lemma length_payload: "frame_ok f \<Longrightarrow> length (payload f) = unat (f_size f)"
  by (simp add: frame_ok_def payload_def)

lemma enc_frame_cancel:
  assumes "enc_frame f @ xs = enc_frame g @ ys" and "frame_ok f" and "frame_ok g"
  shows "wire f = wire g \<and> xs = ys"
proof -
  have sz: "f_size f = f_size g" and rest: "payload f @ xs = payload g @ ys"
    using assms(1) by (simp_all add: enc_frame_def)
  then have "length (payload f) = length (payload g)" using assms(2,3) by (simp add: length_payload)
  then show ?thesis using sz rest by (simp add: wire_def)
qed

lemma enc_frames_cancel:
  assumes "length fs = length gs" and "concat (map enc_frame fs) @ xs = concat (map enc_frame gs) @ ys"
    and "list_all frame_ok fs" and "list_all frame_ok gs"
  shows "map wire fs = map wire gs \<and> xs = ys"
  using assms
proof (induction fs gs rule: list_induct2)
  case (Cons f fs g gs)
  then show ?case using enc_frame_cancel[of f _ g] by fastforce
qed simp

lemma length_of_count: "length fs < 2 ^ 32 \<Longrightarrow> unat (of_nat (length fs) :: u32) = length fs"
  by (simp add: unat_of_nat)

definition wire_ok :: "frame list \<Rightarrow> bool" where
  "wire_ok fs \<longleftrightarrow> length fs < 2 ^ 32 \<and> list_all frame_ok fs"

lemma enc_msg_cancel:
  assumes "enc_msg fs @ xs = enc_msg gs @ ys" and "wire_ok fs" and "wire_ok gs"
  shows "map wire fs = map wire gs \<and> xs = ys"
proof -
  have "(of_nat (length fs) :: u32) = of_nat (length gs)"
    and rest: "concat (map enc_frame fs) @ xs = concat (map enc_frame gs) @ ys"
    using assms(1) by (simp_all add: enc_msg_def)
  then have "length fs = length gs"
    using assms(2,3) length_of_count unfolding wire_ok_def by metis
  then show ?thesis using enc_frames_cancel[OF _ rest] assms(2,3) by (simp add: wire_ok_def)
qed

text \<open>A message still being received is not complete.\<close>

lemma consumed_incomplete:
  assumes ok: "rd_ok m" and p: "wire_ok p"
  shows "consumed m \<noteq> enc_msg p @ rest"
proof
  assume eq: "consumed m = enc_msg p @ rest"
  show False
  proof (cases "unat (m_numframes_filled m) < 4")
    case True
    then have "length (consumed m) < 4" by (simp add: consumed_def)
    then show False by (simp add: eq enc_msg_def)
  next
    case False
    let ?i = "unat (m_frame_ind m)" and ?k = "unat (m_frame_sz_filled m)"
    let ?f = "m_frames m ! ?i"
    have mid: "rd_mid m" and less: "?k = 4 \<Longrightarrow> m_frame_filled m < f_size ?f"
      using ok False by (auto simp: rd_ok_def)
    have n4: "unat (m_numframes_filled m) = 4" and i: "?i < length (m_frames m)"
      and len: "length (m_frames m) = unat (m_numframes m)"
      and part: "?k < 4 \<Longrightarrow> m_frame_filled m = 0" and k4: "?k \<le> 4"
      and ex: "\<forall>j < ?i. exact (m_frames m ! j)"
      using mid by (auto simp: rd_mid_def Let_def)
    have "m_numframes m = of_nat (length p)" and rest: "frame_part m = concat (map enc_frame p) @ rest"
      using eq n4 by (auto simp: consumed_def enc_msg_def)
    then have lp: "length p = length (m_frames m)" using len p by (simp add: length_of_count wire_ok_def)
    obtain q ps where split: "p = take ?i p @ q # ps"
      using i lp by (metis id_take_nth_drop)
    have "list_all frame_ok (take ?i (m_frames m))"
      using ex i by (auto simp: list_all_length exact_frame_ok)
    moreover have "list_all frame_ok (take ?i p)" "frame_ok q"
      using p split by (auto simp: wire_ok_def list_all_iff dest: in_set_takeD) (metis in_set_conv_decomp)
    moreover have "length (take ?i (m_frames m)) = length (take ?i p)" using lp by simp
    moreover have "concat (map enc_frame (take ?i (m_frames m)))
         @ take ?k (u32_bytes (f_size ?f)) @ take (unat (m_frame_filled m)) (f_data ?f)
      = concat (map enc_frame (take ?i p)) @ enc_frame q @ concat (map enc_frame ps) @ rest"
      using rest by (subst (asm) split) (simp add: frame_part_def Let_def)
    ultimately have last: "take ?k (u32_bytes (f_size ?f)) @ take (unat (m_frame_filled m)) (f_data ?f)
      = enc_frame q @ concat (map enc_frame ps) @ rest" and q: "frame_ok q"
      using enc_frames_cancel by blast+
    show False
    proof (cases "?k < 4")
      case True
      have "length (enc_frame q) \<le> ?k" 
        using arg_cong[OF last, of length] part[OF True] by simp
      then show False using True by (simp add: enc_frame_def)
    next
      case False
      then have "?k = 4" using k4 by simp
      then have fq: "f_size ?f = f_size q" 
        and pl: "take (unat (m_frame_filled m)) (f_data ?f) = payload q @ concat (map enc_frame ps) @ rest"
        using last by (simp_all add: enc_frame_def)
      have "unat (m_frame_filled m) < unat (f_size q)" 
        using less[OF \<open>?k = 4\<close>] unfolding fq word_less_nat_alt .
      moreover have "length (payload q) \<le> length (take (unat (m_frame_filled m)) (f_data ?f))"
        unfolding pl by simp
      moreover have "length (take (unat (m_frame_filled m)) (f_data ?f)) \<le> unat (m_frame_filled m)" by simp
      ultimately show False using length_payload[OF q] by linarith
    qed
  qed
qed

lemma enc_msg_neq_Nil [simp]: "enc_msg fs \<noteq> []"
  by (simp add: enc_msg_def)

lemma enc_msgs_split:
  assumes "concat (map enc_msg ds) @ xs = concat (map enc_msg ps)"
    and "\<forall>d \<in> set ds. wire_ok d" and "\<forall>p \<in> set ps. wire_ok p"
  shows "\<exists>as bs. ps = as @ bs \<and> map (map wire) ds = map (map wire) as \<and> xs = concat (map enc_msg bs)"
  using assms
proof (induction ds arbitrary: ps)
  case Nil
  then show ?case by (intro exI[of _ "[]"] exI[of _ ps]) simp
next
  case (Cons d ds)
  then obtain p ps' where ps: "ps = p # ps'" by (cases ps) auto
  then have "enc_msg d @ concat (map enc_msg ds) @ xs = enc_msg p @ concat (map enc_msg ps')"
    using Cons.prems(1) by simp
  moreover have "wire_ok d" "wire_ok p" using Cons.prems(2,3) ps by simp_all
  ultimately have e: "map wire d = map wire p" "concat (map enc_msg ds) @ xs = concat (map enc_msg ps')"
    using enc_msg_cancel by blast+
  obtain as bs where "ps' = as @ bs" "map (map wire) ds = map (map wire) as" "xs = concat (map enc_msg bs)"
    using Cons.IH[OF e(2)] Cons.prems(2,3) ps by auto
  then show ?case using e(1) ps by (intro exI[of _ "p # as"] exI[of _ bs]) simp
qed

lemma received_wire_ok: "received_ok fs \<Longrightarrow> wire_ok fs"
  by (auto simp: received_ok_def wire_ok_def list_all_iff exact_frame_ok)

lemma sendable_wire_ok: "sendable fs \<Longrightarrow> wire_ok fs"
  by (simp add: sendable_def wire_ok_def list_all_iff)

lemma rd_data_incomplete: "rd_inv t \<Longrightarrow> wire_ok p \<Longrightarrow> rd_data t \<noteq> enc_msg p @ rest"
  using consumed_incomplete[of "read_msg t" p rest]
  by (cases "reading t") (auto simp: rd_inv_def rd_data_def enc_msg_def)

lemma send_run_sendable: "send_run w es w' \<Longrightarrow> \<forall>fs \<in> set (posted es). sendable fs"
  by (induction rule: send_run.induct) auto

lemma decimate_subset: "set (decimate n c xs) \<subseteq> set xs"
  by (induction n c xs rule: decimate.induct) auto

lemma payload_full: "length bs < 2 ^ 32 \<Longrightarrow> payload \<lparr>f_data = bs, f_size = of_nat (length bs)\<rparr> = bs"
  by (simp add: payload_def unat_of_nat_u32)

text \<open>
  A stream of encoded messages, cut into what was handed on, the message being received, the bytes
  on their way and the bytes still to be written.
\<close>

lemma stream_split:
  assumes rd: "rd_inv t" and msgs: "\<forall>fs \<in> set msgs. received_ok fs" and ps: "\<forall>p \<in> set ps. wire_ok p"
    and eq: "concat (map enc_msg msgs) @ rd_data t @ in_flight @ rest = concat (map enc_msg ps)"
  shows "\<exists>as bs. ps = as @ bs \<and> map (map wire) msgs = map (map wire) as \<and> (in_flight = [] \<and> rest = [] \<longrightarrow> bs = [])"
proof -
  have "\<forall>d \<in> set msgs. wire_ok d" using msgs received_wire_ok by blast
  then obtain as bs where ab: "ps = as @ bs" "map (map wire) msgs = map (map wire) as"
    "rd_data t @ in_flight @ rest = concat (map enc_msg bs)"
    using enc_msgs_split[OF eq _ ps] by blast
  have "bs = []" if "in_flight = []" "rest = []"
  proof (cases bs)
    case (Cons b bs')
    then have "rd_data t = enc_msg b @ concat (map enc_msg bs')" using ab(3) that by simp
    moreover have "wire_ok b" using ps ab(1) Cons by simp
    ultimately show ?thesis using rd_data_incomplete[OF rd] by blast
  qed
  then show ?thesis using ab(1,2) by blast
qed

section \<open>From one end to the other\<close>

text \<open>
  C3: Messages arrive as they were sent. Connect a sender, whose queue is empty, to a receiver
  that is between messages by a byte stream, so that what the receiver got is a prefix of what
  the sender put on the wire. Then the messages handed to the receiver's callback are, frame by
  frame and byte by byte, the first messages that the sender's filter let through, in order; and
  once the queue is empty and every byte has arrived they are all of them. The posted messages are
  well-formed, no round fails or closes the connection, and the rounds may cut the bytes in any way
  but two, in which the code loses the stream, as the two theorems below show: no write round takes
  less than what is left of the size header of an empty frame (\<open>short_empty_header\<close>), and no read round
  ends before a frame size is complete while its bytes so far are all zero, or there are none
  (\<open>short_size\<close>).
\<close>

theorem end_to_end:
  assumes send: "send_run s es s'" "\<not> is_closed (conn s)" "send_msgs (conn s) = []" "sent s = []"
    and recv: "recv_run r r'" "\<not> is_closed (conn r)" "\<not> reading (conn r)" "rcvd r = []"
      "readmsg_cb (conn r) = Some cb"
    and wire: "rcvd r' @ in_flight = sent s'"
  shows "\<exists>msgs as bs. upcalls r' = upcalls r @ map (Received cb) msgs
    \<and> decimate (filter_num (conn s)) (msg_counter (conn s)) (posted es) = as @ bs
    \<and> map (map wire) msgs = map (map wire) as \<and> (\<forall>fs \<in> set msgs. received_ok fs)
    \<and> (send_msgs (conn s') = [] \<and> in_flight = [] \<longrightarrow> bs = [])"
proof -
  let ?ps = "decimate (filter_num (conn s)) (msg_counter (conn s)) (posted es)"
  have stream: "sent s' @ pending (conn s') = concat (map enc_msg ?ps)"
    using send_run_stream[OF send(1,2)] send(3,4) by (simp add: pending_def)
  have "rd_inv (conn r)" "rd_data (conn r) = []" using recv(3) by (simp_all add: rd_inv_def rd_data_def)
  then obtain msgs where msgs: "upcalls r' = upcalls r @ map (Received cb) msgs" "rd_inv (conn r')"
    "rcvd r' = concat (map enc_msg msgs) @ rd_data (conn r')" "\<forall>fs \<in> set msgs. received_ok fs"
    using recv_run_stream[OF recv(1) _ recv(2,5)] recv(4) by auto
  have ps: "\<forall>p \<in> set ?ps. wire_ok p"
  proof
    fix p
    assume "p \<in> set ?ps"
    then have "p \<in> set (posted es)" by (rule subsetD[OF decimate_subset])
    then show "wire_ok p" using send_run_sendable[OF send(1)] sendable_wire_ok by simp
  qed
  have "concat (map enc_msg msgs) @ (rd_data (conn r') @ in_flight @ pending (conn s')) = concat (map enc_msg ?ps)"
    unfolding stream[symmetric] wire[symmetric] msgs(3) by simp
  then obtain as bs where ab: "?ps = as @ bs" "map (map wire) msgs = map (map wire) as"
    "in_flight = [] \<and> pending (conn s') = [] \<longrightarrow> bs = []"
    using stream_split[OF msgs(2,4) ps] by (metis append.assoc)
  moreover have "send_msgs (conn s') = [] \<Longrightarrow> pending (conn s') = []" by (simp add: pending_def)
  ultimately show ?thesis using msgs(1,4) by blast
qed

section \<open>Examples, and the two hazards\<close>

lemmas step_defs = sample_world_def new_tcp_def sendFrames_def writeMessage_def writeFrame_def
  finish_frame_def tcp_write_def upd_conn_def enableWrite_def disableWrite_def synchronous_def
  with_poll_set_def set_front_def INT_MAX_def Let_def

lemmas read_defs = sample_world_def new_tcp_def readMessage_def readFrame_def end_frame_def
  tcp_read_def upd_conn_def set_read_msg_def set_frame_def start_message_def empty_message_def
  resize_frames_def overwrite_def empty_frame_def poke_u32_def bytes_u32_def u32_bytes_def
  INT_MAX_def Let_def

lemma sample_receives:
  "\<exists>r'. recv_run sample_world r' \<and> rcvd r' = [1, 0, 0, 0, 2, 0, 0, 0, 1, 2]"
  apply (rule exI, rule conjI)
  apply (rule recv_run.round[where r = "Recv_Data [1, 2]"])
  apply (rule recv_run.round[where r = "Recv_Data [2, 0, 0, 0]"])
  apply (rule recv_run.round[where r = "Recv_Data [1, 0, 0, 0]"])
  apply (rule recv_run.start)
  apply (simp add: read_defs short_size_def current_def; fail)+
  done

text \<open>
  C34: The header of an empty frame can be lost. When \<open>send\<close> takes fewer than the four bytes of
  the header, the check at the end of \<open>writeFrame\<close> (\<open>frame_filled == frame.size()\<close>) already finds
  the empty payload complete: the message leaves the queue with part of its encoding never sent.
\<close>

theorem empty_frame_bytes_lost:
  assumes "k < 4"
  shows "\<exists>w1 w2 w3. sendFrames [empty_frame] sample_world = Inr w1
    \<and> writeMessage (Send_Accepts 4) w1 = Inr w2 \<and> writeMessage (Send_Accepts k) w2 = Inr w3
    \<and> send_msgs (conn w3) = [] \<and> length (sent w3) = 4 + k \<and> length (enc_msg [empty_frame]) = 8"
proof -
  consider "k = 0" | "k = 1" | "k = 2" | "k = 3" using assms by linarith
  then show ?thesis
    by cases (simp_all add: step_defs empty_frame_def u32_bytes_def enc_msg_def enc_frame_def payload_def)
qed


lemma sample_sends:
  "\<exists>s'. send_run sample_world [Post [\<lparr>f_data = [1, 2], f_size = 2\<rparr>], Writable (Send_Accepts 4),
       Writable (Send_Accepts 9), Writable (Send_Accepts 2)] s'
     \<and> sent s' = [1, 0, 0, 0, 2, 0, 0, 0, 1, 2] \<and> send_msgs (conn s') = []"
  by (rule exI, rule conjI, (rule send_run.post send_run.writable send_run.finished
        | (simp add: step_defs sendable_def frame_ok_def short_empty_header_def u32_bytes_def; fail))+)

theorem end_to_end_witness:
  "\<exists>s' r' msgs. send_run sample_world [Post [\<lparr>f_data = [1, 2], f_size = 2\<rparr>], Writable (Send_Accepts 4),
       Writable (Send_Accepts 9), Writable (Send_Accepts 2)] s'
     \<and> recv_run sample_world r' \<and> rcvd r' = sent s' \<and> upcalls r' = map (Received 5) msgs
     \<and> map (map wire) msgs = [[(2, [1, 2])]]"
proof -
  let ?es = "[Post [\<lparr>f_data = [1, 2], f_size = 2\<rparr>], Writable (Send_Accepts 4),
       Writable (Send_Accepts 9), Writable (Send_Accepts 2)]"
  obtain s' where s: "send_run sample_world ?es s'" "sent s' = [1, 0, 0, 0, 2, 0, 0, 0, 1, 2]"
    "send_msgs (conn s') = []" using sample_sends by blast
  obtain r' where r: "recv_run sample_world r'" "rcvd r' = [1, 0, 0, 0, 2, 0, 0, 0, 1, 2]"
    using sample_receives by blast
  have init: "\<not> is_closed (conn sample_world)" "send_msgs (conn sample_world) = []" "sent sample_world = []"
    "\<not> reading (conn sample_world)" "rcvd sample_world = []" "readmsg_cb (conn sample_world) = Some 5"
    "upcalls sample_world = []" "decimate (filter_num (conn sample_world)) (msg_counter (conn sample_world)) (posted ?es)
       = [[\<lparr>f_data = [1, 2], f_size = 2\<rparr>]]"
    by (simp_all add: sample_world_def new_tcp_def)
  have "rcvd r' @ [] = sent s'" using s r by simp
  from end_to_end[OF s(1) init(1-3) r(1) init(1,4-6) this] obtain msgs as bs where
    m: "upcalls r' = map (Received 5) msgs" "[[\<lparr>f_data = [1, 2], f_size = 2\<rparr>]] = as @ bs"
    "map (map wire) msgs = map (map wire) as" "send_msgs (conn s') = [] \<longrightarrow> bs = []"
    unfolding init by auto
  then have "map (map wire) msgs = [[(2, [1, 2])]]" using s(3) by (auto simp: wire_def payload_def)
  then show ?thesis using s r m(1) by metis
qed

text \<open>
  C33: A frame size that arrives in pieces can end the frame. If the first \<open>k\<close> bytes of the size
  that arrive are zeros (here of a frame of \<open>2 ^ 24\<close> bytes), the check at the end of \<open>readFrame\<close>
  takes the frame for an empty one and hands the message on; the bytes that follow will be read
  as the start of a new message.
\<close>

theorem split_size_desyncs:
  assumes "0 < k" and "k < 4" and "f_size f = 2 ^ 24"
  shows "\<exists>w1 w2. readMessage (Recv_Data (take 4 (enc_msg [f]))) sample_world = Inr w1
    \<and> readMessage (Recv_Data (take k (drop 4 (enc_msg [f])))) w1 = Inr w2
    \<and> upcalls w2 = [Received 5 [empty_frame]] \<and> \<not> reading (conn w2)"
proof -
  have 1: "take 4 (enc_msg [f]) = [1, 0, 0, 0]"
    by (simp add: enc_msg_def u32_bytes_def)
  have u: "u32_bytes (2 ^ 24) = [0, 0, 0, 1]" by code_simp
  have 2: "take k (drop 4 (enc_msg [f])) = take k [0, 0, 0, 1]"
  proof -
    have "drop 4 (enc_msg [f]) = u32_bytes (2 ^ 24) @ payload f"
      by (simp add: enc_msg_def enc_frame_def assms(3) del: power_numeral)
    then show ?thesis unfolding u by (simp only: take_append) (use assms(2) in simp)
  qed
  consider "k = 1" | "k = 2" | "k = 3" using assms by linarith
  then show ?thesis
    unfolding 1 2 by cases (simp_all add: read_defs)
qed

theorem split_size_desyncs_witness:
  "\<exists>f w1 w2. frame_ok f \<and> f_size f = 2 ^ 24
    \<and> readMessage (Recv_Data (take 4 (enc_msg [f]))) sample_world = Inr w1
    \<and> readMessage (Recv_Data (take 2 (drop 4 (enc_msg [f])))) w1 = Inr w2
    \<and> upcalls w2 = [Received 5 [empty_frame]]"
proof -
  obtain ds :: "byte list" where ds: "length ds = 2 ^ 24" using Ex_list_of_length by blast
  let ?f = "\<lparr>f_data = ds, f_size = 2 ^ 24\<rparr>"
  have "frame_ok ?f" "f_size ?f = 2 ^ 24" using ds by (simp_all add: frame_ok_def)
  then show ?thesis using split_size_desyncs[of 2 ?f] by fastforce
qed

theorem empty_frame_bytes_lost_witness:
  "\<exists>w1 w2 w3. sendFrames [empty_frame] sample_world = Inr w1
    \<and> writeMessage (Send_Accepts 4) w1 = Inr w2 \<and> writeMessage (Send_Accepts 2) w2 = Inr w3
    \<and> send_msgs (conn w3) = [] \<and> length (sent w3) = 6"
  using empty_frame_bytes_lost[of 2] by fastforce

text \<open>
  C14: What arrives is what is handed on. Over any number of read rounds on an open connection, none
  of which closes it or hits the defect \<open>short_size\<close>, the bytes received are the encodings of the
  messages handed to the callback, in order, followed by the part of the next message that has
  arrived; every message handed on is complete, each frame holding exactly its size. The bytes may
  be split between the calls of \<open>recv\<close> anywhere else: \<open>short_size\<close> is a round that ends before the size
  of a frame is complete while the bytes of that size so far are all zero, or there are none; the
  equation then fails, as shown above.
\<close>

theorem recv_stream:
  assumes "recv_run w w'" and "rd_inv (conn w)" and "\<not> is_closed (conn w)"
    and "readmsg_cb (conn w) = Some cb"
  shows "\<exists>got msgs. rcvd w' = rcvd w @ got \<and> upcalls w' = upcalls w @ map (Received cb) msgs
    \<and> rd_data (conn w) @ got = concat (map enc_msg msgs) @ rd_data (conn w')
    \<and> (\<forall>fs \<in> set msgs. received_ok fs) \<and> rd_inv (conn w')"
  using recv_run_stream[OF assms] by blast

theorem recv_stream_witness:
  "\<exists>r' msgs. recv_run sample_world r' \<and> rcvd r' = [1, 0, 0, 0, 2, 0, 0, 0, 1, 2]
    \<and> upcalls r' = map (Received 5) msgs \<and> rcvd r' = concat (map enc_msg msgs) @ rd_data (conn r')"
proof -
  obtain r' where r: "recv_run sample_world r'" "rcvd r' = [1, 0, 0, 0, 2, 0, 0, 0, 1, 2]"
    using sample_receives by blast
  have "rd_inv (conn sample_world)" "\<not> is_closed (conn sample_world)"
    "readmsg_cb (conn sample_world) = Some 5" "rd_data (conn sample_world) = []"
    "rcvd sample_world = []" "upcalls sample_world = []"
    by (simp_all add: sample_world_def new_tcp_def rd_inv_def rd_data_def)
  then show ?thesis using recv_stream[OF r(1), of 5] r by (metis append_Nil)
qed

section \<open>The filter\<close>

lemma decimate_nths: "decimate n c xs = nths xs {i. (c + 1 + int i) mod n = 0}"
proof (induction n c xs rule: decimate.induct)
  case (2 n c x xs)
  have "{j. Suc j \<in> {i. (c + 1 + int i) mod n = 0}} = {i. ((c + 1) mod n + 1 + int i) mod n = 0}"
    using mod_add_left_eq[of "c + 1" n] by (simp add: add.assoc)
  then show ?case using 2 by (simp add: nths_Cons)
qed simp

text \<open>
  The filter of a subscription. After \<open>setFilter(n)\<close> on a fresh transport, the messages put on
  the wire are exactly those posted at the positions divisible by \<open>n\<close>: the first one and every
  \<open>n\<close>-th after it, whole and in order.
\<close>

theorem filter_every_nth:
  assumes "setFilter n w = Inr w0" and "send_run w0 es w'" and "\<not> is_closed (conn w)"
    and "send_msgs (conn w) = []" and "sent w = []"
  shows "0 < n \<and> sent w' @ pending (conn w')
    = concat (map enc_msg (nths (posted es) {i. n dvd int i}))"
proof -
  have w0: "w0 = upd_conn (\<lambda>t. t\<lparr>filter_num := n, msg_counter := n - 1\<rparr>) w" and n: "0 < n"
    using assms(1) by (simp_all add: setFilter_def res_simps)
  have "{i. (n - 1 + 1 + int i) mod n = 0} = {i. n dvd int i}" by (simp add: dvd_eq_mod_eq_0)
  then show ?thesis
    using send_run_stream[OF assms(2)] assms(3-5) n
    by (simp add: w0 decimate_nths pending_def)
qed

theorem filter_every_nth_witness:
  "\<exists>w0 w'. setFilter 2 sample_world = Inr w0 \<and> send_run w0 [Post [empty_frame]] w'
    \<and> sent w' @ pending (conn w') = enc_msg [empty_frame]"
proof -
  obtain w0 where w0: "setFilter 2 sample_world = Inr w0" by (simp add: setFilter_def)
  have "\<exists>w'. send_run w0 [Post [empty_frame]] w'"
    by (rule exI, rule send_run.post[OF _ _ send_run.finished])
      (use w0 in \<open>auto simp: sendable_def frame_ok_def empty_frame_def setFilter_def step_defs\<close>)
  then obtain w' where w': "send_run w0 [Post [empty_frame]] w'" by blast
  have init: "\<not> is_closed (conn sample_world)" "send_msgs (conn sample_world) = []"
    "sent sample_world = []" by (simp_all add: sample_world_def new_tcp_def)
  show ?thesis
    using filter_every_nth[OF w0 w' init] w0 w' by (auto simp: nths_singleton)
qed

end
