(* ===== verification/Conn_Header.thy ===== *)
theory Conn_Header
  imports Prelude
begin

text \<open>
  Models \<open>src/src/header.cpp\<close>: the connection header, a map of strings written as a sequence of
  lines \<open>key=value\<close>, each after its length in four bytes. \<open>parse\<close> trusts the lengths it reads; the
  model keeps the reads past the end of the buffer visible as an outcome of their own
  (\<open>Over_Read\<close>). The lemmas show when that happens and that parsing what \<open>write\<close> produced gives
  the map back.
\<close>

section \<open>Strings and bytes\<close>

definition chars :: "byte list \<Rightarrow> string" where
  "chars = map (\<lambda>b. char_of (unat b))"

definition bytes :: "string \<Rightarrow> byte list" where
  "bytes = map (\<lambda>c. of_nat (of_char c))"

lemma chars_bytes [simp]: "chars (bytes s) = s"
proof -
  have "unat (of_nat (of_char c) :: byte) = of_char c" for c
    by (simp add: unat_of_nat take_bit_nat_eq_self of_char_mod_256 flip: take_bit_eq_mod)
  then show ?thesis by (simp add: chars_def bytes_def comp_def)
qed

lemma chars_append [simp]: "chars (xs @ ys) = chars xs @ chars ys"
  by (simp add: chars_def)

lemma length_chars_bytes [simp]: "length (chars bs) = length bs" "length (bytes s) = length s"
  by (simp_all add: chars_def bytes_def)

section \<open>Parsing\<close>

type_synonym m_string = "(string, string) omap"

record header =
  read_map :: m_string

definition new_header :: header where
  "new_header = \<lparr>read_map = []\<rparr>"

text \<open>
  \<open>Bad_Length\<close> and \<open>No_Equals\<close> are the two error messages (the result \<open>false\<close>); the entries read
  before the error stay in the map.
\<close>

datatype parse_result = Parsed | Bad_Length | No_Equals | Over_Read

definition split_line :: "string \<Rightarrow> (string \<times> string) option" where
  "split_line line =
     (if CHR ''='' \<in> set line
      then Some (takeWhile (\<lambda>c. c \<noteq> CHR ''='') line, tl (dropWhile (\<lambda>c. c \<noteq> CHR ''='') line))
      else None)"

text \<open>
  The loop over the buffer; \<open>buf\<close> is what is left of it. Four bytes or \<open>len\<close> bytes are copied
  whether or not they are still inside the buffer.
\<close>

function parse_from :: "byte list \<Rightarrow> m_string \<Rightarrow> parse_result \<times> m_string" where
  "parse_from buf m =
     (if buf = [] then (Parsed, m)
      else if length buf < 4 then (Over_Read, m)
      else
        let len = bytes_u32 (take 4 buf); rest = drop 4 buf
        in if len > 1000000 then (Bad_Length, m)
           else if length rest < unat len then (Over_Read, m)
           else (case split_line (chars (take (unat len) rest)) of
                   None \<Rightarrow> (No_Equals, m)
                 | Some (k, v) \<Rightarrow> parse_from (drop (unat len) rest) (oput k v m)))"
  by pat_completeness auto

termination by (relation "measure (\<lambda>(buf, m). length buf)") auto

declare parse_from.simps [simp del]

definition parse :: "byte list \<Rightarrow> header \<Rightarrow> parse_result \<times> header" where
  "parse buffer h = (let (r, m) = parse_from buffer (read_map h) in (r, h\<lparr>read_map := m\<rparr>))"

definition getValue :: "string \<Rightarrow> header \<Rightarrow> string option" where
  "getValue key h = map_of (read_map h) key"

section \<open>Writing\<close>

text \<open>
  The size is summed in 32 bits. With size 0 no buffer is made; otherwise the lines are copied
  and the assertion at the end compares the position reached with the size.
\<close>

definition line_len :: "string \<times> string \<Rightarrow> u32" where
  "line_len kv = of_nat (length (fst kv)) + of_nat (length (snd kv)) + 1"

definition header_size :: "m_string \<Rightarrow> u32" where
  "header_size m = foldl (\<lambda>s kv. s + of_nat (length (fst kv)) + of_nat (length (snd kv)) + 1 + 4) 0 m"

definition enc_line :: "string \<times> string \<Rightarrow> byte list" where
  "enc_line kv = u32_bytes (line_len kv) @ bytes (fst kv) @ bytes ''='' @ bytes (snd kv)"

definition header_write :: "m_string \<Rightarrow> (byte list option \<times> u32) res" where
  "header_write m =
     (if header_size m = 0 then Inr (None, 0)
      else let out = concat (map enc_line m)
           in ensure (length out = unat (header_size m)) Assert_Failed
                (Inr (Some out, header_size m)))"

section \<open>Lemmas\<close>

definition line_ok :: "string \<times> string \<Rightarrow> bool" where
  "line_ok kv \<longleftrightarrow> CHR ''='' \<notin> set (fst kv) \<and> length (fst kv) + length (snd kv) + 1 \<le> 1000000"

lemma while_sep:
  "c \<notin> set k \<Longrightarrow> takeWhile (\<lambda>x. x \<noteq> c) (k @ c # v) = k \<and> dropWhile (\<lambda>x. x \<noteq> c) (k @ c # v) = c # v"
  by (induction k) auto

lemma split_line_ok: "line_ok (k, v) \<Longrightarrow> split_line (k @ ''='' @ v) = Some (k, v)"
  by (simp add: split_line_def line_ok_def while_sep)

lemma unat_line_len: "line_ok kv \<Longrightarrow> unat (line_len kv) = length (fst kv) + length (snd kv) + 1"
proof -
  assume ok: "line_ok kv"
  define n where "n = length (fst kv) + length (snd kv) + 1"
  have "n < 2 ^ 32" using ok by (simp add: line_ok_def n_def)
  moreover have "line_len kv = of_nat n" by (simp add: line_len_def n_def)
  ultimately show ?thesis using unat_of_nat_u32[of n] by (simp add: n_def)
qed

lemma parse_line:
  assumes "line_ok kv"
  shows "parse_from (enc_line kv @ rest) m = parse_from rest (oput (fst kv) (snd kv) m)"
proof -
  let ?line = "bytes (fst kv) @ bytes ''='' @ bytes (snd kv)"
  have len: "unat (line_len kv) = length ?line" using unat_line_len[OF assms] by simp
  have small: "\<not> line_len kv > 1000000"
    using assms len by (simp add: line_ok_def word_less_nat_alt)
  have line: "chars ?line = fst kv @ ''='' @ snd kv" by simp
  have "split_line (chars ?line) = Some (fst kv, snd kv)"
    unfolding line by (rule split_line_ok) (use assms in simp)
  then show ?thesis
    using len small by (subst parse_from.simps) (simp add: enc_line_def Let_def case_prod_unfold)
qed

lemma parse_lines:
  "\<forall>kv \<in> set kvs. line_ok kv \<Longrightarrow>
   parse_from (concat (map enc_line kvs)) m = (Parsed, fold (\<lambda>kv. oput (fst kv) (snd kv)) kvs m)"
proof (induction kvs arbitrary: m)
  case Nil
  then show ?case by (simp add: parse_from.simps)
next
  case (Cons kv kvs)
  then show ?case using parse_line[of kv] by simp
qed

lemma map_of_fold_oput:
  "map_of (fold (\<lambda>kv. oput (fst kv) (snd kv)) kvs m) = map_of m ++ map_of (rev kvs)"
  by (induction kvs arbitrary: m) (auto simp: omap_simps fun_eq_iff map_add_def split: option.splits)

lemma fold_oput_ok: "omap_ok m \<Longrightarrow> omap_ok (fold (\<lambda>kv. oput (fst kv) (snd kv)) kvs m)"
  by (induction kvs arbitrary: m) auto

lemma fold_oput_empty:
  assumes "omap_ok kvs"
  shows "fold (\<lambda>kv. oput (fst kv) (snd kv)) kvs [] = kvs"
proof (rule omap_eqI)
  show "map_of (fold (\<lambda>kv. oput (fst kv) (snd kv)) kvs []) = map_of kvs"
  proof -
    have "distinct (map fst (rev kvs))"
      unfolding rev_map[symmetric] distinct_rev by (rule omap_ok_distinct[OF assms])
    then show ?thesis
      using map_of_inject_set[of "rev kvs" kvs] omap_ok_distinct[OF assms]
      by (simp add: map_of_fold_oput)
  qed
qed (auto intro: fold_oput_ok assms)

lemma length_enc_line [simp]: "length (enc_line kv) = 5 + length (fst kv) + length (snd kv)"
  by (simp add: enc_line_def)

lemma header_size_length: "header_size m = of_nat (length (concat (map enc_line m)))"
proof -
  have "foldl (\<lambda>s kv. s + of_nat (length (fst kv)) + of_nat (length (snd kv)) + 1 + 4) c m
      = (c + of_nat (length (concat (map enc_line m))) :: u32)" for c
    by (induction m arbitrary: c) (simp_all add: add.assoc add.commute add.left_commute)
  from this[of 0] show ?thesis by (simp only: header_size_def add_0)
qed

lemma header_write_ok:
  assumes "length (concat (map enc_line m)) < 2 ^ 32" and "m \<noteq> []"
  shows "header_write m = Inr (Some (concat (map enc_line m)), header_size m)"
proof -
  let ?n = "length (concat (map enc_line m))"
  have n: "unat (header_size m) = ?n"
    unfolding header_size_length by (rule unat_of_nat_u32[OF assms(1)])
  have "?n \<noteq> 0" using assms(2) by (cases m) auto
  then have "header_size m \<noteq> 0" using n by (metis unat_0)
  then show ?thesis using n by (simp add: header_write_def Let_def)
qed

section \<open>Properties\<close>

text \<open>
  C23: A header survives the wire. For a map (in key order, as \<open>std::map\<close> is) with at least one
  entry, whose keys hold no \<open>=\<close>, whose lines stay within the million bytes \<open>parse\<close> accepts and
  which fits a 32-bit size: \<open>write\<close> produces a buffer of exactly the size it reports, and a fresh
  header that parses it holds the same map.
\<close>

theorem header_roundtrip:
  assumes "omap_ok m" and "m \<noteq> []" and "\<forall>kv \<in> set m. line_ok kv"
    and "length (concat (map enc_line m)) < 2 ^ 32"
  shows "\<exists>buf sz. header_write m = Inr (Some buf, sz) \<and> length buf = unat sz
    \<and> parse buf new_header = (Parsed, \<lparr>read_map = m\<rparr>)"
proof -
  have "unat (header_size m) = length (concat (map enc_line m))"
    unfolding header_size_length by (rule unat_of_nat_u32[OF assms(4)])
  moreover have "parse (concat (map enc_line m)) new_header = (Parsed, \<lparr>read_map = m\<rparr>)"
    using parse_lines[OF assms(3)] fold_oput_empty[OF assms(1)]
    by (simp add: parse_def new_header_def)
  ultimately show ?thesis using header_write_ok[OF assms(4,2)] by simp
qed

theorem header_roundtrip_witness:
  "\<exists>buf sz. header_write [(''md5sum'', ''*''), (''topic'', ''/a=b'')] = Inr (Some buf, sz)
    \<and> parse buf new_header = (Parsed, \<lparr>read_map = [(''md5sum'', ''*''), (''topic'', ''/a=b'')]\<rparr>)"
proof -
  let ?m = "[(''md5sum'', ''*''), (''topic'', ''/a=b'')]"
  have "omap_ok ?m" by (simp add: omap_ok_def)
  moreover have "\<forall>kv \<in> set ?m. line_ok kv" by (simp add: line_ok_def)
  ultimately show ?thesis using header_roundtrip[of ?m] by auto
qed

text \<open>
  C38: \<open>parse\<close> reads past the end of its buffer. After any lines that are in order, one to three
  left-over bytes are read as a four-byte length, and a length of up to a million that exceeds
  what is left is copied all the same; only lengths above a million are refused.
\<close>

theorem parse_overreads:
  assumes "\<forall>kv \<in> set kvs. line_ok kv"
    and "(tail \<noteq> [] \<and> length tail < 4)
      \<or> (4 \<le> length tail \<and> bytes_u32 (take 4 tail) \<le> 1000000
         \<and> length tail - 4 < unat (bytes_u32 (take 4 tail)))"
  shows "fst (parse (concat (map enc_line kvs) @ tail) h) = Over_Read"
proof -
  have "parse_from (concat (map enc_line kvs) @ tail) m
      = parse_from tail (fold (\<lambda>kv. oput (fst kv) (snd kv)) kvs m)" for m
    using assms(1) by (induction kvs arbitrary: m) (simp_all add: parse_line)
  moreover have "fst (parse_from tail m) = Over_Read" for m
    using assms(2) by (subst parse_from.simps) (auto simp: Let_def)
  ultimately show ?thesis by (simp add: parse_def case_prod_unfold Let_def)
qed

theorem parse_overreads_witness:
  "fst (parse [0, 0, 1, 0, 65] new_header) = Over_Read \<and> fst (parse [7] new_header) = Over_Read"
proof -
  have "bytes_u32 [0, 0, 1, 0] = 65536" by code_simp
  then show ?thesis
    using parse_overreads[of "[]" "[0, 0, 1, 0, 65]" new_header] parse_overreads[of "[]" "[7]" new_header]
    by simp
qed

end
