(* ===== verification/Connection.thy ===== *)
theory Connection
  imports Channel Conn_Header
begin

text \<open>
  Models how a \<open>TransportTCP\<close> comes to life and is driven (\<open>src/src/transport_tcp.cpp\<close>):
  \<open>setSocket\<close>, \<open>initializeSocket\<close>, \<open>connect\<close>, \<open>listen\<close>, \<open>accept\<close>, the socket options, and
  \<open>socketUpdate\<close>, which the poll thread calls with the events of the socket. What the system
  calls answer is an argument. The invariant \<open>live\<close> ties the transport to its entry in the poll
  set; the lemmas show that it survives every operation, and that none of them aborts.
\<close>

unbundle bit_operations_syntax

section \<open>Socket options\<close>

text \<open>\<open>setsockopt\<close>: failures are logged and ignored, so only the request is recorded.\<close>

definition setsockopt :: "sockopt \<Rightarrow> int \<Rightarrow> ('cb, 'm) tw_scheme \<Rightarrow> ('cb, 'm) tw_scheme" where
  "setsockopt opt v w = w\<lparr>sockopts := sockopts w @ [(sock (conn w), opt, v)]\<rparr>"

text \<open>The boolean says whether the call succeeded.\<close>

definition setReuse :: "bool \<Rightarrow> ('cb, 'm) tw_scheme \<Rightarrow> bool \<times> ('cb, 'm) tw_scheme" where
  "setReuse os_ok w = (os_ok, setsockopt SO_REUSEADDR 1 w)"

definition setNoDelay :: "bool \<Rightarrow> ('cb, 'm) tw_scheme \<Rightarrow> ('cb, 'm) tw_scheme" where
  "setNoDelay nodelay w = setsockopt TCP_NODELAY (if nodelay then 1 else 0) w"

text \<open>The values pass through an \<open>int\<close>.\<close>

definition setKeepAlive ::
  "bool \<Rightarrow> u32 \<Rightarrow> u32 \<Rightarrow> u32 \<Rightarrow> ('cb, 'm) tw_scheme \<Rightarrow> ('cb, 'm) tw_scheme" where
  "setKeepAlive use idle interval count w =
     (if use then
        setsockopt TCP_KEEPCNT (sint count)
          (setsockopt TCP_KEEPINTVL (sint interval)
            (setsockopt TCP_KEEPIDLE (sint idle)
              (setsockopt SO_KEEPALIVE 1 w)))
      else setsockopt SO_KEEPALIVE 0 w)"

definition s_use_keepalive :: bool where "s_use_keepalive = True"

definition s_use_ipv6 :: bool where "s_use_ipv6 = False"

section \<open>Setting up a socket\<close>

text \<open>\<open>res\<close> is what \<open>set_non_blocking\<close> returns, 0 for success.\<close>

definition setNonBlocking :: "int \<Rightarrow> ('cb, 'm) tw_scheme \<Rightarrow> (bool \<times> ('cb, 'm) tw_scheme) res" where
  "setNonBlocking res w =
     (if \<not> synchronous (conn w) then
        if res \<noteq> 0 then bindR (close w) (\<lambda>w'. Inr (False, w')) else Inr (True, w)
      else Inr (True, w))"

text \<open>
  What \<open>getpeername\<close> fills in: the printed address and the port of an IPv4 or IPv6 peer,
  or neither.
\<close>

type_synonym os_peer = "(string \<times> u16) option"

definition getClientURI :: "os_peer \<Rightarrow> 'cb tcp \<Rightarrow> string res" where
  "getClientURI peer t =
     ensure (\<not> is_server t) Assert_Failed
       (case peer of
          Some (ip, port) \<Rightarrow> Inr (ip @ '':'' @ show_nat (unat port))
        | None \<Rightarrow> Inr ('''' @ '':'' @ show_nat 0))"

definition set_host :: "string \<Rightarrow> ('cb, 'm) tw_scheme \<Rightarrow> ('cb, 'm) tw_scheme" where
  "set_host h = upd_conn (\<lambda>t. t\<lparr>cached_remote_host := h\<rparr>)"

definition cache_host :: "os_peer \<Rightarrow> ('cb, 'm) tw_scheme \<Rightarrow> ('cb, 'm) tw_scheme res" where
  "cache_host peer w =
     (if cached_remote_host (conn w) \<noteq> [] then Inr w
      else if is_server (conn w) then Inr (set_host ''TCPServer Socket'' w)
      else bindR (getClientURI peer (conn w))
             (\<lambda>uri. Inr (set_host (uri @ '' on socket '' @ show_int (sock (conn w))) w)))"

definition initializeSocket ::
  "int \<Rightarrow> os_peer \<Rightarrow> ('cb, 'm) tw_scheme \<Rightarrow> (bool \<times> ('cb, 'm) tw_scheme) res" where
  "initializeSocket nb peer w =
     ensure (sock (conn w) \<noteq> INVALID_SOCKET) Assert_Failed
       (bindR (setNonBlocking nb w) (\<lambda>(ok, w1).
          if \<not> ok then Inr (False, w1)
          else bindR (cache_host peer (setKeepAlive s_use_keepalive 60 10 9 w1)) (\<lambda>w2.
            ensure (has_poll_set (conn w2) \<or> synchronous (conn w2)) Assert_Failed
              (Inr (True,
                 if has_poll_set (conn w2)
                 then w2\<lparr>pset := snd (addSocket (sock (conn w2))
                        (Some (Client (self (conn w2)))) (Some (self (conn w2))) (pset w2))\<rparr>
                 else w2)))))"

definition setSocket ::
  "int \<Rightarrow> int \<Rightarrow> os_peer \<Rightarrow> ('cb, 'm) tw_scheme \<Rightarrow> (bool \<times> ('cb, 'm) tw_scheme) res" where
  "setSocket s nb peer w = initializeSocket nb peer (upd_conn (\<lambda>t. t\<lparr>sock := s\<rparr>) w)"

text \<open>
  \<open>parseHeader\<close> looks up \<open>tcp_nodelay\<close> among the values of a connection header.
\<close>

definition parseHeader ::
  "header \<Rightarrow> ('cb, 'm) tw_scheme \<Rightarrow> ('cb, 'm) tw_scheme" where
  "parseHeader h w =
     (if getValue ''tcp_nodelay'' h = Some ''1'' then setNoDelay True w else w)"

section \<open>Connecting\<close>

text \<open>
  How the host resolves: it is a printed IPv4 or IPv6 address, \<open>getaddrinfo\<close> fails, or it
  answers a list of addresses (true for IPv6, with the printed form).
\<close>

datatype os_host = Literal_V4 | Literal_V6 | Lookup_Fails | Lookup "(bool \<times> string) list"

definition address_found :: "os_host \<Rightarrow> bool" where
  "address_found h =
     (case h of Literal_V4 \<Rightarrow> True | Literal_V6 \<Rightarrow> True | Lookup_Fails \<Rightarrow> False
      | Lookup as \<Rightarrow> (\<exists>a \<in> set as. fst a = s_use_ipv6))"

text \<open>
  The answers of the system in the order asked: the new socket, \<open>set_non_blocking\<close>, the host,
  what \<open>::connect\<close> returned and whether \<open>errno\<close> is \<open>EINPROGRESS\<close>, \<open>set_non_blocking\<close> again.
\<close>

record os_connect =
  oc_socket :: int
  oc_nonblock1 :: int
  oc_host :: os_host
  oc_ret :: int
  oc_in_progress :: bool
  oc_nonblock2 :: int

definition try_connect ::
  "os_connect \<Rightarrow> string \<Rightarrow> int \<Rightarrow> ('cb, 'm) tw_scheme \<Rightarrow> (bool \<times> ('cb, 'm) tw_scheme) res" where
  "try_connect os host port w =
     ensure (synchronous (conn w) \<or> oc_ret os \<noteq> 0) Assert_Failed
       (if synchronous (conn w) \<and> oc_ret os \<noteq> 0
            \<or> \<not> synchronous (conn w) \<and> \<not> oc_in_progress os
        then bindR (close w) (\<lambda>w'. Inr (False, w'))
        else initializeSocket (oc_nonblock2 os) None
               (set_host (host @ '':'' @ show_int port @ '' on socket '' @ show_int (sock (conn w))) w))"

definition connect ::
  "os_connect \<Rightarrow> string \<Rightarrow> int \<Rightarrow> ('cb, 'm) tw_scheme \<Rightarrow> (bool \<times> ('cb, 'm) tw_scheme) res" where
  "connect os host port w =
     (let w0 = upd_conn (\<lambda>t. t\<lparr>sock := oc_socket os, connected_host := host,
                             connected_port := port\<rparr>) w
      in if sock (conn w0) = INVALID_SOCKET then Inr (False, w0)
         else bindR (setNonBlocking (oc_nonblock1 os) w0) (\<lambda>(_, w1).
           case oc_host os of
             Lookup_Fails \<Rightarrow> bindR (close w1) (\<lambda>w2. Inr (False, w2))
           | h \<Rightarrow> if address_found h then try_connect os host port w1 else Inr (False, w1)))"

section \<open>Listening and accepting\<close>

text \<open>The new socket, what \<open>bind\<close> returned, the port the system chose, \<open>set_non_blocking\<close>.\<close>

record os_listen =
  ol_socket :: int
  ol_bind :: int
  ol_port :: u16
  ol_nonblock :: int

definition listen ::
  "os_listen \<Rightarrow> int \<Rightarrow> 'cb \<Rightarrow> ('cb, 'm) tw_scheme \<Rightarrow> (bool \<times> ('cb, 'm) tw_scheme) res" where
  "listen os port cb w =
     (let w0 = upd_conn (\<lambda>t. t\<lparr>is_server := True, accept_cb := Some cb, sock := ol_socket os\<rparr>) w
      in if sock (conn w0) \<le> 0 then Inr (False, w0)
         else
           let w1 = (if port \<noteq> 0 then snd (setReuse True w0) else w0)
           in if ol_bind os < 0 then Inr (False, w1)
              else
                let w2 = upd_conn (\<lambda>t. t\<lparr>server_port := int (unat (ol_port os))\<rparr>) w1
                in bindR (initializeSocket (ol_nonblock os) None w2) (\<lambda>(ok, w3).
                     if \<not> ok then Inr (False, w3)
                     else if \<not> synchronous (conn w3)
                          then bindR (enableRead w3) (\<lambda>w4. Inr (True, w4))
                          else Inr (True, w3)))"

text \<open>
  \<open>accept\<close> makes a transport on the same poll set; \<open>i\<close> names it. The world's own transport
  stays the server. A socket that could not be set up is returned all the same.
\<close>

record os_accept =
  oa_socket :: int
  oa_nonblock :: int
  oa_peer :: os_peer

definition accept ::
  "os_accept \<Rightarrow> nat \<Rightarrow> ('cb, 'm) tw_scheme \<Rightarrow> ('cb tcp option \<times> ('cb, 'm) tw_scheme) res" where
  "accept os i w =
     ensure (is_server (conn w)) Assert_Failed
       (if oa_socket os \<ge> 0 then
          bindR (setSocket (oa_socket os) (oa_nonblock os) (oa_peer os)
                   (w\<lparr>conn := new_tcp i (has_poll_set (conn w)) (flags (conn w))\<rparr>))
            (\<lambda>(_, w'). Inr (Some (conn w'), w'\<lparr>conn := conn w\<rparr>))
        else Inr (None, w))"

section \<open>Events\<close>

text \<open>
  \<open>react\<close> is what the layer above does when one of its functions is called (\<open>upcalls\<close> grew).
\<close>

definition reaction ::
  "(('cb, 'm) tw_scheme \<Rightarrow> ('cb, 'm) tw_scheme res) \<Rightarrow> ('cb, 'm) tw_scheme \<Rightarrow> ('cb, 'm) tw_scheme
   \<Rightarrow> ('cb, 'm) tw_scheme res" where
  "reaction react w w' = (if upcalls w' = upcalls w then Inr w' else react w')"

definition run_io ::
  "os_recv \<Rightarrow> os_send \<Rightarrow> io_cb option \<Rightarrow> ('cb, 'm) tw_scheme \<Rightarrow> ('cb, 'm) tw_scheme res" where
  "run_io rr sr cb w =
     (case cb of None \<Rightarrow> Inr w | Some Read_Message \<Rightarrow> readMessage rr w
      | Some Write_Message \<Rightarrow> writeMessage sr w)"

record os_update =
  ou_accept :: os_accept
  ou_name :: nat
  ou_recv :: os_recv
  ou_send :: os_send

definition on_readable ::
  "os_update \<Rightarrow> ('cb, 'm) tw_scheme \<Rightarrow> ('cb, 'm) tw_scheme res" where
  "on_readable os w =
     (if is_server (conn w) then
        bindR (accept (ou_accept os) (ou_name os) w) (\<lambda>(tr, w1).
          case tr of
            None \<Rightarrow> Inr w1
          | Some t \<Rightarrow>
              (case accept_cb (conn w1) of
                 None \<Rightarrow> Inl Assert_Failed
               | Some cb \<Rightarrow> Inr (w1\<lparr>upcalls := upcalls w1 @ [Accepted cb t]\<rparr>)))
      else run_io (ou_recv os) (ou_send os) (read_cb (conn w)) w)"

definition socketUpdate ::
  "(('cb, 'm) tw_scheme \<Rightarrow> ('cb, 'm) tw_scheme res) \<Rightarrow> os_update \<Rightarrow> u32
   \<Rightarrow> ('cb, 'm) tw_scheme \<Rightarrow> ('cb, 'm) tw_scheme res" where
  "socketUpdate react os events w =
     (if is_closed (conn w) then Inr w
      else
        bindR (if events AND POLLIN \<noteq> 0 \<and> expecting_read (conn w)
               then bindR (on_readable os w) (reaction react w) else Inr w)
          (\<lambda>w1.
            bindR (if events AND POLLOUT \<noteq> 0 \<and> expecting_write (conn w1)
                   then bindR (run_io (ou_recv os) (ou_send os) (write_cb (conn w1)) w1) (reaction react w1)
                   else Inr w1)
              (\<lambda>w2.
                if events AND POLLERR \<noteq> 0 \<or> events AND POLLHUP \<noteq> 0 \<or> events AND POLLNVAL \<noteq> 0
                then bindR (close w2) (reaction react w2) else Inr w2)))"

section \<open>The invariant of an established connection\<close>

definition is_disconnect :: "'cb upcall \<Rightarrow> bool" where
  "is_disconnect u = (case u of Disconnected _ _ \<Rightarrow> True | _ \<Rightarrow> False)"

text \<open>
  What the poll set knows of descriptor \<open>s\<close> agrees with what the transport waits for, and it
  waits for writability exactly when something is queued.
\<close>

definition in_step :: "int \<Rightarrow> ('cb, 'm) tw_scheme \<Rightarrow> bool" where
  "in_step s w \<longleftrightarrow>
     mask (pset w) s \<noteq> None
     \<and> (bit_on (mask (pset w) s) POLLIN \<longleftrightarrow> expecting_read (conn w))
     \<and> (bit_on (mask (pset w) s) POLLOUT \<longleftrightarrow> expecting_write (conn w))
     \<and> (expecting_write (conn w) \<longleftrightarrow> send_msgs (conn w) \<noteq> [])"

text \<open>
  \<open>live r s w\<close>: a client connection in message mode on descriptor \<open>s\<close>, on a poll set whose pipe
  is \<open>r\<close>; it is open and in step with the poll set, or was closed once and is out of it.
\<close>

definition live :: "int \<Rightarrow> int \<Rightarrow> ('cb, 'm) tw_scheme \<Rightarrow> bool" where
  "live r s w \<longleftrightarrow>
     (let t = conn w in
      ps_inv r (pset w) \<and> usable t \<and> 0 \<le> s \<and> s \<noteq> r \<and> messages_only t \<and> \<not> is_server t
      \<and> readmsg_cb t \<noteq> None \<and> filter_ok t
      \<and> (if is_closed t
         then sock t = -1 \<and> read_cb t = None \<and> write_cb t = None \<and> closed_fds w = [s]
              \<and> mask (pset w) s = None \<and> length (filter is_disconnect (upcalls w)) \<le> 1
         else sock t = s \<and> read_cb t = Some Read_Message \<and> write_cb t = Some Write_Message
              \<and> closed_fds w = [] \<and> filter is_disconnect (upcalls w) = []
              \<and> in_step s w \<and> (\<forall>m \<in> set (send_msgs t). wr_ok m) \<and> rd_inv t))"

lemma close_live:
  assumes "live r s w" and "close w = Inr w'"
  shows "live r s w'"
proof (cases "is_closed (conn w)")
  case True
  then show ?thesis using assms by simp
next
  case False
  define t' where "t' = (conn w)\<lparr>is_closed := True, sock := INVALID_SOCKET, disconnect_cb := None,
                         read_cb := None, write_cb := None, accept_cb := None\<rparr>"
  have hp: "has_poll_set (conn w)" using assms(1) by (simp add: live_def Let_def usable_def)
  have w': "w' = w\<lparr>conn := t', pset := snd (delSocket s (pset w)),
     closed_fds := closed_fds w @ [s], upcalls := upcalls w @ disconnect_call (conn w)\<rparr>"
    using assms False hp by (auto simp: close_def Let_def t'_def live_def res_simps)
  have "ps_inv r (snd (delSocket s (pset w)))" "mask (snd (delSocket s (pset w))) s = None"
    using assms(1) by (auto simp: live_def Let_def intro: ps_inv_delSocket) (simp add: pr.mk_unreg)
  moreover have "length (filter is_disconnect (disconnect_call (conn w))) \<le> 1"
    by (simp add: disconnect_call_def is_disconnect_def split: option.splits)
  ultimately show ?thesis
    using assms(1) False
    by (simp add: w' live_def Let_def t'_def usable_def synchronous_def filter_ok_def INVALID_SOCKET_def)
qed

lemmas bits_after_add = pr.registered(2) pr.armed[OF _ in_poll_bits(1)] pr.armed[OF _ in_poll_bits(2)]
  pr.other_bit(1)[OF in_poll_bits(3)] pr.other_bit(1)[OF in_poll_bits(4)]

lemmas bits_after_del = pr.registered(3) pr.disarmed
  pr.other_bit(2)[OF in_poll_bits(3)] pr.other_bit(2)[OF in_poll_bits(4)]

text \<open>Changes of the poll set and of the flags that keep a transport live.\<close>

lemma live_openI:
  assumes l: "live r s w" "\<not> is_closed (conn w)"
    and t: "conn w' = (conn w)\<lparr>expecting_read := er, expecting_write := ew, send_msgs := q, msg_counter := c\<rparr>"
    and w': "closed_fds w' = closed_fds w" "upcalls w' = upcalls w" "ps_inv r (pset w')" "in_step s w'"
    and q: "\<forall>m \<in> set q. wr_ok m" "0 \<le> c \<and> c < filter_num (conn w)"
  shows "live r s w'"
  using l w' q by (simp add: live_def Let_def t usable_def synchronous_def filter_ok_def rd_inv_def)

lemma switch_read_live:
  assumes l: "live r s w" 
  shows "enableRead w = Inr w' \<Longrightarrow> live r s w'"
    and "disableRead w = Inr w' \<Longrightarrow> live r s w'"
proof -
  have l': "sock (conn w) = s" "ps_inv r (pset w)" "in_step s w" "s \<noteq> r"
    "\<forall>m \<in> set (send_msgs (conn w)). wr_ok m" 
    "0 \<le> msg_counter (conn w) \<and> msg_counter (conn w) < filter_num (conn w)" if "\<not> is_closed (conn w)"
    using l that by (simp_all add: live_def Let_def filter_ok_def)
  show "live r s w'" if e: "enableRead w = Inr w'"
  proof (cases "is_closed (conn w) \<or> w' = w")
    case True
    then show ?thesis using e l by (auto simp: enableRead_def res_simps)
  next
    case False
    then have opn: "\<not> is_closed (conn w)" by simp
    note l' = l'[OF opn]
    have reg: "mask (pset w) s \<noteq> None" using l'(3) unfolding in_step_def by blast
    from False have w': "w' = w\<lparr>pset := snd (addEvents s POLLIN (pset w)), conn := (conn w)\<lparr>expecting_read := True\<rparr>\<rparr>"
      using switch_result(1)[OF e] l' by auto
    let ?p = "snd (addEvents s POLLIN (pset w))"
    have "mask ?p s \<noteq> None" "bit_on (mask ?p s) POLLIN" "bit_on (mask ?p s) POLLOUT = bit_on (mask (pset w) s) POLLOUT"
      by (simp_all only: reg bits_after_add simp_thms not_False_eq_True)
    then show ?thesis
      using False l' by (intro live_openI[OF l, where er = True and ew = "expecting_write (conn w)" and q = "send_msgs (conn w)" and c = "msg_counter (conn w)"])
       (simp_all add: w' in_step_def ps_inv_addEvents)
  qed
  show "live r s w'" if e: "disableRead w = Inr w'"
  proof (cases "is_closed (conn w) \<or> w' = w")
    case True
    then show ?thesis using e l by (auto simp: disableRead_def res_simps)
  next
    case False
    then have opn: "\<not> is_closed (conn w)" by simp
    note l' = l'[OF opn]
    have reg: "mask (pset w) s \<noteq> None" using l'(3) unfolding in_step_def by blast
    from False have w': "w' = w\<lparr>pset := snd (delEvents s POLLIN (pset w)), conn := (conn w)\<lparr>expecting_read := False\<rparr>\<rparr>"
      using switch_result(2)[OF e] l' by auto
    let ?p = "snd (delEvents s POLLIN (pset w))"
    have "mask ?p s \<noteq> None" "\<not> bit_on (mask ?p s) POLLIN" "bit_on (mask ?p s) POLLOUT = bit_on (mask (pset w) s) POLLOUT"
      by (simp_all only: reg bits_after_del simp_thms not_False_eq_True)
    then show ?thesis
      using False l' by (intro live_openI[OF l, where er = False and ew = "expecting_write (conn w)" and q = "send_msgs (conn w)" and c = "msg_counter (conn w)"])
       (simp_all add: w' in_step_def ps_inv_delEvents)
  qed
qed


definition requeue :: "message list \<Rightarrow> ('cb, 'm) tw_scheme \<Rightarrow> ('cb, 'm) tw_scheme" where
  "requeue q = upd_conn (\<lambda>t. t\<lparr>send_msgs := q\<rparr>)"

lemma requeue_simps [simp]:
  "conn (requeue q w) = (conn w)\<lparr>send_msgs := q\<rparr>" "pset (requeue q w) = pset w"
  "closed_fds (requeue q w) = closed_fds w" "upcalls (requeue q w) = upcalls w"
  by (simp_all add: requeue_def)

lemma finish_frame_effect:
  assumes "finish_frame m w = Inr w'"
  shows "\<exists>q. (w' = requeue q w \<and> q \<noteq> []) \<or> (q = [] \<and> disableWrite (requeue q w) = Inr w')"
proof -
  have front: "set_front x w = requeue (x # tl (send_msgs (conn w))) w" for x
    by (simp add: set_front_def requeue_def upd_conn_def)
  have pop: "upd_conn (\<lambda>t. t\<lparr>send_msgs := tl (send_msgs t)\<rparr>) w = requeue (tl (send_msgs (conn w))) w"
    by (simp add: requeue_def upd_conn_def)
  show ?thesis
    using assms unfolding finish_frame_def Let_def pop
    by (auto simp: front split: if_splits)
qed

lemma writeMessage_effect:
  assumes ret: "writeMessage r w = Inr w'" and opn: "\<not> is_closed (conn w)"
    and ok: "\<forall>m \<in> set (send_msgs (conn w)). wr_ok m"
  shows "if r = Send_Error then \<exists>w1 q. close w = Inr w1 \<and> w' = requeue q w1
    else \<exists>sn q. let v = requeue q (w\<lparr>sent := sn\<rparr>)
      in (w' = v \<and> q \<noteq> []) \<or> (q = [] \<and> disableWrite v = Inr w')"
proof -
  obtain m ms where q: "send_msgs (conn w) = m # ms"
    using ret by (auto simp: writeMessage_def split: list.splits)
  obtain buf sz F where F: "write_ends F" "writeMessage r w = bindR (tcp_write r buf sz w) F"
    using writeMessage_shape[OF q] ok q by (metis list.set_intros(1))
  obtain n w1 where w1: "tcp_write r buf sz w = Inr (n, w1)" "F (n, w1) = Inr w'"
    using ret F(2) by (auto simp: res_simps)
  have front: "set_front x v = requeue (x # tl (send_msgs (conn v))) v" for x and v :: "('a, 'b) tw_scheme"
    by (simp add: set_front_def requeue_def upd_conn_def)
  have self: "requeue (send_msgs (conn v)) v = v" for v :: "('a, 'b) tw_scheme"
    by (simp add: requeue_def upd_conn_def)
  consider (c) "close w1 = Inr w'" | (f) x where "finish_frame x w1 = Inr w'" | (s) x where "w' = set_front x w1"
    using F(1)[unfolded write_ends_def, rule_format, of n w1] w1(2) by auto
  note ends = this
  show ?thesis
  proof (cases "r = Send_Error")
    case True
    then have c1: "close w = Inr w1" "is_closed (conn w1)"
      using w1(1) opn close_result by (auto elim!: tcp_write_result)
    from ends have "\<exists>q. w' = requeue q w1"
    proof cases
      case c
      then have "w' = requeue (send_msgs (conn w1)) w1" using c1(2) self by simp
      then show ?thesis by blast
    next
      case (f x)
      then obtain q where "w' = requeue q w1 \<or> disableWrite (requeue q w1) = Inr w'"
        using finish_frame_effect by blast
      then show ?thesis using c1(2) by (auto simp: disableWrite_def res_simps)
    next
      case (s x)
      then show ?thesis using front by blast
    qed
    then show ?thesis using True c1(1) by auto
  next
    case False
    then obtain sn where w1': "w1 = w\<lparr>sent := sn\<rparr>"
      using w1(1) opn by (auto elim!: tcp_write_result)
    have still: "\<not> is_closed (conn w')"
      using writeMessage_step[OF ok opn False ret] by (simp add: write_step_ok_def)
    from ends have "\<exists>q. (w' = requeue q w1 \<and> q \<noteq> []) \<or> (q = [] \<and> disableWrite (requeue q w1) = Inr w')"
    proof cases
      case c
      then show ?thesis using still close_result by blast
    next
      case (f x)
      then show ?thesis by (rule finish_frame_effect)
    next
      case (s x)
      then show ?thesis using front[of x w1] by blast
    qed
    then show ?thesis using False w1' unfolding Let_def by auto
  qed
qed


lemma requeue_live_closed: "live r s w \<Longrightarrow> is_closed (conn w) \<Longrightarrow> live r s (requeue q w)"
  by (simp add: live_def Let_def usable_def synchronous_def filter_ok_def)

lemma live_disableWrite:
  assumes l: "live r s w" "\<not> is_closed (conn w)"
    and v: "conn v = (conn w)\<lparr>send_msgs := []\<rparr>" "pset v = pset w" "closed_fds v = closed_fds w" "upcalls v = upcalls w"
    and ew: "expecting_write (conn w)" and d: "disableWrite v = Inr w'"
  shows "live r s w'"
proof -
  have l': "sock (conn w) = s" "ps_inv r (pset w)" "in_step s w" "s \<noteq> r"
    "0 \<le> msg_counter (conn w) \<and> msg_counter (conn w) < filter_num (conn w)"
    using l by (simp_all add: live_def Let_def filter_ok_def)
  have reg: "mask (pset w) s \<noteq> None" using l'(3) unfolding in_step_def by blast
  have w': "w' = v\<lparr>pset := snd (delEvents s POLLOUT (pset w)), conn := (conn v)\<lparr>expecting_write := False\<rparr>\<rparr>"
    using d l(2) v ew l'(1) by (auto simp: disableWrite_def with_poll_set_def upd_conn_def res_simps)
  let ?p = "snd (delEvents s POLLOUT (pset w))"
  have "mask ?p s \<noteq> None" "\<not> bit_on (mask ?p s) POLLOUT" "bit_on (mask ?p s) POLLIN = bit_on (mask (pset w) s) POLLIN"
    by (simp_all only: reg bits_after_del simp_thms not_False_eq_True)
  then show ?thesis
    using l' by (intro live_openI[OF l, where er = "expecting_read (conn w)" and ew = False and q = "[]" and c = "msg_counter (conn w)"])
     (simp_all add: w' v in_step_def ps_inv_delEvents)
qed

lemma writeMessage_live:
  assumes l: "live r s w" "\<not> is_closed (conn w)" and ret: "writeMessage sr w = Inr w'"
  shows "live r s w'"
proof -
  have ok: "\<forall>m \<in> set (send_msgs (conn w)). wr_ok m" and step: "in_step s w"
    and c: "0 \<le> msg_counter (conn w) \<and> msg_counter (conn w) < filter_num (conn w)" "ps_inv r (pset w)"
    using l by (simp_all add: live_def Let_def filter_ok_def)
  have ew: "expecting_write (conn w)" 
    using ret step by (auto simp: in_step_def writeMessage_def split: list.splits)
  show ?thesis
  proof (cases "sr = Send_Error")
    case True
    then show ?thesis
      using writeMessage_effect[OF ret l(2) ok] close_live[OF l(1)] requeue_live_closed close_result by fastforce
  next
    case False
    then obtain sn q where e: "(w' = requeue q (w\<lparr>sent := sn\<rparr>) \<and> q \<noteq> [])
      \<or> (q = [] \<and> disableWrite (requeue q (w\<lparr>sent := sn\<rparr>)) = Inr w')"
      using writeMessage_effect[OF ret l(2) ok] by (auto simp: Let_def)
    have ok': "\<forall>m \<in> set (send_msgs (conn w')). wr_ok m"
      using writeMessage_step[OF ok l(2) False ret] by (simp add: write_step_ok_def)
    from e show ?thesis
    proof
      assume "w' = requeue q (w\<lparr>sent := sn\<rparr>) \<and> q \<noteq> []"
      then show ?thesis
        using ok' step c ew
        by (intro live_openI[OF l, where er = "expecting_read (conn w)" and ew = True and q = q and c = "msg_counter (conn w)"])
          (simp_all add: in_step_def)
    next
      assume "q = [] \<and> disableWrite (requeue q (w\<lparr>sent := sn\<rparr>)) = Inr w'"
      then show ?thesis
        by (intro live_disableWrite[OF l, where v = "requeue [] (w\<lparr>sent := sn\<rparr>)"]) (auto simp: ew)
    qed
  qed
qed

lemma readMessage_live:
  assumes l: "live r s w" "\<not> is_closed (conn w)" and ret: "readMessage rr w = Inr w'"
  shows "live r s w'"
proof -
  have "rd_inv (conn w)" "readmsg_cb (conn w) \<noteq> None" 
    using l by (simp_all add: live_def Let_def)
  then obtain cb where cb: "rd_inv (conn w)" "readmsg_cb (conn w) = Some cb" by blast
  have rd: "\<not> is_closed (conn w') \<Longrightarrow> rd_inv (conn w')"
    using readMessage_step[OF cb(1) l(2) cb(2) ret] by (simp add: read_step_ok_def)
  have upd: "live r s (rd_upd b m rc up w)" 
    if "\<not> is_closed (conn w) \<longrightarrow> \<not> b \<or> rd_ok m" for b m rc up
  proof -
    have "filter is_disconnect (map (\<lambda>(cb, fs). Received cb fs) up) = []"
      by (induction up) (auto simp: is_disconnect_def)
    then show ?thesis
      using l that by (auto simp: live_def Let_def rd_upd_def usable_def synchronous_def filter_ok_def in_step_def rd_inv_def)
  qed
  obtain b m rc up where e: "w' = rd_upd b m rc up w
        \<or> (\<exists>w1 m'. close (rd_upd b m rc up w) = Inr w1 \<and> w' = set_read_msg m' w1)"
    using readMessage_effect[OF ret] unfolding read_effect_def by blast
  show ?thesis
  proof (cases "is_closed (conn w')")
    case False
    then have w': "w' = rd_upd b m rc up w" using e close_result by fastforce
    moreover have "\<not> b \<or> rd_ok m" using rd[OF False] w' by (simp add: rd_upd_def rd_inv_def)
    ultimately show ?thesis using upd by simp
  next
    case True
    have "w' \<noteq> rd_upd b m rc up w" using True l(2) by (auto simp: rd_upd_def)
    then obtain w1 m' where w1: "close (rd_upd b m rc up w) = Inr w1" "w' = set_read_msg m' w1"
      using e by blast
    obtain w2 where w2: "close (rd_upd False m rc up w) = Inr w2"
      using usable_close[of "rd_upd False m rc up w"] upd[of False] by (auto simp: live_def Let_def)
    then have lw2: "live r s w2" using close_live upd[of False] by blast
    have "pset w1 = pset w2" "closed_fds w1 = closed_fds w2" "upcalls w1 = upcalls w2"
      "conn w1 = (conn w2)\<lparr>reading := b\<rparr>"
      using w1(1) w2 l(2)
      by (auto simp: close_def Let_def rd_upd_def res_simps disconnect_call_def split: if_splits option.splits)
    then show ?thesis
      using True lw2 by (simp add: w1(2) live_def Let_def usable_def synchronous_def filter_ok_def)
  qed
qed

lemma live_usable: "live r s w \<Longrightarrow> usable (conn w)"
  by (simp add: live_def Let_def)

lemma close_live_returns: "live r s w \<Longrightarrow> \<exists>w'. close w = Inr w' \<and> live r s w'"
  using usable_close[OF live_usable] close_live by blast

lemma upd_counter_live:
  "live r s w \<Longrightarrow> 0 \<le> c \<Longrightarrow> c < n \<Longrightarrow> live r s (upd_conn (\<lambda>t. t\<lparr>filter_num := n, msg_counter := c\<rparr>) w)"
  by (simp add: live_def Let_def usable_def synchronous_def filter_ok_def in_step_def rd_inv_def
      split: if_splits)

lemma sendFrames_live:
  assumes l: "live r s w" and fs: "sendable fs"
  shows "\<exists>w'. sendFrames fs w = Inr w' \<and> live r s w'"
proof -
  let ?c = "(msg_counter (conn w) + 1) mod filter_num (conn w)"
  define w1 where "w1 = upd_conn (\<lambda>t. t\<lparr>msg_counter := (msg_counter t + 1) mod filter_num t\<rparr>) w"
  define m where "m = \<lparr>m_frames = fs, m_numframes = of_nat (length fs),
     m_numframes_filled = 0, m_frame_ind = 0, m_frame_filled = 0,
     m_frame_sz = f_size (fs ! 0), m_frame_sz_filled = 0\<rparr>"
  have c: "0 \<le> ?c" "?c < filter_num (conn w)" using l by (simp_all add: live_def Let_def filter_ok_def)
  have "upd_conn (\<lambda>t. t\<lparr>filter_num := filter_num (conn w), msg_counter := ?c\<rparr>) w = w1" 
    by (simp add: w1_def upd_conn_def)
  then have lw1: "live r s w1" using upd_counter_live[OF l c] by metis
  have ne: "fs \<noteq> []" using fs by (simp add: sendable_def)
  have m: "wr_ok m" using fs by (cases fs) (auto simp: m_def sendable_def wr_ok_def wr_mid_def Let_def)
  have mo: "messages_only (conn w)" using l by (simp add: live_def Let_def)
  have send: "sendFrames fs w = (if ?c \<noteq> 0 then Inr w1 else
     bindR (if send_msgs (conn w1) = [] then enableWrite w1 else Inr w1)
                   (\<lambda>w2. Inr (upd_conn (\<lambda>t. t\<lparr>send_msgs := send_msgs t @ [m]\<rparr>) w2)))"
    using mo ne by (simp add: sendFrames_def w1_def[symmetric] m_def[symmetric] Let_def) (simp add: w1_def)
  show ?thesis
  proof (cases "?c \<noteq> 0 \<or> is_closed (conn w1)")
    case True
    then show ?thesis
    proof (cases "?c = 0")
      case zero: True
      then have cl: "is_closed (conn w1)" using True by simp
      then have "enableWrite w1 = Inr w1" using lw1 by (simp add: enableWrite_def live_def Let_def usable_def)
      then have "sendFrames fs w = Inr (requeue (send_msgs (conn w1) @ [m]) w1)"
        using send zero by (simp add: requeue_def upd_conn_def)
      then show ?thesis using requeue_live_closed[OF lw1 cl] by blast
    qed (use send lw1 in simp)
  next
    case False
    then have opn: "\<not> is_closed (conn w1)" and zero: "?c = 0" by simp_all
    have l': "sock (conn w1) = s" "ps_inv r (pset w1)" "in_step s w1" "s \<noteq> r" "\<forall>m \<in> set (send_msgs (conn w1)). wr_ok m"
      "0 \<le> msg_counter (conn w1) \<and> msg_counter (conn w1) < filter_num (conn w1)" "usable (conn w1)"
      using lw1 opn by (simp_all add: live_def Let_def filter_ok_def)
    have reg: "mask (pset w1) s \<noteq> None" using l'(3) unfolding in_step_def by blast
    show ?thesis
    proof (cases "send_msgs (conn w1) = []")
      case True
      let ?p = "snd (addEvents s POLLOUT (pset w1))"
      let ?w = "w1\<lparr>pset := ?p, conn := (conn w1)\<lparr>expecting_write := True, send_msgs := [m]\<rparr>\<rparr>"
      have "\<not> expecting_write (conn w1)" using True l'(3) by (simp add: in_step_def)
      then have "enableWrite w1 = Inr (w1\<lparr>pset := ?p, conn := (conn w1)\<lparr>expecting_write := True\<rparr>\<rparr>)"
        using l' opn by (simp add: enableWrite_def with_poll_set_def usable_def upd_conn_def)
      then have "sendFrames fs w = Inr ?w" 
        using send zero True by (simp add: upd_conn_def)
      moreover have "mask ?p s \<noteq> None" "bit_on (mask ?p s) POLLOUT" "bit_on (mask ?p s) POLLIN = bit_on (mask (pset w1) s) POLLIN"
        by (simp_all only: reg bits_after_add simp_thms not_False_eq_True)
      then have "live r s ?w" using l' m
        by (intro live_openI[OF lw1 opn, where er = "expecting_read (conn w1)" and ew = True and q = "[m]" and c = "msg_counter (conn w1)"])
         (simp_all add: in_step_def ps_inv_addEvents)
      ultimately show ?thesis by blast
    next
      case False
      let ?w = "upd_conn (\<lambda>t. t\<lparr>send_msgs := send_msgs t @ [m]\<rparr>) w1"
      have "live r s ?w" using l' m False
        by (intro live_openI[OF lw1 opn, where er = "expecting_read (conn w1)" and ew = "expecting_write (conn w1)" and q = "send_msgs (conn w1) @ [m]" and c = "msg_counter (conn w1)"])
         (simp_all add: in_step_def ball_Un)
      then show ?thesis using send zero False by simp
    qed
  qed
qed

section \<open>Calls and events\<close>

text \<open>
  What the layers above call on an established connection. \<open>enableWrite\<close> and \<open>disableWrite\<close>, which are
  public too, are called by the transport itself only; what a call from outside does is part of
  the property on these histories below.
\<close>

datatype 'cb conn_call =
    Send_Frames "frame list"
  | Close
  | Enable_Read
  | Disable_Read
  | Set_Filter int
  | Set_Msg_Callback 'cb
  | Set_Disconnect_Callback 'cb
  | Set_No_Delay bool
  | Parse_Header header

fun do_call :: "'cb conn_call \<Rightarrow> ('cb, 'm) tw_scheme \<Rightarrow> ('cb, 'm) tw_scheme res" where
  "do_call (Send_Frames fs) w = sendFrames fs w"
| "do_call Close w = close w"
| "do_call Enable_Read w = enableRead w"
| "do_call Disable_Read w = disableRead w"
| "do_call (Set_Filter n) w = setFilter n w"
| "do_call (Set_Msg_Callback cb) w = Inr (setMsgCallback cb w)"
| "do_call (Set_Disconnect_Callback cb) w = Inr (setDisconnectCallback cb w)"
| "do_call (Set_No_Delay b) w = Inr (setNoDelay b w)"
| "do_call (Parse_Header h) w = Inr (parseHeader h w)"

fun call_ok :: "'cb conn_call \<Rightarrow> bool" where
  "call_ok (Send_Frames fs) = sendable fs"
| "call_ok (Set_Filter n) = (0 < n)"
| "call_ok _ = True"

lemma conn_call_live:
  assumes l: "live r s w" and ok: "call_ok c"
  shows "\<exists>w'. do_call c w = Inr w' \<and> live r s w'"
proof -
  have opt: "live r s (setsockopt so v w)" for so v
    using l by (simp add: live_def Let_def setsockopt_def in_step_def split: if_splits)
  show ?thesis
  proof (cases c)
    case (Set_Filter n)
    then show ?thesis
      using ok upd_counter_live[OF l, of "n - 1" n] by (simp add: setFilter_def)
  next
    case (Set_Msg_Callback cb)
    then show ?thesis
      using l by (simp add: setMsgCallback_def live_def Let_def usable_def synchronous_def filter_ok_def
          in_step_def rd_inv_def split: if_splits)
  next
    case (Set_Disconnect_Callback cb)
    then show ?thesis
      using l by (simp add: setDisconnectCallback_def live_def Let_def usable_def synchronous_def filter_ok_def
          in_step_def rd_inv_def split: if_splits)
  next
    case Enable_Read
    then show ?thesis using usable_switch(1)[OF live_usable[OF l]] switch_read_live(1)[OF l] by auto
  next
    case Disable_Read
    then show ?thesis using usable_switch(2)[OF live_usable[OF l]] switch_read_live(2)[OF l] by auto
  qed (use ok l opt in \<open>auto simp: setNoDelay_def parseHeader_def sendFrames_live close_live_returns\<close>)
qed

interpretation conn_calls: safe_system do_call "live r s" call_ok for r s
  by unfold_locales (use conn_call_live in fastforce)+

lemma run_io_live:
  assumes l: "live r s w" "\<not> is_closed (conn w)" and cb: "cb = read_cb (conn w) \<or> cb = write_cb (conn w) \<and> expecting_write (conn w)"
  shows "\<exists>w'. run_io rr sr cb w = Inr w' \<and> live r s w'"
proof -
  have t: "read_cb (conn w) = Some Read_Message" "write_cb (conn w) = Some Write_Message" "usable (conn w)"
    "readmsg_cb (conn w) \<noteq> None" "messages_only (conn w)" "rd_inv (conn w)" "in_step s w" "\<forall>m \<in> set (send_msgs (conn w)). wr_ok m"
    using l by (simp_all add: live_def Let_def)
  from cb show ?thesis
  proof
    assume "cb = read_cb (conn w)"
    then show ?thesis
      using readMessage_returns[OF t(3-6)] readMessage_live[OF l] t(1) by (fastforce simp: run_io_def)
  next
    assume c: "cb = write_cb (conn w) \<and> expecting_write (conn w)"
    then obtain m ms where q: "send_msgs (conn w) = m # ms" using t(7) by (auto simp: in_step_def neq_Nil_conv)
    then have "wr_ok m" using t(8) by simp
    then show ?thesis
      using writeMessage_returns[OF t(3) q] writeMessage_live[OF l] t(2) c by (fastforce simp: run_io_def)
  qed
qed

lemma socketUpdate_live:
  assumes l: "live r s w" and react: "\<And>v. live r s v \<Longrightarrow> \<exists>v'. react v = Inr v' \<and> live r s v'"
  shows "\<exists>w'. socketUpdate react os ev w = Inr w' \<and> live r s w'"
proof (cases "is_closed (conn w)")
  case True
  then show ?thesis using l by (simp add: socketUpdate_def)
next
  case False
  have re: "\<exists>v'. reaction react u v = Inr v' \<and> live r s v'" if "live r s v" for u v
    using react[OF that] that by (simp add: reaction_def)
  have nosrv: "\<not> is_server (conn v)" if "live r s v" for v :: "('a, 'b) tw_scheme"
    using that by (simp add: live_def Let_def)
  have cbs: "write_cb (conn v) = None" if "live r s v" "is_closed (conn v)" for v :: "('a, 'b) tw_scheme"
    using that by (simp add: live_def Let_def)
  obtain w1 where w1: "(if ev AND POLLIN \<noteq> 0 \<and> expecting_read (conn w)
      then bindR (on_readable os w) (reaction react w) else Inr w) = Inr w1" "live r s w1"
  proof -
    obtain v where v: "on_readable os w = Inr v" "live r s v"
      using run_io_live[OF l False, of "read_cb (conn w)"] nosrv[OF l] by (auto simp: on_readable_def)
    show ?thesis using that re[OF v(2), of w] v(1) l by (cases "ev AND POLLIN \<noteq> 0 \<and> expecting_read (conn w)") auto
  qed
  obtain w2 where w2: "(if ev AND POLLOUT \<noteq> 0 \<and> expecting_write (conn w1)
      then bindR (run_io (ou_recv os) (ou_send os) (write_cb (conn w1)) w1) (reaction react w1) else Inr w1) = Inr w2" "live r s w2"
  proof (cases "ev AND POLLOUT \<noteq> 0 \<and> expecting_write (conn w1)")
    case True
    obtain v where v: "run_io (ou_recv os) (ou_send os) (write_cb (conn w1)) w1 = Inr v" "live r s v"
    proof (cases "is_closed (conn w1)")
      case c: True
      then show ?thesis using cbs[OF w1(2)] w1(2) that by (simp add: run_io_def)
    next
      case False
      then show ?thesis using run_io_live[OF w1(2) False, of "write_cb (conn w1)"] True that by blast
    qed
    show ?thesis using that re[OF v(2), of w1] v(1) True by auto
  qed (use w1(2) that in auto)
  obtain v where v: "close w2 = Inr v" "live r s v" using close_live_returns[OF w2(2)] by blast
  then obtain v' where v': "reaction react w2 v = Inr v'" "live r s v'" using re[OF v(2)] by blast
  show ?thesis
    using False w1(1) w2 v(1) v' by (simp add: socketUpdate_def)
qed


text \<open>
  A history of an established connection: calls of the layers above, and rounds of the poll
  thread during which those layers may call back in (\<open>after\<close>), once per phase.
\<close>

datatype 'cb conn_event =
    Call "'cb conn_call"
  | Ready u32 os_update "'cb conn_call list"

fun conn_step :: "'cb conn_event \<Rightarrow> ('cb, 'm) tw_scheme \<Rightarrow> ('cb, 'm) tw_scheme res" where
  "conn_step (Call c) w = do_call c w"
| "conn_step (Ready ev os after) w = socketUpdate (foldR do_call after) os ev w"

fun event_ok :: "'cb conn_event \<Rightarrow> bool" where
  "event_ok (Call c) = call_ok c"
| "event_ok (Ready ev os after) = list_all call_ok after"

lemma conn_step_live:
  assumes "live r s w" and "event_ok e"
  shows "\<exists>w'. conn_step e w = Inr w' \<and> live r s w'"
proof (cases e)
  case (Call c)
  then show ?thesis using assms conn_call_live by simp
next
  case (Ready ev os after)
  have "\<exists>v'. foldR do_call after v = Inr v' \<and> live r s v'" if "live r s v" for v :: "('a, 'b) tw_scheme"
    using conn_calls.run_safe[OF that] assms(2) Ready by simp
  then show ?thesis
    using socketUpdate_live[OF assms(1), of "foldR do_call after" os ev] Ready by simp
qed

interpretation cn: safe_system conn_step "live r s" event_ok for r s
  by unfold_locales (use conn_step_live in fastforce)+

lemma do_call_closed: "do_call c w = Inr w' \<Longrightarrow> is_closed (conn w) \<Longrightarrow> is_closed (conn w')"
  by (cases c) (auto simp: sendFrames_def setFilter_def setMsgCallback_def setDisconnectCallback_def
      setNoDelay_def parseHeader_def setsockopt_def Let_def res_simps dest!: switch_result split: if_splits)

lemma calls_stay_closed: "foldR do_call cs w = Inr w' \<Longrightarrow> is_closed (conn w) \<Longrightarrow> is_closed (conn w')"
  by (rule foldR_inv[where f = do_call and xs = cs and I = "\<lambda>w. is_closed (conn w)"]) (auto intro: do_call_closed)

section \<open>Properties\<close>

lemma sample_live: "live 3 7 sample_world"
proof -
  have "in_step 7 sample_world"
    by (simp add: in_step_def sample_world_def mask_def new_tcp_def poll_bits)
  then show ?thesis
    by (simp add: live_def Let_def sample_world_def new_tcp_def usable_def synchronous_def
        filter_ok_def rd_inv_def ps_inv_def omap_ok_Cons mask_def poll_bits)
qed

text \<open>
  Two public operations are left to the transport itself, and no layer calls them: \<open>enableWrite\<close> with
  nothing queued makes the next writable event end the process.
\<close>

lemma enableWrite_idle:
  assumes l: "live r s w" "\<not> is_closed (conn w)" and idle: "send_msgs (conn w) = []"
  shows "\<exists>w1. enableWrite w = Inr w1 \<and> (\<forall>react os. socketUpdate react os POLLOUT w1 = Inl Ros_Break)"
proof -
  have t: "usable (conn w)" "write_cb (conn w) = Some Write_Message" "in_step s w"
    using l by (simp_all add: live_def Let_def)
  then have "\<not> expecting_write (conn w)" using idle by (simp add: in_step_def)
  then obtain p where p: "enableWrite w =
      Inr (w\<lparr>pset := p, conn := (conn w)\<lparr>expecting_write := True\<rparr>\<rparr>)"
    using t(1) l(2) by (simp add: enableWrite_def with_poll_set_def usable_def upd_conn_def)
  show ?thesis
    by (intro exI conjI, rule p) (use l(2) t(2) idle in
      \<open>simp add: socketUpdate_def poll_bits run_io_def writeMessage_def\<close>)
qed

text \<open>
  C4: An established connection never aborts the process, as the layers above use it. They may, in
  any order and also from within a callback, send messages that are well-formed (at least one
  frame, each with as much data as its size), close, switch reading on and off, set a positive
  filter, set callbacks and options; then whatever events the poll thread reports and whatever \<open>recv\<close>
  and \<open>send\<close> answer, no operation hits an assertion, \<open>ROS_BREAK\<close>, an out-of-range access or an empty
  callback, and after every history the poll set waits for exactly what the transport expects. In
  particular \<open>writeMessage\<close> is never called with an empty queue; the calls exclude \<open>enableWrite\<close> and
  \<open>disableWrite\<close>, which are public but which no layer calls: after any such history, \<open>enableWrite\<close> on an
  open connection with nothing queued does make the next writable event end the process.
\<close>

theorem connection_safe:
  assumes "live r s w" and "list_all event_ok es"
  shows "\<exists>w'. foldR conn_step es w = Inr w'
    \<and> (\<not> is_closed (conn w') \<longrightarrow> sock (conn w') = s
        \<and> (bit_on (mask (pset w') s) POLLIN \<longleftrightarrow> expecting_read (conn w'))
        \<and> (bit_on (mask (pset w') s) POLLOUT \<longleftrightarrow> send_msgs (conn w') \<noteq> [])
        \<and> (send_msgs (conn w') = [] \<longrightarrow>
             (\<exists>w1. enableWrite w' = Inr w1 \<and> (\<forall>react os. socketUpdate react os POLLOUT w1 = Inl Ros_Break))))"
proof -
  obtain w' where w': "foldR conn_step es w = Inr w'" "live r s w'" using cn.run_safe[OF assms] by blast
  have "\<exists>w1. enableWrite w' = Inr w1 \<and> (\<forall>react os. socketUpdate react os POLLOUT w1 = Inl Ros_Break)"
    if "\<not> is_closed (conn w')" "send_msgs (conn w') = []"
    by (rule enableWrite_idle[OF w'(2) that])
  then show ?thesis using w' by (auto simp: live_def Let_def in_step_def)
qed

theorem connection_safe_witness:
  "\<exists>w'. foldR conn_step
      [Call (Send_Frames [empty_frame]),
       Ready (POLLIN OR POLLOUT) \<lparr>ou_accept = \<lparr>oa_socket = -1, oa_nonblock = 0, oa_peer = None\<rparr>,
         ou_name = 9, ou_recv = Recv_Data [1, 0, 0], ou_send = Send_Accepts 3\<rparr> [Close],
       Call Close] (sample_world :: nat tw) = Inr w'"
proof -
  have "list_all event_ok
      [Call (Send_Frames [empty_frame]),
       Ready (POLLIN OR POLLOUT) \<lparr>ou_accept = \<lparr>oa_socket = -1, oa_nonblock = 0, oa_peer = None\<rparr>,
         ou_name = 9, ou_recv = Recv_Data [1, 0, 0], ou_send = Send_Accepts 3\<rparr> [Close],
       Call Close]"
    by (simp add: sendable_def frame_ok_def empty_frame_def)
  from connection_safe[OF sample_live this] show ?thesis by blast
qed

text \<open>
  C12: A connection is closed once. Over any history that starts with an open connection on
  descriptor \<open>s\<close>, the descriptor is closed at most once, and exactly once if the transport ends
  up closed; the disconnect callback runs at most once, and not before the connection is
  closed; a closed transport is out of the poll set and holds no descriptor, so that its
  destructor's assertion holds.
\<close>

theorem closed_once:
  assumes "live r s w" and "list_all event_ok es" and "foldR conn_step es w = Inr w'"
  shows "if is_closed (conn w')
    then closed_fds w' = [s] \<and> mask (pset w') s = None \<and> destroy (conn w') = Inr ()
         \<and> length (filter is_disconnect (upcalls w')) \<le> 1
    else closed_fds w' = [] \<and> filter is_disconnect (upcalls w') = []"
  using cn.run_inv[OF assms] by (simp add: live_def Let_def destroy_def split: if_splits)

theorem closed_once_witness:
  "\<exists>w'. foldR conn_step [Call Close, Call Close] sample_world = Inr w' \<and> closed_fds w' = [7]
     \<and> upcalls w' = [Disconnected 6 1]"
proof -
  have run: "\<exists>w'. foldR conn_step [Call Close, Call Close] sample_world = Inr w' \<and> is_closed (conn w')
      \<and> upcalls w' = [Disconnected 6 1]"
    by (simp add: sample_world_def new_tcp_def close_def Let_def INVALID_SOCKET_def disconnect_call_def)
  then show ?thesis using closed_once[OF sample_live, of "[Call Close, Call Close]"] by auto
qed

text \<open>
  Errors on the socket close it. A round with \<open>POLLERR\<close>, \<open>POLLHUP\<close> or \<open>POLLNVAL\<close> leaves an
  established connection closed, after it has read what there was to read.
\<close>

theorem error_event_closes:
  assumes "live r s w" and "ev AND err_bits \<noteq> 0" and "list_all call_ok after"
  shows "\<exists>w'. socketUpdate (foldR do_call after) os ev w = Inr w' \<and> is_closed (conn w')"
proof -
  have err: "ev AND POLLERR \<noteq> 0 \<or> ev AND POLLHUP \<noteq> 0 \<or> ev AND POLLNVAL \<noteq> 0"
    using assms(2) by (auto simp: err_bits_def bit.conj_disj_distrib or_eq_0_iff)
  obtain w' where w': "socketUpdate (foldR do_call after) os ev w = Inr w'"
    using socketUpdate_live[OF assms(1)] conn_calls.run_safe[OF _ assms(3)] by metis
  have "is_closed (conn w')"
  proof (cases "is_closed (conn w)")
    case True
    then show ?thesis using w' by (simp add: socketUpdate_def)
  next
    case False
    obtain w2 v where v: "close w2 = Inr v" "reaction (foldR do_call after) w2 v = Inr w'"
      using w' False err unfolding socketUpdate_def by (simp only: if_False if_True res_simps) blast
    have "is_closed (conn v)" using close_result[OF v(1)] by simp
    then show ?thesis using v(2) by (auto simp: reaction_def intro: calls_stay_closed split: if_splits)
  qed
  then show ?thesis using w' by blast
qed

theorem error_event_closes_witness:
  "\<exists>w'. socketUpdate (foldR do_call [Enable_Read])
      \<lparr>ou_accept = \<lparr>oa_socket = -1, oa_nonblock = 0, oa_peer = None\<rparr>, ou_name = 9,
       ou_recv = Recv_Would_Block, ou_send = Send_Would_Block\<rparr> POLLHUP sample_world = Inr w'
    \<and> is_closed (conn w')"
  by (rule error_event_closes[OF sample_live]) (simp_all add: err_bits_def poll_bits)

section \<open>Connecting\<close>

lemma close_unregistered:
  assumes "\<not> is_closed (conn v)" "sock (conn v) = s" "0 \<le> s" "ps_inv r (pset v)" "mask (pset v) s = None"
  shows "\<exists>v'. close v = Inr v' \<and> is_closed (conn v') \<and> ps_inv r (pset v') \<and> destroy (conn v') = Inr ()
    \<and> closed_fds v' = closed_fds v @ [s] \<and> mask (pset v') s = None \<and> synchronous (conn v') = synchronous (conn v)"
proof -
  have "s \<noteq> r" using assms(4,5) by (auto simp: ps_inv_def)
  then show ?thesis
    using assms by (simp add: close_def Let_def INVALID_SOCKET_def destroy_def ps_inv_delSocket pr.mk_unreg synchronous_def)
qed

lemma initializeSocket_outcome:
  assumes v: "\<not> is_closed (conn v)" "sock (conn v) = s" "0 \<le> s" "ps_inv r (pset v)" "mask (pset v) s = None"
    and t: "\<not> synchronous (conn v)" "has_poll_set (conn v)" "cached_remote_host (conn v) \<noteq> []"
  shows "\<exists>b v'. initializeSocket nb peer v = Inr (b, v') \<and> ps_inv r (pset v')
    \<and> (if b then \<not> is_closed (conn v') \<and> sock (conn v') = s
                 \<and> mask (pset v') s = Some 0 \<and> closed_fds v' = closed_fds v
       else destroy (conn v') = Inr () \<and> closed_fds v' = closed_fds v @ [s] \<and> mask (pset v') s = None)"
proof -
  have s: "s \<noteq> INVALID_SOCKET" using v(3) by (simp add: INVALID_SOCKET_def)
  show ?thesis
  proof (cases "nb = 0")
    case False
    obtain v' where v': "close v = Inr v'" "ps_inv r (pset v')" "destroy (conn v') = Inr ()"
      "closed_fds v' = closed_fds v @ [s]" "mask (pset v') s = None"
      using close_unregistered[OF v] by blast
    then have "initializeSocket nb peer v = Inr (False, v')"
      using False t(1) s v(2) by (simp add: initializeSocket_def setNonBlocking_def)
    then show ?thesis using v' by auto
  next
    case True
    define v1 where "v1 = setKeepAlive s_use_keepalive 60 10 9 v"
    have v1: "conn v1 = conn v" "pset v1 = pset v" "closed_fds v1 = closed_fds v"
      by (simp_all add: v1_def setKeepAlive_def s_use_keepalive_def setsockopt_def)
    have "initializeSocket nb peer v = Inr (True, v1\<lparr>pset := snd (addSocket s
        (Some (Client (self (conn v)))) (Some (self (conn v))) (pset v))\<rparr>)"
      using True t s v(2)
      by (simp add: initializeSocket_def setNonBlocking_def cache_host_def v1_def[symmetric] v1)
    then show ?thesis
      using v v1 by (intro exI[of _ True] exI) (auto simp: ps_inv_addSocket pr.mk_reg)
  qed
qed

text \<open>How \<open>connect\<close> ends when the host has a usable address, or none is looked up.\<close>

lemma connect_usable:
  assumes fresh: "conn w = new_tcp i True fl" "fl AND SYNCHRONOUS = 0" "ps_inv r (pset w)"
    and os: "0 \<le> oc_socket os" "mask (pset w) (oc_socket os) = None"
      "oc_nonblock1 os \<noteq> 0 \<longrightarrow> \<not> oc_in_progress os"
    and host: "oc_host os = Lookup_Fails \<or> address_found (oc_host os) \<and> oc_ret os \<noteq> 0"
  shows "\<exists>b w'. connect os h port w = Inr (b, w') \<and> ps_inv r (pset w')
    \<and> (if b then \<not> is_closed (conn w') \<and> sock (conn w') = oc_socket os
                 \<and> mask (pset w') (oc_socket os) = Some 0 \<and> closed_fds w' = closed_fds w
       else destroy (conn w') = Inr () \<and> closed_fds w' = closed_fds w @ [oc_socket os]
            \<and> mask (pset w') (oc_socket os) = None)"
proof -
  let ?s = "oc_socket os"
  define w0 where "w0 = upd_conn (\<lambda>t. t\<lparr>sock := oc_socket os, connected_host := h, connected_port := port\<rparr>) w"
  have w0: "\<not> is_closed (conn w0)" "sock (conn w0) = ?s" "0 \<le> ?s" "ps_inv r (pset w0)" "mask (pset w0) ?s = None"
    "\<not> synchronous (conn w0)" "has_poll_set (conn w0)" "closed_fds w0 = closed_fds w"
    using fresh os by (simp_all add: w0_def new_tcp_def synchronous_def)
  obtain v where v: "close w0 = Inr v" "is_closed (conn v)" "ps_inv r (pset v)" "destroy (conn v) = Inr ()"
      "closed_fds v = closed_fds w @ [?s]" "mask (pset v) ?s = None" "\<not> synchronous (conn v)"
    using close_unregistered[OF w0(1-5)] w0(6,8) by auto
  have s: "?s \<noteq> INVALID_SOCKET" using os(1) by (simp add: INVALID_SOCKET_def)
  have closes: ?thesis if "connect os h port w = Inr (False, v)"
    using that v by auto
  have start: "connect os h port w = bindR (setNonBlocking (oc_nonblock1 os) w0) (\<lambda>(_, w1).
           case oc_host os of
             Lookup_Fails \<Rightarrow> bindR (close w1) (\<lambda>w2. Inr (False, w2))
           | h' \<Rightarrow> if address_found h' then try_connect os h port w1 else Inr (False, w1))"
    using s w0(2) by (simp add: connect_def w0_def[symmetric] Let_def)
  have rest: "(case oc_host os of Lookup_Fails \<Rightarrow> bindR (close w1) (\<lambda>w2. Inr (False, w2))
           | h' \<Rightarrow> if address_found h' then try_connect os h port w1 else Inr (False, w1))
     = (if oc_host os = Lookup_Fails then bindR (close w1) (\<lambda>w2. Inr (False, w2))
        else try_connect os h port w1)" for w1
    using host by (cases "oc_host os") simp_all
  show ?thesis
  proof (cases "oc_nonblock1 os = 0")
    case False
    then have "connect os h port w = Inr (False, v)"
      using os(3) host v w0(6) by (auto simp: start rest setNonBlocking_def try_connect_def)
    then show ?thesis by (rule closes)
  next
    case True
    show ?thesis
    proof (cases "oc_host os = Lookup_Fails \<or> \<not> oc_in_progress os")
      case c: True
      then have "connect os h port w = Inr (False, v)"
        using host v w0(6) True by (auto simp: start rest setNonBlocking_def try_connect_def)
      then show ?thesis by (rule closes)
    next
      case False
      define v1 where "v1 = set_host (h @ '':'' @ show_int port @ '' on socket '' @ show_int ?s) w0"
      have "connect os h port w = initializeSocket (oc_nonblock2 os) None v1"
        using host w0(2,6) True False by (simp add: start rest setNonBlocking_def try_connect_def v1_def)
      moreover have "\<not> is_closed (conn v1)" "sock (conn v1) = ?s" "ps_inv r (pset v1)" "mask (pset v1) ?s = None"
        "\<not> synchronous (conn v1)" "has_poll_set (conn v1)" "cached_remote_host (conn v1) \<noteq> []"
        "closed_fds v1 = closed_fds w"
        using w0 by (simp_all add: v1_def set_host_def synchronous_def)
      ultimately show ?thesis using initializeSocket_outcome[of v1 ?s r "oc_nonblock2 os" None] os(1) by metis
    qed
  qed
qed

text \<open>The other outcomes: no socket, no usable address, a connection at once.\<close>

lemma connect_no_socket:
  assumes "conn w = new_tcp i True fl" and "oc_socket os = -1"
  shows "\<exists>w'. connect os h port w = Inr (False, w') \<and> pset w' = pset w \<and> closed_fds w' = closed_fds w
    \<and> destroy (conn w') = Inr ()"
  using assms by (simp add: connect_def Let_def INVALID_SOCKET_def destroy_def new_tcp_def)

lemma connect_unusable:
  assumes fresh: "conn w = new_tcp i True fl" "fl AND SYNCHRONOUS = 0" "ps_inv r (pset w)"
    and os: "0 \<le> oc_socket os" "mask (pset w) (oc_socket os) = None"
    and host: "oc_host os \<noteq> Lookup_Fails" "\<not> address_found (oc_host os)"
  shows "\<exists>w'. connect os h port w = Inr (False, w')
    \<and> (if oc_nonblock1 os = 0
       then sock (conn w') = oc_socket os \<and> closed_fds w' = closed_fds w \<and> destroy (conn w') = Inl Assert_Failed
       else ps_inv r (pset w') \<and> mask (pset w') (oc_socket os) = None
            \<and> closed_fds w' = closed_fds w @ [oc_socket os] \<and> destroy (conn w') = Inr ())"
proof -
  define w0 where "w0 = upd_conn (\<lambda>t. t\<lparr>sock := oc_socket os, connected_host := h, connected_port := port\<rparr>) w"
  have w0: "\<not> is_closed (conn w0)" "sock (conn w0) = oc_socket os" "ps_inv r (pset w0)"
    "mask (pset w0) (oc_socket os) = None" "closed_fds w0 = closed_fds w"
    "\<not> synchronous (conn w0)"
    using fresh os by (simp_all add: w0_def new_tcp_def synchronous_def)
  obtain as where as: "oc_host os = Lookup as" "\<not> address_found (Lookup as)"
    using host by (cases "oc_host os") (simp_all add: address_found_def)
  then have start: "connect os h port w = bindR (setNonBlocking (oc_nonblock1 os) w0) (\<lambda>(_, w1). Inr (False, w1))"
    using os(1) w0(2) by (simp add: connect_def w0_def[symmetric] Let_def INVALID_SOCKET_def)
  show ?thesis
  proof (cases "oc_nonblock1 os = 0")
    case True
    then show ?thesis using start w0 os(1) by (simp add: setNonBlocking_def destroy_def INVALID_SOCKET_def)
  next
    case False
    obtain v where "close w0 = Inr v" "ps_inv r (pset v)" "destroy (conn v) = Inr ()"
      "closed_fds v = closed_fds w0 @ [oc_socket os]" "mask (pset v) (oc_socket os) = None"
      using close_unregistered[OF w0(1,2) os(1) w0(3,4)] by blast
    then show ?thesis using start w0(5,6) False by (simp add: setNonBlocking_def)
  qed
qed

lemma connect_at_once:
  assumes fresh: "conn w = new_tcp i True fl" "fl AND SYNCHRONOUS = 0" "ps_inv r (pset w)"
    and os: "0 \<le> oc_socket os" "mask (pset w) (oc_socket os) = None"
    and host: "address_found (oc_host os)" and ret: "oc_ret os = 0"
  shows "connect os h port w = Inl Assert_Failed"
proof -
  define w0 where "w0 = upd_conn (\<lambda>t. t\<lparr>sock := oc_socket os, connected_host := h, connected_port := port\<rparr>) w"
  have w0: "\<not> is_closed (conn w0)" "sock (conn w0) = oc_socket os" "ps_inv r (pset w0)"
    "mask (pset w0) (oc_socket os) = None" "\<not> synchronous (conn w0)"
    using fresh os by (simp_all add: w0_def new_tcp_def synchronous_def)
  obtain v where v: "close w0 = Inr v" "\<not> synchronous (conn v)"
    using close_unregistered[OF w0(1,2) os(1) w0(3,4)] w0(5) by auto
  have "try_connect os h port u = Inl Assert_Failed" if "\<not> synchronous (conn u)" for u :: "('a, 'b) tw_scheme"
    using that ret by (simp add: try_connect_def)
  moreover have "connect os h port w = bindR (setNonBlocking (oc_nonblock1 os) w0) (\<lambda>(_, w1). try_connect os h port w1)"
    using os(1) w0(2) host
    by (cases "oc_host os") (simp_all add: connect_def w0_def[symmetric] Let_def INVALID_SOCKET_def address_found_def)
  ultimately show ?thesis using v w0(5) by (simp add: setNonBlocking_def)
qed

text \<open>
  C27: The five ways \<open>connect\<close> can end on a fresh asynchronous transport. Without a socket it returns
  false and leaves everything as it was. With an address list that holds no address of the right
  family it returns false with the socket still open, so that the destructor aborts, unless the
  socket could not be made non-blocking and was closed for that. If the address is usable and
  \<open>::connect\<close> succeeds at once, the assertion aborts the process. Otherwise \<open>connect\<close> returns: true with
  the new socket open and registered with the poll set, waiting for nothing yet, or false with the
  socket closed, exactly once, and out of the poll set, so that the transport may be destroyed. (A
  socket that was closed because it could not be made non-blocking is not one that a connection can
  be in progress on; that is the one law used of the system.)
\<close>

theorem connect_outcome:
  assumes fresh: "conn w = new_tcp i True fl" "fl AND SYNCHRONOUS = 0" "ps_inv r (pset w)"
    and os: "oc_socket os = -1 \<or> 0 \<le> oc_socket os \<and> mask (pset w) (oc_socket os) = None"
      "oc_nonblock1 os \<noteq> 0 \<longrightarrow> \<not> oc_in_progress os"
  shows "if oc_socket os = -1
    then \<exists>w'. connect os h port w = Inr (False, w') \<and> pset w' = pset w \<and> closed_fds w' = closed_fds w
      \<and> destroy (conn w') = Inr ()
    else if oc_host os \<noteq> Lookup_Fails \<and> \<not> address_found (oc_host os) \<and> oc_nonblock1 os = 0
    then \<exists>w'. connect os h port w = Inr (False, w') \<and> sock (conn w') = oc_socket os
      \<and> closed_fds w' = closed_fds w \<and> destroy (conn w') = Inl Assert_Failed
    else if address_found (oc_host os) \<and> oc_ret os = 0
    then connect os h port w = Inl Assert_Failed
    else \<exists>b w'. connect os h port w = Inr (b, w') \<and> ps_inv r (pset w')
      \<and> (if b then \<not> is_closed (conn w') \<and> sock (conn w') = oc_socket os
                   \<and> mask (pset w') (oc_socket os) = Some 0 \<and> closed_fds w' = closed_fds w
         else destroy (conn w') = Inr () \<and> closed_fds w' = closed_fds w @ [oc_socket os]
              \<and> mask (pset w') (oc_socket os) = None)"
proof (cases "oc_socket os = -1")
  case True
  then show ?thesis using connect_no_socket[OF fresh(1)] by simp
next
  case False
  then have s: "0 \<le> oc_socket os" "mask (pset w) (oc_socket os) = None" using os(1) by simp_all
  consider (unusable) "oc_host os \<noteq> Lookup_Fails" "\<not> address_found (oc_host os)"
    | (at_once) "address_found (oc_host os)" "oc_ret os = 0"
    | (usable) "oc_host os = Lookup_Fails \<or> address_found (oc_host os) \<and> oc_ret os \<noteq> 0" by blast
  then show ?thesis
  proof cases
    case unusable
    then show ?thesis using False connect_unusable[OF fresh s unusable, of h port]
      by (cases "oc_nonblock1 os = 0") (simp_all, blast)
  next
    case at_once
    then show ?thesis using False connect_at_once[OF fresh s at_once] by simp
  next
    case usable
    then have c: "(oc_host os \<noteq> Lookup_Fails \<and> \<not> address_found (oc_host os) \<and> oc_nonblock1 os = 0) = False"
      "(address_found (oc_host os) \<and> oc_ret os = 0) = False"
      by (auto simp: address_found_def)
    show ?thesis unfolding c using connect_usable[OF fresh s os(2) usable, of h port] by (simp only: False if_False)
  qed
qed

theorem connect_outcome_witness:
  "(\<exists>b w'. connect \<lparr>oc_socket = 8, oc_nonblock1 = 0, oc_host = Literal_V4, oc_ret = -1,
      oc_in_progress = True, oc_nonblock2 = 0\<rparr> ''10.0.0.2'' 80
      (sample_world\<lparr>conn := new_tcp 1 True 0\<rparr>) = Inr (b, w') \<and> ps_inv 3 (pset w'))
   \<and> connect \<lparr>oc_socket = 8, oc_nonblock1 = 0, oc_host = Literal_V4, oc_ret = 0,
      oc_in_progress = False, oc_nonblock2 = 0\<rparr> ''127.0.0.1'' 80
      (sample_world\<lparr>conn := new_tcp 1 True 0\<rparr>) = Inl Assert_Failed"
proof -
  have w: "conn (sample_world\<lparr>conn := new_tcp 1 True 0\<rparr>) = new_tcp 1 True 0" "0 AND SYNCHRONOUS = 0"
    "ps_inv 3 (pset (sample_world\<lparr>conn := new_tcp 1 True 0\<rparr>))"
    using sample_live by (simp_all add: live_def Let_def)
  have "mask (pset sample_world) 8 = None" by (simp add: sample_world_def mask_def)
  then show ?thesis
    using connect_outcome[OF w, of "\<lparr>oc_socket = 8, oc_nonblock1 = 0, oc_host = Literal_V4, oc_ret = -1,
      oc_in_progress = True, oc_nonblock2 = 0\<rparr>" "''10.0.0.2''" 80]
      connect_outcome[OF w, of "\<lparr>oc_socket = 8, oc_nonblock1 = 0, oc_host = Literal_V4, oc_ret = 0,
      oc_in_progress = False, oc_nonblock2 = 0\<rparr>" "''127.0.0.1''" 80]
    by (auto simp: address_found_def)
qed

text \<open>
  C35: A host without a usable address leaks the socket. When \<open>getaddrinfo\<close> answers only
  addresses of the other family, \<open>connect\<close> returns false without closing the socket it made; the
  destructor's assertion (\<open>sock_ == -1\<close>) then aborts the process.
\<close>

theorem unresolved_connect_leaks:
  assumes "\<not> is_closed (conn w)" and "oc_socket os \<noteq> -1" and "oc_nonblock1 os = 0"
    and "oc_host os = Lookup as" and "\<forall>a \<in> set as. fst a"
  shows "\<exists>w'. connect os h port w = Inr (False, w') \<and> sock (conn w') = oc_socket os
    \<and> closed_fds w' = closed_fds w \<and> destroy (conn w') = Inl Assert_Failed"
  using assms
  by (auto simp: connect_def setNonBlocking_def Let_def INVALID_SOCKET_def address_found_def
      s_use_ipv6_def destroy_def)

theorem unresolved_connect_leaks_witness:
  "\<exists>w'. connect \<lparr>oc_socket = 7, oc_nonblock1 = 0, oc_host = Lookup [(True, ''::1'')], oc_ret = -1,
      oc_in_progress = True, oc_nonblock2 = 0\<rparr> ''host6'' 80
      (sample_world\<lparr>conn := new_tcp 1 True 0\<rparr>) = Inr (False, w')
    \<and> destroy (conn w') = Inl Assert_Failed"
  using unresolved_connect_leaks[of "sample_world\<lparr>conn := new_tcp 1 True 0\<rparr>"
     "\<lparr>oc_socket = 7, oc_nonblock1 = 0, oc_host = Lookup [(True, ''::1'')], oc_ret = -1,
      oc_in_progress = True, oc_nonblock2 = 0\<rparr>" "[(True, ''::1'')]" "''host6''" 80]
  by (auto simp: new_tcp_def)

end
