(* ===== verification/Establish.thy ===== *)
theory Establish
  imports Connection
begin

text \<open>
  How a connection that \<open>accept\<close> or \<open>connect\<close> made becomes one the invariant \<open>live\<close> speaks of. The
  services and the TCP publish and subscribe transports all install the message mode, the
  callbacks and reading in the same way; \<open>fresh\<close> is the state they find, \<open>armed\<close> the state they
  leave. Also: what every operation of an established connection leaves alone, for the layers
  that extend the view of a connection with their own state.
\<close>

section \<open>A new connection\<close>

definition fresh :: "int \<Rightarrow> int \<Rightarrow> ('cb, 'm) tw_scheme \<Rightarrow> bool" where
  "fresh r s w \<longleftrightarrow>
     (let t = conn w in
      ps_inv r (pset w) \<and> mask (pset w) s = Some 0 \<and> 0 \<le> s \<and> s \<noteq> r
      \<and> usable t \<and> \<not> is_closed t \<and> sock t = s \<and> \<not> is_server t
      \<and> \<not> expecting_read t \<and> \<not> expecting_write t \<and> send_msgs t = [] \<and> \<not> reading t \<and> filter_ok t
      \<and> closed_fds w = [] \<and> filter is_disconnect (upcalls w) = [])"

definition armed :: "'cb \<Rightarrow> 'cb option \<Rightarrow> ('cb, 'm) tw_scheme \<Rightarrow> ('cb, 'm) tw_scheme" where
  "armed c d w =
     w\<lparr>conn := (conn w)\<lparr>messages_only := True, read_cb := Some Read_Message, write_cb := Some Write_Message,
         expecting_read := True, readmsg_cb := Some c,
         disconnect_cb := (case d of None \<Rightarrow> disconnect_cb (conn w) | Some x \<Rightarrow> Some x)\<rparr>,
       pset := snd (addEvents (sock (conn w)) POLLIN (pset w))\<rparr>"

lemma armed_simps [simp]:
  "sent (armed c d w) = sent w" "rcvd (armed c d w) = rcvd w" "upcalls (armed c d w) = upcalls w"
  "send_msgs (conn (armed c d w)) = send_msgs (conn w)" "reading (conn (armed c d w)) = reading (conn w)"
  "is_closed (conn (armed c d w)) = is_closed (conn w)" "self (conn (armed c d w)) = self (conn w)"
  "readmsg_cb (conn (armed c d w)) = Some c" "filter_num (conn (armed c d w)) = filter_num (conn w)"
  "msg_counter (conn (armed c d w)) = msg_counter (conn w)" "is_server (conn (armed c d w)) = is_server (conn w)"
  "tw.more (armed c d w) = tw.more w"
  by (simp_all add: armed_def)

lemma enableRead_fresh:
  assumes "fresh r s w"
  shows "enableRead (enableMessagePass w) = Inr (w\<lparr>
     conn := (conn w)\<lparr>messages_only := True, read_cb := Some Read_Message, write_cb := Some Write_Message,
         expecting_read := True\<rparr>,
     pset := snd (addEvents (sock (conn w)) POLLIN (pset w))\<rparr>)"
  using assms
  by (simp add: fresh_def Let_def usable_def enableRead_def enableMessagePass_def setReadCallback_def
      setWriteCallback_def with_poll_set_def upd_conn_def synchronous_def)

lemma armed_live:
  assumes "fresh r s w"
  shows "live r s (armed c d w)"
proof -
  let ?p = "snd (addEvents s POLLIN (pset w))"
  have f: "mask (pset w) s \<noteq> None" "bit_on (mask (pset w) s) POLLOUT = False" "ps_inv r (pset w)" "s \<noteq> r"
    using assms by (simp_all add: fresh_def Let_def)
  have "mask ?p s \<noteq> None" "bit_on (mask ?p s) POLLIN" "bit_on (mask ?p s) POLLOUT = False"
    using f(1,2) by (simp_all only: bits_after_add simp_thms not_False_eq_True)
  moreover have "ps_inv r ?p" using f by (simp add: ps_inv_addEvents)
  ultimately show ?thesis
    using assms
    by (simp add: fresh_def live_def Let_def armed_def usable_def synchronous_def filter_ok_def
        in_step_def rd_inv_def)
qed

text \<open>The two set-up sequences of the program, with and without a disconnect callback.\<close>

lemma setup_armed:
  assumes "fresh r s w"
  shows "bindR (enableRead (enableMessagePass w)) (\<lambda>w1. Inr (setDisconnectCallback d (setMsgCallback c w1)))
      = Inr (armed c (Some d) w)"
    and "bindR (enableRead (enableMessagePass w)) (\<lambda>w1. Inr (setMsgCallback c w1)) = Inr (armed c None w)"
  by (simp_all add: enableRead_fresh[OF assms] setDisconnectCallback_def setMsgCallback_def upd_conn_def armed_def)

section \<open>Where new connections come from\<close>

text \<open>The view of the accepted connection \<open>t\<close>: the poll set is shared, its own history is empty.\<close>

definition view :: "'cb tcp \<Rightarrow> ('cb, 'm) tw_scheme \<Rightarrow> ('cb, 'm) tw_scheme" where
  "view t w = w\<lparr>conn := t, sent := [], rcvd := [], closed_fds := [], upcalls := []\<rparr>"

text \<open>
  A transport that listens: it is the only new entry of the poll set, waits for connections, and
  knows the port the system chose.
\<close>

lemma listen_result:
  assumes ret: "listen os port cb w = Inr (True, w')"
    and new: "conn w = new_tcp l True fl" "fl AND SYNCHRONOUS = 0" "ps_inv r (pset w)" "mask (pset w) (ol_socket os) = None"
  shows "is_server (conn w') \<and> has_poll_set (conn w') \<and> \<not> synchronous (conn w') \<and> \<not> is_closed (conn w')
    \<and> accept_cb (conn w') = Some cb \<and> server_port (conn w') = int (unat (ol_port os)) \<and> self (conn w') = l
    \<and> sock (conn w') = ol_socket os \<and> ps_inv r (pset w')
    \<and> mask (pset w') = (mask (pset w))(ol_socket os \<mapsto> POLLIN) \<and> tw.more w' = tw.more w"
proof -
  define v where "v = upd_conn (\<lambda>t. t\<lparr>server_port := int (unat (ol_port os))\<rparr>)
    ((if port \<noteq> 0 then snd (setReuse True (upd_conn (\<lambda>t. t\<lparr>is_server := True, accept_cb := Some cb, sock := ol_socket os\<rparr>) w))
      else upd_conn (\<lambda>t. t\<lparr>is_server := True, accept_cb := Some cb, sock := ol_socket os\<rparr>) w))"
  have v: "conn v = (new_tcp l True fl)\<lparr>is_server := True, accept_cb := Some cb, sock := ol_socket os,
      server_port := int (unat (ol_port os))\<rparr>" "pset v = pset w" "tw.more v = tw.more w"
    using new(1) by (simp_all add: v_def setReuse_def setsockopt_def upd_conn_def)
  then have vt: "\<not> synchronous (conn v)" using new(2) by (simp add: new_tcp_def synchronous_def)
  have pos: "0 < ol_socket os" and inner: "bindR (initializeSocket (ol_nonblock os) None v) (\<lambda>(ok, w3).
      if \<not> ok then Inr (False, w3) else if \<not> synchronous (conn w3)
      then bindR (enableRead w3) (\<lambda>w4. Inr (True, w4)) else Inr (True, w3)) = Inr (True, w')"
    using ret by (auto simp: listen_def Let_def v_def split: if_splits)
  define u where "u = set_host ''TCPServer Socket'' (setKeepAlive s_use_keepalive 60 10 9 v)"
  define x where "x = u\<lparr>pset := snd (addSocket (ol_socket os) (Some (Client l)) (Some l) (pset w))\<rparr>"
  have u: "conn u = (conn v)\<lparr>cached_remote_host := ''TCPServer Socket''\<rparr>" "tw.more u = tw.more w" "pset u = pset w"
    using v by (simp_all add: u_def set_host_def setKeepAlive_def s_use_keepalive_def setsockopt_def upd_conn_def)
  have nb: "ol_nonblock os = 0"
  proof (rule ccontr)
    assume n: "ol_nonblock os \<noteq> 0"
    have "sock (conn v) \<noteq> INVALID_SOCKET" using v(1) pos by (simp add: INVALID_SOCKET_def)
    then obtain y where "close v = Inr y" using close_returns by blast
    then show False using inner n vt pos v(1)
      by (simp add: initializeSocket_def setNonBlocking_def INVALID_SOCKET_def)
  qed
  have "initializeSocket (ol_nonblock os) None v = Inr (True, x)"
    using nb v vt pos
    by (simp add: initializeSocket_def setNonBlocking_def cache_host_def x_def u_def set_host_def upd_conn_def
        INVALID_SOCKET_def new_tcp_def setKeepAlive_def s_use_keepalive_def setsockopt_def)
  moreover have "\<not> synchronous (conn x)" "\<not> is_closed (conn x)" "\<not> expecting_read (conn x)" "has_poll_set (conn x)"
    "sock (conn x) = ol_socket os"
    using vt v(1) u(1) by (simp_all add: x_def synchronous_def new_tcp_def)
  ultimately have w': "w' = upd_conn (\<lambda>t. t\<lparr>expecting_read := True\<rparr>)
      (x\<lparr>pset := snd (addEvents (ol_socket os) POLLIN (pset x))\<rparr>)"
    using inner by (simp add: enableRead_def with_poll_set_def)
  have "mask (pset w') = (mask (pset w))(ol_socket os \<mapsto> POLLIN)"
    using new(4) by (simp add: w' x_def pr.mk_add pr.mk_reg)
  moreover have "ps_inv r (pset w')"
    unfolding w' x_def by (simp add: ps_inv_addEvents ps_inv_addSocket new(3))
  ultimately show ?thesis
    using new(2) by (simp add: w' x_def u v new_tcp_def synchronous_def upd_conn_def)
qed

text \<open>Accepting makes a fresh connection.\<close>

lemma accept_fresh:
  fixes w :: "('cb, 'm) tw_scheme"
  assumes srv: "is_server (conn w)" "has_poll_set (conn w)" "\<not> synchronous (conn w)"
    and ps: "ps_inv r (pset w)" "mask (pset w) (oa_socket os) = None"
    and os: "0 \<le> oa_socket os" "oa_nonblock os = 0"
  shows "\<exists>t w1. accept os i w = Inr (Some t, w1) \<and> conn w1 = conn w \<and> tw.more w1 = tw.more w \<and> self t = i
    \<and> filter_num t = 1 \<and> msg_counter t = 0 \<and> fresh r (oa_socket os) (view t w1)
    \<and> (\<forall>fd. fd \<noteq> oa_socket os \<longrightarrow> mask (pset w1) fd = mask (pset w) fd)"
proof -
  let ?s = "oa_socket os"
  define t0 where "t0 = ((new_tcp i True (flags (conn w)))\<lparr>sock := ?s\<rparr> :: 'cb tcp)"
  have s: "?s \<noteq> INVALID_SOCKET" "?s \<noteq> r" using os ps by (auto simp: INVALID_SOCKET_def ps_inv_def)
  have sy: "flags (conn w) AND SYNCHRONOUS = 0" using srv(3) by (simp add: synchronous_def)
  have t0: "sock t0 = ?s" "\<not> synchronous t0" "has_poll_set t0" "\<not> is_server t0" "cached_remote_host t0 = []"
    "\<not> is_closed t0" "self t0 = i"
    using sy by (simp_all add: t0_def new_tcp_def synchronous_def)
  define uri where "uri = projr (getClientURI (oa_peer os) t0)"
  have uri: "getClientURI (oa_peer os) t0 = Inr uri"
    using t0(4) by (simp add: uri_def getClientURI_def split: option.splits)
  define t where "t = t0\<lparr>cached_remote_host := uri @ '' on socket '' @ show_int ?s\<rparr>"
  define w0 where "w0 = setKeepAlive s_use_keepalive 60 10 9 (w\<lparr>conn := t0\<rparr>)"
  have w0: "conn w0 = t0" "pset w0 = pset w" "tw.more w0 = tw.more w"
    by (simp_all add: w0_def setKeepAlive_def s_use_keepalive_def setsockopt_def)
  define w' where "w' = w0\<lparr>conn := t, pset := snd (addSocket ?s (Some (Client i)) (Some i) (pset w))\<rparr>"
  have "initializeSocket (oa_nonblock os) (oa_peer os) (w\<lparr>conn := t0\<rparr>) = Inr (True, w')"
    using s(1) os(2) uri t0
    by (simp add: initializeSocket_def setNonBlocking_def w0_def[symmetric] cache_host_def w0 w'_def t_def
        set_host_def upd_conn_def)
  then have acc: "accept os i w = Inr (Some t, w'\<lparr>conn := conn w\<rparr>)"
    using srv(1,2) os(1) by (simp add: accept_def setSocket_def upd_conn_def w'_def t0_def)
  have "mask (pset w') ?s = Some 0" "ps_inv r (pset w')"
    using ps by (simp_all add: w'_def pr.mk_reg ps_inv_addSocket)
  then have "fresh r ?s (view t (w'\<lparr>conn := conn w\<rparr>))"
    using os(1) s(2) sy
    by (simp add: fresh_def view_def Let_def t_def t0_def new_tcp_def usable_def synchronous_def filter_ok_def)
  moreover have "self t = i" "filter_num t = 1" "msg_counter t = 0" by (simp_all add: t_def t0_def new_tcp_def)
  moreover have "mask (pset w') fd = mask (pset w) fd" if "fd \<noteq> ?s" for fd using that by (simp add: w'_def pr.mk_reg)
  ultimately show ?thesis
    using acc w0(3) by (intro exI[of _ t] exI[of _ "w'\<lparr>conn := conn w\<rparr>"]) (simp add: w'_def)
qed

text \<open>
  A connection that was accepted can be served. When an asynchronous server accepts a new
  descriptor and the socket could be made non-blocking, the accepted transport is registered with
  the poll set and waits for nothing; the set-up that \<open>onAccept\<close> performs on it then never aborts
  and makes it an established connection, for which the safety properties hold. The server itself
  is unchanged.
\<close>

theorem accepted_is_live:
  fixes w :: "('cb, 'm) tw_scheme"
  assumes srv: "is_server (conn w)" "has_poll_set (conn w)" "\<not> synchronous (conn w)"
    and ps: "ps_inv r (pset w)" "mask (pset w) (oa_socket os) = None"
    and os: "0 \<le> oa_socket os" "oa_nonblock os = 0"
  shows "\<exists>t w1 w2. accept os i w = Inr (Some t, w1) \<and> conn w1 = conn w \<and> self t = i
    \<and> bindR (enableRead (enableMessagePass (view t w1)))
        (\<lambda>v. Inr (setDisconnectCallback d (setMsgCallback c v))) = Inr w2
    \<and> live r (oa_socket os) w2 \<and> readmsg_cb (conn w2) = Some c \<and> disconnect_cb (conn w2) = Some d"
proof -
  obtain t w1 where a: "accept os i w = Inr (Some t, w1)" "conn w1 = conn w" "self t = i"
    and fr: "fresh r (oa_socket os) (view t w1)"
    using accept_fresh[OF assms, of i] by blast
  then show ?thesis
    using setup_armed(1)[OF fr, of d c] armed_live[OF fr, of c "Some d"]
    by (intro exI[of _ t] exI[of _ w1] exI[of _ "armed c (Some d) (view t w1)"]) (simp add: armed_def)
qed

theorem accepted_is_live_witness:
  "\<exists>t w1 w2. accept \<lparr>oa_socket = 8, oa_nonblock = 0, oa_peer = Some (''10.0.0.2'', 4711)\<rparr> 5
      (upd_conn (\<lambda>t. t\<lparr>is_server := True\<rparr>) sample_world) = Inr (Some t, w1)
    \<and> bindR (enableRead (enableMessagePass (view t w1)))
        (\<lambda>v. Inr (setDisconnectCallback 6 (setMsgCallback 5 v))) = Inr w2 \<and> live 3 8 w2"
proof -
  let ?w = "upd_conn (\<lambda>t. t\<lparr>is_server := True\<rparr>) sample_world :: nat tw"
  have "ps_inv 3 (pset ?w)" "is_server (conn ?w)" "has_poll_set (conn ?w)" "\<not> synchronous (conn ?w)"
    using sample_live by (simp_all add: live_def Let_def usable_def synchronous_def)
  moreover have "mask (pset ?w) 8 = None" by (simp add: sample_world_def mask_def)
  ultimately show ?thesis
    using accepted_is_live[of ?w 3 "\<lparr>oa_socket = 8, oa_nonblock = 0, oa_peer = Some (''10.0.0.2'', 4711)\<rparr>" 5 6 5]
    by auto
qed

text \<open>A successful \<open>connect\<close> leaves a fresh connection as well.\<close>

lemma connect_fresh:
  assumes c: "connect os h port w = Inr (True, w')"
    and fresh: "conn w = new_tcp i True fl" "fl AND SYNCHRONOUS = 0" "ps_inv r (pset w)"
    and os: "0 \<le> oc_socket os" "mask (pset w) (oc_socket os) = None"
    and new: "closed_fds w = []" "filter is_disconnect (upcalls w) = []"
  shows "Establish.fresh r (oc_socket os) w' \<and> self (conn w') = i \<and> tw.more w' = tw.more w
    \<and> sent w' = sent w \<and> rcvd w' = rcvd w \<and> upcalls w' = upcalls w
    \<and> filter_num (conn w') = 1 \<and> msg_counter (conn w') = 0"
proof -
  let ?s = "oc_socket os"
  define w0 where "w0 = upd_conn (\<lambda>t. t\<lparr>sock := ?s, connected_host := h, connected_port := port\<rparr>) w"
  have w0: "conn w0 = (new_tcp i True fl)\<lparr>sock := ?s, connected_host := h, connected_port := port\<rparr>"
    "\<not> synchronous (conn w0)" "pset w0 = pset w"
    using fresh by (simp_all add: w0_def new_tcp_def synchronous_def)
  define v where "v = set_host (h @ '':'' @ show_int port @ '' on socket '' @ show_int ?s) w0"
  have s: "?s \<noteq> INVALID_SOCKET" "?s \<noteq> -1" using os(1) by (simp_all add: INVALID_SOCKET_def)
  have nb: "oc_nonblock1 os = 0"
  proof (rule ccontr)
    assume n: "oc_nonblock1 os \<noteq> 0"
    obtain u where u: "close w0 = Inr u" "sock (conn u) = INVALID_SOCKET" "\<not> synchronous (conn u)" "is_closed (conn u)"
      using w0 s by (simp add: close_def Let_def new_tcp_def synchronous_def)
    then show False
      using c n s w0(2)
      by (auto simp: connect_def w0_def[symmetric] Let_def setNonBlocking_def try_connect_def initializeSocket_def
          set_host_def res_simps split: os_host.splits if_splits)
  qed
  have v: "conn v = (conn w0)\<lparr>cached_remote_host := h @ '':'' @ show_int port @ '' on socket '' @ show_int ?s\<rparr>"
    by (simp add: v_def set_host_def)
  have vt: "sock (conn v) = ?s" "\<not> synchronous (conn v)" "has_poll_set (conn v)" "cached_remote_host (conn v) \<noteq> []"
    "\<not> is_closed (conn v)" "self (conn v) = i"
    using w0 by (simp_all add: v new_tcp_def synchronous_def)
  have init: "initializeSocket (oc_nonblock2 os) None v = Inr (True, w')"
    using nb c s w0
    by (auto simp: connect_def w0_def[symmetric] Let_def setNonBlocking_def try_connect_def v_def new_tcp_def
        res_simps split: os_host.splits if_splits)
  have nb2: "oc_nonblock2 os = 0"
  proof (rule ccontr)
    assume "oc_nonblock2 os \<noteq> 0"
    moreover obtain u where "close v = Inr u" using vt(1) s(1) close_returns by metis
    ultimately show False using init s vt by (simp add: initializeSocket_def setNonBlocking_def)
  qed
  define u where "u = setKeepAlive s_use_keepalive 60 10 9 v"
  have u: "conn u = conn v" "pset u = pset w" "closed_fds u = []" "upcalls u = upcalls w"
    "tw.more u = tw.more w" "sent u = sent w" "rcvd u = rcvd w"
    using w0(3) new by (simp_all add: u_def v_def set_host_def setKeepAlive_def s_use_keepalive_def setsockopt_def)
       (simp_all add: w0_def upd_conn_def)
  have w': "w' = u\<lparr>pset := snd (addSocket ?s (Some (Client i)) (Some i) (pset w))\<rparr>"
    using init nb2 s vt u
    by (simp add: initializeSocket_def setNonBlocking_def cache_host_def u_def[symmetric])
  show ?thesis
    using os fresh new u ps_inv_addSocket[OF fresh(3)]
    by (auto simp: w' fresh_def Let_def v w0 new_tcp_def usable_def synchronous_def filter_ok_def pr.mk_reg ps_inv_def)
qed

section \<open>What a round of the transport tells the layers above\<close>

text \<open>
  A read or write step is quiet, or it closes the connection and runs the disconnect callback, or
  it hands one message on; the state that a layer adds to the view is out of its reach.
\<close>

definition same_view :: "('cb, 'm) tw_scheme \<Rightarrow> ('cb, 'm) tw_scheme \<Rightarrow> bool" where
  "same_view w w' \<longleftrightarrow> tw.more w' = tw.more w \<and> readmsg_cb (conn w') = readmsg_cb (conn w)
     \<and> self (conn w') = self (conn w)"

definition quiet :: "('cb, 'm) tw_scheme \<Rightarrow> ('cb, 'm) tw_scheme \<Rightarrow> bool" where
  "quiet w w' \<longleftrightarrow> same_view w w' \<and> is_closed (conn w') = is_closed (conn w)
     \<and> disconnect_cb (conn w') = disconnect_cb (conn w) \<and> upcalls w' = upcalls w"

definition shut :: "('cb, 'm) tw_scheme \<Rightarrow> ('cb, 'm) tw_scheme \<Rightarrow> bool" where
  "shut w w' \<longleftrightarrow> same_view w w' \<and> \<not> is_closed (conn w) \<and> is_closed (conn w')
     \<and> upcalls w' = upcalls w @ disconnect_call (conn w)"

definition handed :: "('cb, 'm) tw_scheme \<Rightarrow> ('cb, 'm) tw_scheme \<Rightarrow> bool" where
  "handed w w' \<longleftrightarrow> same_view w w' \<and> is_closed (conn w') = is_closed (conn w)
     \<and> disconnect_cb (conn w') = disconnect_cb (conn w)
     \<and> (\<exists>c fs. readmsg_cb (conn w) = Some c \<and> upcalls w' = upcalls w @ [Received c fs])"

lemma view_simps [simp]:
  "tw.more (upd_conn f w) = tw.more w" "upcalls (upd_conn f w) = upcalls w"
  "tw.more (set_read_msg m w) = tw.more w" "upcalls (set_read_msg m w) = upcalls w"
  "tw.more (set_front m w) = tw.more w" "upcalls (set_front m w) = upcalls w"
  by (simp_all add: upd_conn_def set_read_msg_def set_front_def)

lemma quiet_refl [simp]: "quiet w w"
  by (simp add: quiet_def same_view_def)

lemma quiet_trans [trans]:
  "quiet w v \<Longrightarrow> quiet v u \<Longrightarrow> quiet w u"
  "quiet w v \<Longrightarrow> shut v u \<Longrightarrow> shut w u"
  "shut w v \<Longrightarrow> quiet v u \<Longrightarrow> shut w u"
  "quiet w v \<Longrightarrow> handed v u \<Longrightarrow> handed w u"
  "handed w v \<Longrightarrow> quiet v u \<Longrightarrow> handed w u"
  by (auto simp: quiet_def shut_def handed_def same_view_def disconnect_call_def split: option.splits)

lemma quiet_upd:
  assumes "\<And>t. readmsg_cb (f t) = readmsg_cb t \<and> self (f t) = self t \<and> is_closed (f t) = is_closed t
    \<and> disconnect_cb (f t) = disconnect_cb t"
  shows "quiet w (upd_conn f w)"
  using assms by (simp add: quiet_def same_view_def)

lemma quiet_set [simp]: "quiet w (set_read_msg m w)" "quiet w (set_front m w)"
  unfolding set_read_msg_def set_front_def by (rule quiet_upd, simp)+

lemma close_io: "close w = Inr w' \<Longrightarrow> if is_closed (conn w) then w' = w else shut w w'"
  by (auto simp: close_def Let_def res_simps shut_def same_view_def split: if_splits)

lemma switch_io:
  "enableRead w = Inr w' \<Longrightarrow> quiet w w'" "disableRead w = Inr w' \<Longrightarrow> quiet w w'"
  "enableWrite w = Inr w' \<Longrightarrow> quiet w w'" "disableWrite w = Inr w' \<Longrightarrow> quiet w w'"
  by (auto simp: quiet_def same_view_def dest!: switch_result)

lemma sendFrames_io: "sendFrames fs w = Inr w' \<Longrightarrow> quiet w w'"
  by (auto simp: sendFrames_def Let_def res_simps quiet_def same_view_def dest!: switch_result(3) split: if_splits)

lemma tcp_read_io:
  assumes "tcp_read r sz w = Inr (n, bs, w')"
  shows "if n < 0 then quiet w w' \<or> shut w w' else quiet w w'"
proof -
  have q: "quiet w (w\<lparr>rcvd := b\<rparr>)" for b by (simp add: quiet_def same_view_def)
  show ?thesis
    using assms close_io[of w] q
    by (auto simp: tcp_read_def Let_def res_simps split: if_splits os_recv.splits)
qed

lemma tcp_write_io:
  assumes "tcp_write r buf sz w = Inr (n, w')"
  shows "(quiet w w' \<and> (n < 0 \<longrightarrow> is_closed (conn w'))) \<or> shut w w'"
proof -
  have q: "quiet w (w\<lparr>sent := b\<rparr>)" for b by (simp add: quiet_def same_view_def)
  show ?thesis
    using assms close_io[of w] q
    by (auto simp: tcp_write_def Let_def res_simps split: if_splits os_send.splits)
qed

lemma finish_frame_io:
  assumes "finish_frame m w = Inr w'"
  shows "quiet w w'"
proof -
  have q: "quiet w (upd_conn (\<lambda>t. t\<lparr>send_msgs := tl (send_msgs t)\<rparr>) w)" by (rule quiet_upd) simp
  have "quiet w w'" if "disableWrite (upd_conn (\<lambda>t. t\<lparr>send_msgs := tl (send_msgs t)\<rparr>) w) = Inr w'"
    using quiet_trans(1)[OF q switch_io(4)[OF that]] .
  then show ?thesis using assms q by (auto simp: finish_frame_def Let_def split: if_splits)
qed

text \<open>The end of a write: the frame is finished, the front message updated, or the connection closed.\<close>

lemma write_end_io:
  assumes "tcp_write r buf sz w = Inr (n, v)"
    and "(0 \<le> n \<and> w' = set_front m v) \<or> finish_frame m v = Inr w' \<or> (n < 0 \<and> close v = Inr w')"
  shows "quiet w w' \<or> shut w w'"
proof -
  have v: "(quiet w v \<and> (n < 0 \<longrightarrow> is_closed (conn v))) \<or> shut w v" by (rule tcp_write_io[OF assms(1)])
  have "quiet v w' \<or> (n < 0 \<and> close v = Inr w')" using assms(2) finish_frame_io by auto
  then show ?thesis
  proof
    assume "quiet v w'"
    then show ?thesis using v quiet_trans(1,3) by blast
  next
    assume c: "n < 0 \<and> close v = Inr w'"
    then have "is_closed (conn v)" using v by (auto simp: shut_def)
    then show ?thesis using close_io[of v w'] c v by auto
  qed
qed

lemma writeMessage_io:
  assumes "writeMessage r w = Inr w'"
  shows "quiet w w' \<or> shut w w'"
proof -
  obtain m ms where q: "send_msgs (conn w) = m # ms"
    using assms by (cases "send_msgs (conn w)") (auto simp: writeMessage_def)
  show ?thesis
  proof (cases "m_numframes_filled m < 4")
    case True
    then obtain n v where v: "tcp_write r (drop (unat (m_numframes_filled m)) (u32_bytes (m_numframes m)))
        (4 - m_numframes_filled m) w = Inr (n, v)"
      "(if n \<ge> 0 then Inr (set_front (m\<lparr>m_numframes_filled := m_numframes_filled m + of_int n\<rparr>) v) else close v) = Inr w'"
      using assms q by (auto simp: writeMessage_def res_simps)
    show ?thesis using write_end_io[OF v(1)] v(2) by (auto split: if_splits)
  next
    case False
    then have wf: "writeFrame r m w = Inr w'" using assms q by (simp add: writeMessage_def)
    show ?thesis
      using wf write_end_io[of r _ _ w _ _ w'] finish_frame_io[of m w w']
      unfolding writeFrame_def Let_def
      by (auto simp: res_simps split: if_splits) blast+
  qed
qed

lemma end_frame_io:
  assumes "end_frame m w = Inr w'"
  shows "quiet w w' \<or> handed w w'"
proof -
  have h: "handed w (upd_conn (\<lambda>t. t\<lparr>reading := False\<rparr>) (v\<lparr>upcalls := upcalls v @ [Received c fs]\<rparr>))"
    if "readmsg_cb (conn v) = Some c" "quiet w v" for v :: "('a, 'b) tw_scheme" and c fs
    using that by (simp add: handed_def quiet_def same_view_def)
  show ?thesis
    using assms h[OF _ quiet_set(1)] quiet_set(1)[of w]
    by (auto simp: end_frame_def Let_def split: if_splits option.splits)
qed

lemma read_end_io:
  assumes "tcp_read r sz w = Inr (n, bs, v)"
    and "if n < 0 then w' = v else quiet v w' \<or> handed v w' \<or> shut v w'"
  shows "quiet w w' \<or> handed w w' \<or> shut w w'"
proof (cases "n < 0")
  case True
  then show ?thesis using tcp_read_io[OF assms(1)] assms(2) by auto
next
  case False
  then have q: "quiet w v" using tcp_read_io[OF assms(1)] by simp
  show ?thesis
    using False assms(2) quiet_trans(1)[OF q, of w'] quiet_trans(2)[OF q, of w'] quiet_trans(4)[OF q, of w'] by auto
qed

lemma readFrame_io:
  assumes "readFrame r w = Inr w'"
  shows "quiet w w' \<or> handed w w' \<or> shut w w'"
proof -
  let ?m = "read_msg (conn w)"
  have e: "quiet v w' \<or> handed v w' \<or> shut v w'" if "end_frame m v = Inr w'" for m v
    using end_frame_io[OF that] by blast
  show ?thesis
  proof (cases "m_frame_sz_filled ?m < 4")
    case True
    then obtain n bs v m' where v: "tcp_read r (4 - m_frame_sz_filled ?m) w = Inr (n, bs, v)"
      "if n < 0 then w' = v else end_frame m' v = Inr w'"
      using assms by (auto simp: readFrame_def Let_def res_simps split: if_splits) metis+
    show ?thesis using read_end_io[OF v(1)] v(2) e by (auto split: if_splits)
  next
    case False
    show ?thesis
    proof (cases "f_size (m_frames ?m ! unat (m_frame_ind ?m)) - m_frame_filled ?m > 0")
      case True
      then obtain n bs v m' where v: "tcp_read r (f_size (m_frames ?m ! unat (m_frame_ind ?m)) - m_frame_filled ?m) w = Inr (n, bs, v)"
        "if n < 0 then w' = v else end_frame m' v = Inr w'"
        using assms False by (auto simp: readFrame_def Let_def res_simps split: if_splits) metis+
      show ?thesis using read_end_io[OF v(1)] v(2) e by (auto split: if_splits)
    next
      case 2: False
      then have "end_frame ?m w = Inr w'" using assms False by (auto simp: readFrame_def Let_def res_simps)
      then show ?thesis by (rule e)
    qed
  qed
qed

lemma readMessage_io:
  assumes "readMessage r w = Inr w'"
  shows "quiet w w' \<or> handed w w' \<or> shut w w'"
proof -
  define w1 where "w1 = (if \<not> reading (conn w)
    then upd_conn (\<lambda>t. t\<lparr>read_msg := start_message (read_msg t), reading := True\<rparr>) w else w)"
  let ?m = "read_msg (conn w1)"
  have w1: "quiet w w1" by (auto simp: w1_def intro: quiet_upd)
  have "quiet w1 w' \<or> handed w1 w' \<or> shut w1 w'"
  proof (cases "m_numframes_filled ?m < 4")
    case True
    have go: "bindR (tcp_read r (4 - m_numframes_filled ?m) w1)
               (\<lambda>(n, bs, w2). if n < 0 then Inr w2
                  else
                    let m' = ?m\<lparr>m_numframes := poke_u32 (m_numframes ?m) (unat (m_numframes_filled ?m)) bs,
                               m_numframes_filled := m_numframes_filled ?m + of_int n\<rparr>
                    in if m_numframes_filled m' = 4 then
                         bindR (if m_numframes m' = 0 then close w2 else Inr w2)
                           (\<lambda>w3. Inr (set_read_msg
                              (m'\<lparr>m_frames := resize_frames (unat (m_numframes m')) (m_frames m')\<rparr>) w3))
                       else Inr (set_read_msg m' w2)) = Inr w'"
      using assms True unfolding readMessage_def w1_def[symmetric] Let_def by (simp add: ensure_eq_Inr)
    then obtain n bs v where v: "tcp_read r (4 - m_numframes_filled ?m) w1 = Inr (n, bs, v)"
      by (cases "tcp_read r (4 - m_numframes_filled ?m) w1") auto
    have fin: "quiet v w' \<or> shut v w'" if "bindR (if b then close v else Inr v) (\<lambda>w3. Inr (set_read_msg m' w3)) = Inr w'" for b m'
    proof (cases "close v")
      case (Inr v3)
      then show ?thesis
        using that close_io[OF Inr] quiet_trans(3)[OF _ quiet_set(1), of v v3] quiet_set(1)[of v] by (cases b) (auto split: if_splits)
    qed (use that in \<open>cases b, auto\<close>)
    have n: "if n < 0 then w' = v else quiet v w' \<or> shut v w'"
      using go fin quiet_set(1)[of v] by (auto simp: v Let_def split: if_splits)
    show ?thesis by (rule read_end_io[OF v]) (use n in auto)
  next
    case False
    then have "readFrame r w1 = Inr w'" using assms by (auto simp: readMessage_def Let_def w1_def[symmetric] res_simps)
    then show ?thesis by (rule readFrame_io)
  qed
  then show ?thesis using quiet_trans(1,2,4)[OF w1] by blast
qed

section \<open>The layer above a connection\<close>

text \<open>
  The contract between \<open>TransportTCP\<close> and a layer above it. The layer has an invariant that
  includes \<open>live\<close>; whatever step the transport makes, its reaction keeps the invariant or aborts,
  and it only aborts on a message it was handed, for a reason it can state (\<open>blame\<close>). Then a whole
  round of the poll thread does the same.
\<close>

locale upper_layer =
  fixes react :: "('cb, 'm) tw_scheme \<Rightarrow> ('cb, 'm) tw_scheme res"
    and r s :: int
    and linv :: "('cb, 'm) tw_scheme \<Rightarrow> bool"
    and blame :: "frame list \<Rightarrow> abort \<Rightarrow> ('cb, 'm) tw_scheme \<Rightarrow> bool"
  assumes linv_live: "linv w \<Longrightarrow> live r s w"
    and reacts: "linv w \<Longrightarrow> live r s v \<Longrightarrow> quiet w v \<or> handed w v \<or> shut w v \<Longrightarrow>
      (case reaction react w v of
         Inr w' \<Rightarrow> linv w'
       | Inl e \<Rightarrow> \<exists>c fs. upcalls v = upcalls w @ [Received c fs] \<and> blame fs e w)"
begin

lemma no_abort:
  assumes "linv w" and "live r s v" and "quiet w v \<or> shut w v"
  shows "\<exists>w'. reaction react w v = Inr w' \<and> linv w'"
  using reacts[OF assms(1,2)] assms(3)
  by (auto simp: quiet_def shut_def disconnect_call_def split: sum.splits option.splits)

lemma readable:
  assumes "linv w" and opn: "\<not> is_closed (conn w)"
  shows "case bindR (on_readable os w) (reaction react w) of
      Inr w' \<Rightarrow> linv w'
    | Inl e \<Rightarrow> \<exists>v c fs. on_readable os w = Inr v \<and> upcalls v = upcalls w @ [Received c fs] \<and> blame fs e w"
proof -
  have l: "live r s w" by (rule linv_live[OF assms(1)])
  obtain v where v: "run_io (ou_recv os) (ou_send os) (read_cb (conn w)) w = Inr v" "live r s v"
    using run_io_live[OF l opn] by blast
  have "quiet w v \<or> handed w v \<or> shut w v"
    using v(1) readMessage_io[of _ w v] writeMessage_io[of _ w v]
    by (auto simp: run_io_def split: option.splits io_cb.splits)
  moreover have "on_readable os w = Inr v" using v(1) l by (simp add: on_readable_def live_def Let_def)
  ultimately show ?thesis using reacts[OF assms(1) v(2)] by (auto split: sum.splits)
qed

lemma writable:
  assumes "linv w" and "expecting_write (conn w)"
  shows "\<exists>w'. bindR (run_io rr sr (write_cb (conn w)) w) (reaction react w) = Inr w' \<and> linv w'"
proof -
  have l: "live r s w" by (rule linv_live[OF assms(1)])
  show ?thesis
  proof (cases "is_closed (conn w)")
    case True
    then have "write_cb (conn w) = None" using l by (simp add: live_def Let_def)
    then show ?thesis using assms(1) by (simp add: run_io_def reaction_def)
  next
    case False
    then have cb: "write_cb (conn w) = Some Write_Message" using l by (simp add: live_def Let_def)
    then obtain v where "writeMessage sr w = Inr v" "live r s v"
      using run_io_live[OF l False, of "write_cb (conn w)" rr sr] assms(2) by (auto simp: run_io_def)
    then show ?thesis using no_abort[OF assms(1)] writeMessage_io by (fastforce simp: run_io_def cb)
  qed
qed

lemma shutting:
  assumes "linv w"
  shows "\<exists>w'. bindR (close w) (reaction react w) = Inr w' \<and> linv w'"
proof -
  obtain v where v: "close w = Inr v" "live r s v" using close_live_returns[OF linv_live[OF assms]] by blast
  then have "quiet w v \<or> shut w v" using close_io[OF v(1)] by (auto split: if_splits)
  then show ?thesis using no_abort[OF assms v(2)] v(1) by simp
qed

lemma round:
  assumes "linv w"
  shows "case socketUpdate react os ev w of
      Inr w' \<Rightarrow> linv w'
    | Inl e \<Rightarrow> \<exists>v c fs. on_readable os w = Inr v \<and> upcalls v = upcalls w @ [Received c fs] \<and> blame fs e w"
proof (cases "is_closed (conn w)")
  case True
  then show ?thesis using assms by (simp add: socketUpdate_def)
next
  case False
  define p1 where "p1 = (if ev AND POLLIN \<noteq> 0 \<and> expecting_read (conn w)
    then bindR (on_readable os w) (reaction react w) else Inr w)"
  define p3 where "p3 = (\<lambda>w2. if ev AND POLLERR \<noteq> 0 \<or> ev AND POLLHUP \<noteq> 0 \<or> ev AND POLLNVAL \<noteq> 0
    then bindR (close w2) (reaction react w2) else Inr w2)"
  define p2 where "p2 = (\<lambda>w1. if ev AND POLLOUT \<noteq> 0 \<and> expecting_write (conn w1)
    then bindR (run_io (ou_recv os) (ou_send os) (write_cb (conn w1)) w1) (reaction react w1) else Inr w1)"
  have sp: "socketUpdate react os ev w = bindR p1 (\<lambda>w1. bindR (p2 w1) p3)"
    using False by (simp add: socketUpdate_def p1_def p2_def p3_def)
  show ?thesis
  proof (cases p1)
    case (Inl e)
    then show ?thesis using readable[OF assms False, of os] by (auto simp: sp p1_def split: if_splits)
  next
    case (Inr w1)
    then have "linv w1" using readable[OF assms False, of os] assms by (auto simp: p1_def split: if_splits)
    then obtain w2 where w2: "p2 w1 = Inr w2" "linv w2" using writable[of w1 "ou_recv os" "ou_send os"]
      by (cases "ev AND POLLOUT \<noteq> 0 \<and> expecting_write (conn w1)") (auto simp: p2_def)
    obtain w3 where "p3 w2 = Inr w3" "linv w3" using shutting[OF w2(2)] w2(2)
      by (cases "ev AND POLLERR \<noteq> 0 \<or> ev AND POLLHUP \<noteq> 0 \<or> ev AND POLLNVAL \<noteq> 0") (auto simp: p3_def)
    then show ?thesis using Inr w2(1) by (simp add: sp)
  qed
qed

end

section \<open>For the examples\<close>

text \<open>A poll set with two transports that wait for nothing yet.\<close>

definition idle_set :: "nat poll_set" where
  "idle_set = \<lparr>socket_info =
      [(3, \<lparr>si_transport = None, si_func = Some On_Local_Pipe, si_fd = 3, si_events = POLLIN\<rparr>),
       (7, \<lparr>si_transport = Some 1, si_func = Some (Client 1), si_fd = 7, si_events = 0\<rparr>),
       (8, \<lparr>si_transport = Some 2, si_func = Some (Client 2), si_fd = 8, si_events = 0\<rparr>)],
    sockets_changed = True, just_deleted = [], ufds = [], signal_pipe = (3, 4), pipe_bytes = 0, pipe_capacity = 16\<rparr>"

lemma idle_set_ok [simp]: "ps_inv 3 idle_set" "mask idle_set 7 = Some 0" "mask idle_set 8 = Some 0"
  by (simp_all add: ps_inv_def idle_set_def omap_ok_Cons mask_def poll_bits)

lemma new_fresh:
  fixes w :: "('cb, 'm) tw_scheme"
  assumes "conn w = (new_tcp i True 0)\<lparr>sock := s\<rparr>" "0 \<le> s" "s \<noteq> r" "ps_inv r (pset w)" "mask (pset w) s = Some 0"
    "closed_fds w = []" "upcalls w = []"
  shows "Establish.fresh r s w"
  using assms by (simp add: fresh_def Let_def new_tcp_def usable_def synchronous_def filter_ok_def)

end
