(* ===== verification/Pubsub_TCP.thy ===== *)
theory Pubsub_TCP
  imports Establish Pubsub
begin

text \<open>
  Models \<open>src/src/pubsub_tcp.hpp\<close>: publishing and subscribing over \<open>TransportTCP\<close>. A subscriber
  connects and sends its options as the first message; the publisher then marks the connection as
  set up and sends it every message that the filter it asked for lets through, compressed if it
  asked for that. A publisher has many connections on one poll set, so its world holds them all
  and an operation on one of them works on its view (\<open>focus\<close>).

  Parameters: the serialization of the options (\<open>wro\<close>, \<open>rdo\<close>; \<open>None\<close> when the library throws) and
  the compression library (\<open>compress\<close>, \<open>uncompress\<close>; \<open>None\<close> when it reports an error).
\<close>

section \<open>Options\<close>

record tcp_options =
  tcp_nodelay :: bool
  compression :: byte
  opt_filter :: u32

definition NONE :: byte where "NONE = 0"
definition SNAPPY :: byte where "SNAPPY = 1"

section \<open>Many connections\<close>

text \<open>What a view holds of one connection, and the world of a node: all of them, and the poll set.\<close>

record 'cb conn_io =
  io_conn :: "'cb tcp"
  io_sent :: "byte list"
  io_rcvd :: "byte list"
  io_closed_fds :: "int list"
  io_sockopts :: "(int \<times> sockopt \<times> int) list"
  io_upcalls :: "'cb upcall list"

record 'cb node =
  nd_pset :: "nat poll_set"
  nd_ios :: "nat \<Rightarrow> 'cb conn_io option"

definition view_of :: "'cb conn_io \<Rightarrow> ('cb, 'm) node_scheme \<Rightarrow> 'cb tw" where
  "view_of io n = \<lparr>conn = io_conn io, pset = nd_pset n, sent = io_sent io, rcvd = io_rcvd io,
     closed_fds = io_closed_fds io, sockopts = io_sockopts io, upcalls = io_upcalls io\<rparr>"

definition io_of :: "'cb tw \<Rightarrow> 'cb conn_io" where
  "io_of w = \<lparr>io_conn = conn w, io_sent = sent w, io_rcvd = rcvd w, io_closed_fds = closed_fds w,
     io_sockopts = sockopts w, io_upcalls = upcalls w\<rparr>"

definition focus ::
  "nat \<Rightarrow> ('cb tw \<Rightarrow> 'cb tw res) \<Rightarrow> ('cb, 'm) node_scheme \<Rightarrow> ('cb, 'm) node_scheme res" where
  "focus i f n =
     (case nd_ios n i of
        None \<Rightarrow> Inl Use_After_Free
      | Some io \<Rightarrow> bindR (f (view_of io n))
          (\<lambda>w. Inr (n\<lparr>nd_pset := pset w, nd_ios := (nd_ios n)(i \<mapsto> io_of w)\<rparr>)))"

section \<open>Publishing\<close>

datatype pub_cb = Pub_Accept | Pub_Options nat | Pub_Disconnect

record pub_connection =
  cn_tcp :: nat
  cn_setup :: bool
  cn_opts :: tcp_options

text \<open>The listening transport is one of the node's connections, named by \<open>tp_server\<close>.\<close>

record tcp_publish = "pub_cb node" +
  tp_server :: nat
  tp_connections :: "pub_connection list"

definition tp_start :: "os_listen \<Rightarrow> int \<Rightarrow> tcp_publish \<Rightarrow> tcp_publish res" where
  "tp_start os port n =
     focus (tp_server n) (\<lambda>w. bindR (listen os port Pub_Accept w) (\<lambda>(ok, w'). ensure ok Ros_Break (Inr w'))) n"

text \<open>\<open>opts0\<close> are the options of a fresh \<open>Connection\<close>, as the generated constructor leaves them.\<close>

definition tp_onAccept :: "tcp_options \<Rightarrow> os_peer \<Rightarrow> nat \<Rightarrow> tcp_publish \<Rightarrow> tcp_publish res" where
  "tp_onAccept opts0 peer i n =
     focus i (\<lambda>w. bindR (getClientURI peer (conn w)) (\<lambda>_.
         bindR (enableRead (setDisconnectCallback Pub_Disconnect (enableMessagePass w)))
           (\<lambda>w1. Inr (setMsgCallback (Pub_Options i) w1))))
       (n\<lparr>tp_connections := tp_connections n @ [\<lparr>cn_tcp = i, cn_setup = False, cn_opts = opts0\<rparr>]\<rparr>)"

text \<open>
  \<open>onOptions\<close>: the transport may be gone (the weak pointer does not lock). The filter passes
  through an \<open>int\<close>.
\<close>

fun set_up :: "nat \<Rightarrow> tcp_options \<Rightarrow> pub_connection list \<Rightarrow> pub_connection list" where
  "set_up i opts [] = []"
| "set_up i opts (c # cs) =
     (if cn_tcp c = i then c\<lparr>cn_setup := True, cn_opts := opts\<rparr> # cs else c # set_up i opts cs)"

definition tp_onOptions ::
  "(byte list \<Rightarrow> tcp_options option) \<Rightarrow> nat \<Rightarrow> frame list \<Rightarrow> tcp_publish \<Rightarrow> tcp_publish res" where
  "tp_onOptions rdo i frames n =
     ensure (length frames = 1) Ros_Break
       (if nd_ios n i = None then Inr n
        else bindR (focus i disableRead n) (\<lambda>n1.
          case find (\<lambda>c. cn_tcp c = i) (tp_connections n1) of
            None \<Rightarrow> Inr n1
          | Some c \<Rightarrow>
              ensure (\<not> cn_setup c) Ros_Break
                (case rdo (payload (frames ! 0)) of
                   None \<Rightarrow> Inl Stream_Overrun
                 | Some opts \<Rightarrow>
                     bindR (focus i (\<lambda>w. setFilter (sint (opt_filter opts)) (setNoDelay (tcp_nodelay opts) w)) n1)
                       (\<lambda>n2. Inr (n2\<lparr>tp_connections := set_up i opts (tp_connections n2)\<rparr>)))))"

fun drop_conn :: "nat \<Rightarrow> pub_connection list \<Rightarrow> pub_connection list" where
  "drop_conn i [] = []"
| "drop_conn i (c # cs) = (if cn_tcp c = i then cs else c # drop_conn i cs)"

definition tp_onDisconnect :: "nat \<Rightarrow> tcp_publish \<Rightarrow> tcp_publish" where
  "tp_onDisconnect i n = n\<lparr>tp_connections := drop_conn i (tp_connections n)\<rparr>"

text \<open>One turn of the loop over the copied connections; compressing twice gives the same bytes.\<close>

definition publish_to ::
  "(byte list \<Rightarrow> byte list) \<Rightarrow> msg \<Rightarrow> pub_connection \<Rightarrow> tcp_publish \<Rightarrow> tcp_publish res" where
  "publish_to compress m c n =
     (let data = take (unat (m_sz m)) (m_bytes m) in
      if \<not> cn_setup c then Inr n
      else if compression (cn_opts c) = NONE then focus (cn_tcp c) (sendMessage data (m_sz m)) n
      else if compression (cn_opts c) = SNAPPY then
        focus (cn_tcp c) (sendMessage (compress data) (of_nat (length (compress data)))) n
      else Inl Ros_Break)"

definition tp_publish :: "(byte list \<Rightarrow> byte list) \<Rightarrow> msg \<Rightarrow> tcp_publish \<Rightarrow> tcp_publish res" where
  "tp_publish compress m n = foldR (publish_to compress m) (tp_connections n) n"

text \<open>\<open>close\<close> of a connection runs \<open>onDisconnect\<close> if the callback is installed.\<close>

definition close_conn :: "nat \<Rightarrow> tcp_publish \<Rightarrow> tcp_publish res" where
  "close_conn i n =
     bindR (focus i close n) (\<lambda>n1.
       Inr (case (nd_ios n i, nd_ios n1 i) of
              (Some io, Some io1) \<Rightarrow>
                (case drop (length (io_upcalls io)) (io_upcalls io1) of
                   [Disconnected Pub_Disconnect j] \<Rightarrow> tp_onDisconnect j n1
                 | _ \<Rightarrow> n1)
            | _ \<Rightarrow> n1))"

definition tp_shutdown :: "tcp_publish \<Rightarrow> tcp_publish res" where
  "tp_shutdown n =
     bindR (foldR (\<lambda>c. close_conn (cn_tcp c)) (tp_connections n) n) (\<lambda>n1. close_conn (tp_server n1) n1)"

definition tcp_protocol :: string where "tcp_protocol = ''tcpros''"

definition tp_endpoint :: "tcp_publish \<Rightarrow> string res" where
  "tp_endpoint n =
     (case nd_ios n (tp_server n) of
        None \<Rightarrow> Inl Null_Deref
      | Some io \<Rightarrow> Inr (''localhost:'' @ show_int (server_port (io_conn io))))"

section \<open>Subscribing\<close>

datatype sub_cb = Sub_Receive | Sub_Disconnect

text \<open>
  The transport made by the last \<open>start\<close> is the one of the world (\<open>ts_tcp\<close>: there is one); an earlier
  one lives on in the poll set. \<open>delivered\<close>
  records the calls of \<open>cb_\<close>; \<open>ts_cb\<close> says whether it was set.
\<close>

record tcp_subscribe = "sub_cb tw" +
  ts_tcp :: bool
  ts_cb :: bool
  ts_opts :: tcp_options
  delivered :: "msg list"

definition ts_onReceive :: "tcp_subscribe \<Rightarrow> tcp_subscribe" where
  "ts_onReceive w = w\<lparr>ts_cb := True\<rparr>"

text \<open>\<open>atoi\<close>: the value of the leading digits, after blanks and a sign, 0 without any.\<close>

fun digits_value :: "int \<Rightarrow> string \<Rightarrow> int" where
  "digits_value acc [] = acc"
| "digits_value acc (c # cs) =
     (if CHR ''0'' \<le> c \<and> c \<le> CHR ''9''
      then digits_value (10 * acc + (int (of_char c) - 48)) cs else acc)"

definition atoi :: "string \<Rightarrow> int" where
  "atoi s =
     (let t = dropWhile (\<lambda>c. c \<in> set [CHR '' '', CHR 0x09, CHR 0x0A, CHR 0x0B, CHR 0x0C, CHR 0x0D]) s
      in case t of
           [] \<Rightarrow> 0
         | c # cs \<Rightarrow> if c = CHR ''-'' then - digits_value 0 cs
                     else if c = CHR ''+'' then digits_value 0 cs else digits_value 0 t)"

definition endpoint_host :: "string \<Rightarrow> string" where
  "endpoint_host endpoint =
     (let host = takeWhile (\<lambda>c. c \<noteq> CHR '':'') endpoint
      in if host = ''localhost'' then ''127.0.0.1'' else host)"

text \<open>Without a colon \<open>n + 1\<close> wraps to 0 and the whole endpoint is read as the port.\<close>

definition endpoint_port :: "string \<Rightarrow> int" where
  "endpoint_port endpoint =
     atoi (if CHR '':'' \<in> set endpoint then tl (dropWhile (\<lambda>c. c \<noteq> CHR '':'') endpoint) else endpoint)"

definition ts_start ::
  "(tcp_options \<Rightarrow> byte list) \<Rightarrow> os_connect \<Rightarrow> nat \<Rightarrow> string \<Rightarrow> tcp_subscribe \<Rightarrow> tcp_subscribe res" where
  "ts_start wro os i endpoint w =
     bindR (connect os (endpoint_host endpoint) (endpoint_port endpoint)
              (view (new_tcp i True 0) (w\<lparr>ts_tcp := True\<rparr>))) (\<lambda>(ok, w1).
     ensure ok Ros_Break
       (bindR (enableRead (enableMessagePass (setDisconnectCallback Sub_Disconnect w1))) (\<lambda>w2.
          sendMessage (wro (ts_opts w2)) (of_nat (length (wro (ts_opts w2)))) (setMsgCallback Sub_Receive w2))))"

definition ts_deliver :: "msg \<Rightarrow> tcp_subscribe \<Rightarrow> tcp_subscribe res" where
  "ts_deliver m w = ensure (ts_cb w) Bad_Call (Inr (w\<lparr>delivered := delivered w @ [m]\<rparr>))"

definition ts_receive ::
  "(byte list \<Rightarrow> byte list option) \<Rightarrow> frame list \<Rightarrow> tcp_subscribe \<Rightarrow> tcp_subscribe res" where
  "ts_receive uncompress frames w =
     ensure (length frames = 1) Ros_Break
       (let data = payload (frames ! 0) in
        if compression (ts_opts w) = NONE then
          ts_deliver (fill data (new_msg [] (f_size (frames ! 0)))) w
        else if compression (ts_opts w) = SNAPPY then
          (case uncompress data of
             None \<Rightarrow> Inr w
           | Some bs \<Rightarrow> ts_deliver (fill bs (new_msg [] (of_nat (length bs)))) w)
        else Inl Ros_Break)"

definition ts_onDisconnect :: "tcp_subscribe \<Rightarrow> tcp_subscribe res" where
  "ts_onDisconnect w = close w"

definition ts_shutdown :: "tcp_subscribe \<Rightarrow> tcp_subscribe res" where
  "ts_shutdown w = (if ts_tcp w then close w else Inr w)"

definition ts_react ::
  "(byte list \<Rightarrow> byte list option) \<Rightarrow> tcp_subscribe \<Rightarrow> tcp_subscribe res" where
  "ts_react uncompress w =
     (case last (upcalls w) of
        Received Sub_Receive frames \<Rightarrow> ts_receive uncompress frames w
      | Disconnected Sub_Disconnect _ \<Rightarrow> ts_onDisconnect w
      | _ \<Rightarrow> Inr w)"

text \<open>The transports the factories make; what the listening socket answers decides the first.\<close>

definition CreatePubTransport :: "os_listen \<Rightarrow> tcp_publish \<Rightarrow> tcp_publish res" where
  "CreatePubTransport os n = tp_start os 0 n"

definition CreateSubTransport :: "tcp_subscribe \<Rightarrow> tcp_subscribe" where
  "CreateSubTransport w = w\<lparr>ts_tcp := False, ts_cb := False,
     ts_opts := \<lparr>tcp_nodelay = True, compression = NONE, opt_filter = 1\<rparr>, delivered := []\<rparr>"

section \<open>Connections do not disturb each other\<close>

lemma view_of_io [simp]: "view_of (io_of w) (n\<lparr>nd_pset := pset w, nd_ios := g\<rparr>) = w"
  by (simp add: view_of_def io_of_def)

lemma view_simps' [simp]:
  "conn (view_of io n) = io_conn io" "pset (view_of io n) = nd_pset n" "sent (view_of io n) = io_sent io"
  "rcvd (view_of io n) = io_rcvd io" "upcalls (view_of io n) = io_upcalls io"
  "closed_fds (view_of io n) = io_closed_fds io" "sockopts (view_of io n) = io_sockopts io"
  "io_conn (io_of w) = conn w" "io_sent (io_of w) = sent w" "io_rcvd (io_of w) = rcvd w"
  "io_upcalls (io_of w) = upcalls w" "io_closed_fds (io_of w) = closed_fds w" "io_sockopts (io_of w) = sockopts w"
  by (simp_all add: view_of_def io_of_def)

text \<open>A connection only sees its own entry of the poll set.\<close>

lemma live_other_pset:
  assumes "live r s w" and "ps_inv r p" and "mask p s = mask (pset w) s"
  shows "live r s (w\<lparr>pset := p\<rparr>)"
  using assms by (simp add: live_def Let_def in_step_def split: if_splits)

definition apart :: "int \<Rightarrow> nat poll_set \<Rightarrow> nat poll_set \<Rightarrow> bool" where
  "apart s p p' \<longleftrightarrow> (\<forall>t. t \<noteq> s \<longrightarrow> mask p' t = mask p t)"

lemma apart_refl [simp]: "apart s p p"
  by (simp add: apart_def)

lemma switch_apart:
  assumes "sock (conn w) = s"
  shows "enableRead w = Inr w' \<Longrightarrow> apart s (pset w) (pset w')"
    "disableRead w = Inr w' \<Longrightarrow> apart s (pset w) (pset w')"
    "enableWrite w = Inr w' \<Longrightarrow> apart s (pset w) (pset w')"
  using assms by (auto simp: apart_def mask_addEvents mask_delEvents dest!: switch_result)

lemma sendFrames_apart:
  assumes "sock (conn w) = s" and "sendFrames fs w = Inr w'"
  shows "apart s (pset w) (pset w') \<and> sock (conn w') = s \<and> rcvd w' = rcvd w \<and> closed_fds w' = closed_fds w"
  using assms by (auto simp: sendFrames_def Let_def res_simps apart_def mask_addEvents dest!: switch_result(3) split: if_splits)

lemma close_apart: "close w = Inr w' \<Longrightarrow> live r s w \<Longrightarrow> apart s (pset w) (pset w')"
  by (auto simp: close_def Let_def res_simps apart_def live_def mask_delSocket split: if_splits)

text \<open>
  \<open>up r i n\<close>: connection \<open>i\<close> of the node is open and established. An operation on one connection
  leaves every other as it was.
\<close>

definition up :: "int \<Rightarrow> nat \<Rightarrow> ('cb, 'm) node_scheme \<Rightarrow> bool" where
  "up r i n \<longleftrightarrow> (\<exists>io. nd_ios n i = Some io \<and> live r (sock (io_conn io)) (view_of io n) \<and> \<not> is_closed (io_conn io))"

definition fd_of :: "nat \<Rightarrow> ('cb, 'm) node_scheme \<Rightarrow> int" where
  "fd_of i n = sock (io_conn (the (nd_ios n i)))"

lemma focus_result:
  assumes io: "nd_ios n i = Some io" and f: "f (view_of io n) = Inr w"
    and ps: "ps_inv r (pset w)" and ap: "apart (sock (io_conn io)) (nd_pset n) (pset w)"
  obtains n' where "focus i f n = Inr n'" "nd_ios n' = (nd_ios n)(i \<mapsto> io_of w)" "nd_pset n' = pset w"
    "node.more n' = node.more n"
    "\<And>j. j \<noteq> i \<Longrightarrow> up r j n \<Longrightarrow> fd_of j n \<noteq> fd_of i n \<Longrightarrow> up r j n'"
    "\<And>r s. live r s w \<Longrightarrow> \<not> is_closed (conn w) \<Longrightarrow> up r i n'"
proof
  let ?n' = "n\<lparr>nd_pset := pset w, nd_ios := (nd_ios n)(i \<mapsto> io_of w)\<rparr>"
  show "focus i f n = Inr ?n'" using io f by (simp add: focus_def)
  show "up r j ?n'" if j: "j \<noteq> i" "up r j n" "fd_of j n \<noteq> fd_of i n" for j
  proof -
    obtain jo where jo: "nd_ios n j = Some jo" "live r (sock (io_conn jo)) (view_of jo n)" "\<not> is_closed (io_conn jo)"
      using j(2) by (auto simp: up_def)
    have "mask (pset w) (sock (io_conn jo)) = mask (nd_pset n) (sock (io_conn jo))"
      using j(3) jo(1) io ap by (simp add: fd_of_def apart_def)
    then have "live r (sock (io_conn jo)) ((view_of jo n)\<lparr>pset := pset w\<rparr>)"
      using live_other_pset[OF jo(2) ps] by simp
    moreover have "(view_of jo n)\<lparr>pset := pset w\<rparr> = view_of jo ?n'" by (simp add: view_of_def)
    ultimately show ?thesis using jo j(1) by (simp add: up_def)
  qed
  show "up r' i ?n'" if "live r' s w" "\<not> is_closed (conn w)" for r' s
    using that by (auto simp: up_def live_def Let_def)
qed simp_all

lemma sendMessage_up:
  assumes l: "live r s w" and opn: "\<not> is_closed (conn w)" and sz: "unat sz \<le> length bs"
  shows "\<exists>w'. sendMessage bs sz w = Inr w' \<and> live r s w' \<and> quiet w w' \<and> \<not> is_closed (conn w')
    \<and> apart s (pset w) (pset w') \<and> sock (conn w') = sock (conn w) \<and> sent w' = sent w \<and> rcvd w' = rcvd w
    \<and> filter_num (conn w') = filter_num (conn w)
    \<and> msg_counter (conn w') = (msg_counter (conn w) + 1) mod filter_num (conn w)
    \<and> pending (conn w') = pending (conn w)
        @ (if (msg_counter (conn w) + 1) mod filter_num (conn w) = 0
           then enc_msg [\<lparr>f_data = bs, f_size = sz\<rparr>] else [])"
proof -
  have ok: "sendable [\<lparr>f_data = bs, f_size = sz\<rparr>]" using sz by (simp add: sendable_def frame_ok_def)
  obtain w' where w': "sendFrames [\<lparr>f_data = bs, f_size = sz\<rparr>] w = Inr w'" "live r s w'"
    using sendFrames_live[OF l ok] by blast
  have s: "sock (conn w) = s" "\<forall>m \<in> set (send_msgs (conn w)). wr_ok m" using l opn by (simp_all add: live_def Let_def)
  show ?thesis
    using w' sendFrames_io[OF w'(1)] sendFrames_apart[OF s(1) w'(1)] sendFrames_step[OF w'(1) ok s(2)] opn s(1)
    by (intro exI[of _ w']) (simp add: sendMessage_def)
qed

section \<open>Publishing to every subscriber\<close>

definition pub_inv :: "int \<Rightarrow> tcp_publish \<Rightarrow> bool" where
  "pub_inv r n \<longleftrightarrow> distinct (map cn_tcp (tp_connections n))
     \<and> (\<forall>c \<in> set (tp_connections n). up r (cn_tcp c) n)
     \<and> inj_on (\<lambda>c. fd_of (cn_tcp c) n) (set (tp_connections n))"

definition can_compress :: "pub_connection \<Rightarrow> bool" where
  "can_compress c \<longleftrightarrow> (cn_setup c \<longrightarrow> compression (cn_opts c) = NONE \<or> compression (cn_opts c) = SNAPPY)"

text \<open>The frame a subscriber is sent, and what sending it means for the subscriber's connection.\<close>

definition msg_frame :: "(byte list \<Rightarrow> byte list) \<Rightarrow> msg \<Rightarrow> pub_connection \<Rightarrow> frame" where
  "msg_frame compress m c =
     (let data = take (unat (m_sz m)) (m_bytes m) in
      if compression (cn_opts c) = NONE then \<lparr>f_data = data, f_size = m_sz m\<rparr>
      else \<lparr>f_data = compress data, f_size = of_nat (length (compress data))\<rparr>)"

definition sent_to :: "frame \<Rightarrow> nat \<Rightarrow> ('cb, 'm) node_scheme \<Rightarrow> ('cb, 'm) node_scheme \<Rightarrow> bool" where
  "sent_to f i n n' \<longleftrightarrow>
     (let io = the (nd_ios n i); io' = the (nd_ios n' i);
          c = (msg_counter (io_conn io) + 1) mod filter_num (io_conn io) in
      io_sent io' = io_sent io \<and> io_rcvd io' = io_rcvd io
      \<and> filter_num (io_conn io') = filter_num (io_conn io) \<and> msg_counter (io_conn io') = c
      \<and> pending (io_conn io') = pending (io_conn io) @ (if c = 0 then enc_msg [f] else []))"

lemma focus_send:
  assumes u: "up r i n" and sz: "unat sz \<le> length bs"
  shows "\<exists>n'. focus i (sendMessage bs sz) n = Inr n' \<and> (\<forall>j. j \<noteq> i \<longrightarrow> nd_ios n' j = nd_ios n j)
    \<and> node.more n' = node.more n \<and> (\<forall>j. fd_of j n' = fd_of j n)
    \<and> (\<forall>j. up r j n \<longrightarrow> j = i \<or> fd_of j n \<noteq> fd_of i n \<longrightarrow> up r j n')
    \<and> sent_to \<lparr>f_data = bs, f_size = sz\<rparr> i n n'"
proof -
  obtain io where io: "nd_ios n i = Some io" "live r (sock (io_conn io)) (view_of io n)" "\<not> is_closed (io_conn io)"
    using u by (auto simp: up_def)
  obtain w where w: "sendMessage bs sz (view_of io n) = Inr w" "live r (sock (io_conn io)) w" "\<not> is_closed (conn w)"
    "apart (sock (io_conn io)) (nd_pset n) (pset w)" "sock (conn w) = sock (io_conn io)" "sent w = io_sent io" "rcvd w = io_rcvd io"
    "filter_num (conn w) = filter_num (io_conn io)"
    "msg_counter (conn w) = (msg_counter (io_conn io) + 1) mod filter_num (io_conn io)"
    "pending (conn w) = pending (io_conn io) @ (if (msg_counter (io_conn io) + 1) mod filter_num (io_conn io) = 0
       then enc_msg [\<lparr>f_data = bs, f_size = sz\<rparr>] else [])"
    using sendMessage_up[OF io(2) _ sz] io(3) by auto
  have ps: "ps_inv r (pset w)" using w(2) by (simp add: live_def Let_def)
  obtain n' where n': "focus i (sendMessage bs sz) n = Inr n'" "nd_ios n' = (nd_ios n)(i \<mapsto> io_of w)"
    "node.more n' = node.more n" "\<And>j. j \<noteq> i \<Longrightarrow> up r j n \<Longrightarrow> fd_of j n \<noteq> fd_of i n \<Longrightarrow> up r j n'" "up r i n'"
    using focus_result[where f = "sendMessage bs sz" and io = io and n = n and i = i and w = w and r = r] io(1) w(1-4) ps
    by metis
  have "fd_of j n' = fd_of j n" for j using w(5) io(1) by (simp add: fd_of_def n'(2))
  moreover have "sent_to \<lparr>f_data = bs, f_size = sz\<rparr> i n n'"
    using w io(1) by (simp add: sent_to_def n'(2) Let_def)
  moreover have "up r j n'" if "up r j n" "j = i \<or> fd_of j n \<noteq> fd_of i n" for j
    using that n'(4,5) by (cases "j = i") blast+
  ultimately show ?thesis using n'(1-3) by (intro exI[of _ n']) simp
qed

lemma publish_to_result:
  assumes u: "up r (cn_tcp c) n" and ok: "can_compress c" and m: "msg_ok m"
  shows "\<exists>n'. publish_to compress m c n = Inr n' \<and> (\<forall>j. j \<noteq> cn_tcp c \<longrightarrow> nd_ios n' j = nd_ios n j)
    \<and> node.more n' = node.more n \<and> (\<forall>j. fd_of j n' = fd_of j n)
    \<and> (\<forall>j. up r j n \<longrightarrow> j = cn_tcp c \<or> fd_of j n \<noteq> fd_of (cn_tcp c) n \<longrightarrow> up r j n')
    \<and> (if cn_setup c then sent_to (msg_frame compress m c) (cn_tcp c) n n' else n' = n)"
proof (cases "cn_setup c")
  case False
  then show ?thesis by (simp add: publish_to_def)
next
  case True
  let ?f = "msg_frame compress m c"
  have sz: "unat (f_size ?f) \<le> length (f_data ?f)"
    using m by (simp add: msg_frame_def Let_def msg_ok_def unat_of_nat)
  have "publish_to compress m c n = focus (cn_tcp c) (sendMessage (f_data ?f) (f_size ?f)) n"
    using True ok by (auto simp: publish_to_def msg_frame_def Let_def can_compress_def)
  moreover have e: "\<lparr>f_data = f_data ?f, f_size = f_size ?f\<rparr> = ?f" by (cases ?f) simp
  ultimately show ?thesis using focus_send[OF u sz, unfolded e] True by simp
qed

lemma sent_to_cong:
  "sent_to f i n n' \<Longrightarrow> nd_ios p i = nd_ios n i \<Longrightarrow> nd_ios p' i = nd_ios n' i \<Longrightarrow> sent_to f i p p'"
  by (simp add: sent_to_def)

lemma publish_loop:
  assumes "distinct (map cn_tcp cs)" and "\<forall>c \<in> set cs. up r (cn_tcp c) n \<and> can_compress c"
    and "inj_on (\<lambda>c. fd_of (cn_tcp c) n) (set cs)" and m: "msg_ok m"
  shows "\<exists>n'. foldR (publish_to compress m) cs n = Inr n' \<and> node.more n' = node.more n
    \<and> (\<forall>j. j \<notin> cn_tcp ` set cs \<longrightarrow> nd_ios n' j = nd_ios n j) \<and> (\<forall>j. fd_of j n' = fd_of j n)
    \<and> (\<forall>j. up r j n \<longrightarrow> (\<forall>c \<in> set cs. j = cn_tcp c \<or> fd_of j n \<noteq> fd_of (cn_tcp c) n) \<longrightarrow> up r j n')
    \<and> (\<forall>c \<in> set cs. if cn_setup c then sent_to (msg_frame compress m c) (cn_tcp c) n n'
         else nd_ios n' (cn_tcp c) = nd_ios n (cn_tcp c))"
  using assms(1-3)
proof (induction cs arbitrary: n)
  case (Cons c cs)
  obtain n1 where n1: "publish_to compress m c n = Inr n1" "\<forall>j. j \<noteq> cn_tcp c \<longrightarrow> nd_ios n1 j = nd_ios n j"
    "node.more n1 = node.more n" "\<forall>j. fd_of j n1 = fd_of j n"
    "\<forall>j. up r j n \<longrightarrow> j = cn_tcp c \<or> fd_of j n \<noteq> fd_of (cn_tcp c) n \<longrightarrow> up r j n1"
    "if cn_setup c then sent_to (msg_frame compress m c) (cn_tcp c) n n1 else n1 = n"
    using publish_to_result[of r c n m compress] Cons.prems(2) m by auto
  have d: "distinct (map cn_tcp cs)" "cn_tcp c \<notin> cn_tcp ` set cs" using Cons.prems(1) by auto
  have fd: "fd_of (cn_tcp c) n \<noteq> fd_of (cn_tcp c') n" if "c' \<in> set cs" for c'
    using Cons.prems(3) that d(2) by (auto simp: inj_on_def)
  have u: "\<forall>c' \<in> set cs. up r (cn_tcp c') n1 \<and> can_compress c'"
    using Cons.prems(2) n1(5) fd by (auto dest: not_sym)
  have inj: "inj_on (\<lambda>c. fd_of (cn_tcp c) n1) (set cs)" using Cons.prems(3) n1(4) by (auto simp: inj_on_def)
  obtain n' where n': "foldR (publish_to compress m) cs n1 = Inr n'" "node.more n' = node.more n1"
    "\<forall>j. j \<notin> cn_tcp ` set cs \<longrightarrow> nd_ios n' j = nd_ios n1 j" "\<forall>j. fd_of j n' = fd_of j n1"
    "\<forall>j. up r j n1 \<longrightarrow> (\<forall>c \<in> set cs. j = cn_tcp c \<or> fd_of j n1 \<noteq> fd_of (cn_tcp c) n1) \<longrightarrow> up r j n'"
    "\<forall>c \<in> set cs. if cn_setup c then sent_to (msg_frame compress m c) (cn_tcp c) n1 n'
         else nd_ios n' (cn_tcp c) = nd_ios n1 (cn_tcp c)"
    using Cons.IH[OF d(1) u inj] by blast
  have rest: "if cn_setup c' then sent_to (msg_frame compress m c') (cn_tcp c') n n'
      else nd_ios n' (cn_tcp c') = nd_ios n (cn_tcp c')" if "c' \<in> set cs" for c'
  proof -
    have "cn_tcp c' \<noteq> cn_tcp c" using that d(2) by (metis imageI)
    then have "nd_ios n (cn_tcp c') = nd_ios n1 (cn_tcp c')" using n1(2) by simp
    then show ?thesis using n'(6) that sent_to_cong[of _ "cn_tcp c'" n1 n' n n'] by auto
  qed
  have here: "if cn_setup c then sent_to (msg_frame compress m c) (cn_tcp c) n n'
      else nd_ios n' (cn_tcp c) = nd_ios n (cn_tcp c)"
    using n1(6) n'(3) d(2) sent_to_cong[of _ "cn_tcp c" n n1 n n'] by auto
  have ups: "up r j n'" if "up r j n" "\<forall>c' \<in> set (c # cs). j = cn_tcp c' \<or> fd_of j n \<noteq> fd_of (cn_tcp c') n" for j
  proof -
    have "up r j n1" using n1(5) that by auto
    then show ?thesis using n'(5) n1(4) that(2) by simp
  qed
  have "foldR (publish_to compress m) (c # cs) n = Inr n'" using n1(1) n'(1) by simp
  then show ?case using n1(2-4) n'(2-4) here rest ups
    by (intro exI[of _ n']) auto
qed auto

lemma tp_fields: "node.more n' = node.more n \<Longrightarrow> tp_connections n' = tp_connections n \<and> tp_server n' = tp_server n"
  by (cases n; cases n') simp

section \<open>Options from the other end\<close>

lemma set_up_ids [simp]: "map cn_tcp (set_up i opts cs) = map cn_tcp cs"
  by (induction cs) auto

lemma set_up_member:
  "distinct (map cn_tcp cs) \<Longrightarrow> find (\<lambda>c. cn_tcp c = i) cs = Some c \<Longrightarrow>
    set (set_up i opts cs) = insert (c\<lparr>cn_setup := True, cn_opts := opts\<rparr>) (set cs - {c})"
proof (induction cs)
  case (Cons d cs)
  show ?case
  proof (cases "cn_tcp d = i")
    case True
    then have "c = d" using Cons.prems(2) by simp
    moreover have "d \<notin> set cs" using Cons.prems(1) by auto
    ultimately show ?thesis using True by simp
  next
    case False
    then have f: "find (\<lambda>c. cn_tcp c = i) cs = Some c" using Cons.prems(2) by simp
    then have "cn_tcp c = i" by (auto simp: find_Some_iff)
    then have "c \<noteq> d" using False by auto
    then show ?thesis using Cons.IH[OF _ f] Cons.prems(1) False by auto
  qed
qed simp

text \<open>Reading is switched off, the options are applied.\<close>

definition apply_options :: "tcp_options \<Rightarrow> 'cb tw \<Rightarrow> 'cb tw res" where
  "apply_options opts w =
     bindR (disableRead w) (\<lambda>w1. setFilter (sint (opt_filter opts)) (setNoDelay (tcp_nodelay opts) w1))"

lemma apply_options_result:
  assumes l: "live r s w" and opn: "\<not> is_closed (conn w)" and f: "0 < sint (opt_filter opts)"
  shows "\<exists>w'. apply_options opts w = Inr w' \<and> live r s w' \<and> \<not> is_closed (conn w') \<and> sock (conn w') = sock (conn w)
    \<and> apart s (pset w) (pset w') \<and> filter_num (conn w') = sint (opt_filter opts)
    \<and> msg_counter (conn w') = sint (opt_filter opts) - 1 \<and> send_msgs (conn w') = send_msgs (conn w)
    \<and> sent w' = sent w \<and> rcvd w' = rcvd w \<and> \<not> expecting_read (conn w')"
proof -
  obtain w1 where w1: "disableRead w = Inr w1" using usable_switch(2)[OF live_usable[OF l]] by blast
  have l1: "live r s w1" by (rule switch_read_live(2)[OF l w1])
  have s: "sock (conn w) = s" using l opn by (simp add: live_def Let_def)
  have keep: "\<not> is_closed (conn w1)" "sock (conn w1) = sock (conn w)" "send_msgs (conn w1) = send_msgs (conn w)"
    "sent w1 = sent w" "rcvd w1 = rcvd w"
    using switch_result(2)[OF w1] opn by auto
  have er: "\<not> expecting_read (conn w1)"
    using w1 opn by (auto simp: disableRead_def with_poll_set_def res_simps split: if_splits)
  define w2 where "w2 = setNoDelay (tcp_nodelay opts) w1"
  have l2: "live r s w2" using conn_call_live[OF l1, of "Set_No_Delay (tcp_nodelay opts)"] by (simp add: w2_def)
  obtain w3 where w3: "setFilter (sint (opt_filter opts)) w2 = Inr w3" "live r s w3"
    using conn_call_live[OF l2, of "Set_Filter (sint (opt_filter opts))"] f by auto
  have "w3 = upd_conn (\<lambda>t. t\<lparr>filter_num := sint (opt_filter opts), msg_counter := sint (opt_filter opts) - 1\<rparr>) w2"
    using w3(1) f by (simp add: setFilter_def)
  then show ?thesis
    using w1 w3 keep er switch_apart(2)[OF s w1]
    by (intro exI[of _ w3]) (simp add: apply_options_def w2_def setNoDelay_def setsockopt_def)
qed

lemma focus_bind:
  "bindR (focus i f n) (\<lambda>n1. focus i g (h n1)) = focus i (\<lambda>w. bindR (f w) g) n"
  if "\<And>n. h n = n"
  by (cases "nd_ios n i") (auto simp: focus_def that bindR_def split: sum.splits)

lemma focus_keeps:
  "focus i f n = Inr n' \<Longrightarrow> node.more n' = node.more n"
  by (auto simp: focus_def res_simps split: option.splits)

lemma tp_onOptions_eq:
  assumes i: "nd_ios n i \<noteq> None" and c: "find (\<lambda>c. cn_tcp c = i) (tp_connections n) = Some c"
    and ns: "\<not> cn_setup c" and rd: "rdo (payload f) = Some opts"
  shows "tp_onOptions rdo i [f] n
    = bindR (focus i (apply_options opts) n) (\<lambda>n2. Inr (n2\<lparr>tp_connections := set_up i opts (tp_connections n2)\<rparr>))"
proof -
  let ?k = "\<lambda>w. setFilter (sint (opt_filter opts)) (setNoDelay (tcp_nodelay opts) w)"
  have step: "(case find (\<lambda>c. cn_tcp c = i) (tp_connections n1) of
            None \<Rightarrow> Inr n1
          | Some c \<Rightarrow> ensure (\<not> cn_setup c) Ros_Break (case rdo (payload ([f] ! 0)) of
                   None \<Rightarrow> Inl Stream_Overrun
                 | Some opts \<Rightarrow> bindR (focus i (\<lambda>w. setFilter (sint (opt_filter opts)) (setNoDelay (tcp_nodelay opts) w)) n1)
                       (\<lambda>n2. Inr (n2\<lparr>tp_connections := set_up i opts (tp_connections n2)\<rparr>))))
      = bindR (focus i ?k n1) (\<lambda>n2. Inr (n2\<lparr>tp_connections := set_up i opts (tp_connections n2)\<rparr>))"
    if "focus i disableRead n = Inr n1" for n1
    using tp_fields[OF focus_keeps[OF that]] c ns rd by simp
  have "tp_onOptions rdo i [f] n = bindR (focus i disableRead n)
      (\<lambda>n1. bindR (focus i ?k n1) (\<lambda>n2. Inr (n2\<lparr>tp_connections := set_up i opts (tp_connections n2)\<rparr>)))"
    using i step by (cases "nd_ios n i"; cases "focus i disableRead n") (simp_all add: tp_onOptions_def)
  also have "\<dots> = bindR (bindR (focus i disableRead n) (focus i ?k))
      (\<lambda>n2. Inr (n2\<lparr>tp_connections := set_up i opts (tp_connections n2)\<rparr>))"
    by (simp add: bindR_assoc)
  also have "bindR (focus i disableRead n) (focus i ?k) = focus i (apply_options opts) n"
    using focus_bind[of id i disableRead n ?k] by (simp add: apply_options_def[abs_def])
  finally show ?thesis .
qed

lemma options_negotiated:
  assumes inv: "pub_inv r n" and c: "find (\<lambda>c. cn_tcp c = i) (tp_connections n) = Some c" and ns: "\<not> cn_setup c"
    and rd: "rdo (payload f) = Some opts" and pos: "0 < sint (opt_filter opts)"
  shows "\<exists>n' io io'. tp_onOptions rdo i [f] n = Inr n' \<and> pub_inv r n'
    \<and> set (tp_connections n') = insert (c\<lparr>cn_setup := True, cn_opts := opts\<rparr>) (set (tp_connections n) - {c})
    \<and> nd_ios n i = Some io \<and> nd_ios n' = (nd_ios n)(i \<mapsto> io')
    \<and> filter_num (io_conn io') = sint (opt_filter opts) \<and> msg_counter (io_conn io') = sint (opt_filter opts) - 1
    \<and> send_msgs (io_conn io') = send_msgs (io_conn io) \<and> io_sent io' = io_sent io \<and> \<not> expecting_read (io_conn io')"
proof -
  have ci: "c \<in> set (tp_connections n)" "cn_tcp c = i" using c by (auto simp: find_Some_iff)
  have u: "up r i n" using inv ci by (auto simp: pub_inv_def)
  obtain io where io: "nd_ios n i = Some io" "live r (sock (io_conn io)) (view_of io n)" "\<not> is_closed (io_conn io)"
    using u by (auto simp: up_def)
  obtain w where w: "apply_options opts (view_of io n) = Inr w" "live r (sock (io_conn io)) w" "\<not> is_closed (conn w)"
    "sock (conn w) = sock (io_conn io)" "apart (sock (io_conn io)) (nd_pset n) (pset w)"
    "filter_num (conn w) = sint (opt_filter opts)" "msg_counter (conn w) = sint (opt_filter opts) - 1"
    "send_msgs (conn w) = send_msgs (io_conn io)" "sent w = io_sent io" "\<not> expecting_read (conn w)"
    using apply_options_result[OF io(2) _ pos] io(3) by auto
  have ps: "ps_inv r (pset w)" using w(2) by (simp add: live_def Let_def)
  obtain n1 where n1: "focus i (apply_options opts) n = Inr n1" "nd_ios n1 = (nd_ios n)(i \<mapsto> io_of w)"
    "node.more n1 = node.more n" "\<And>j. j \<noteq> i \<Longrightarrow> up r j n \<Longrightarrow> fd_of j n \<noteq> fd_of i n \<Longrightarrow> up r j n1" "up r i n1"
    using focus_result[where f = "apply_options opts" and io = io and n = n and i = i and w = w and r = r]
      io(1) w(1-3,5) ps by metis
  let ?n' = "n1\<lparr>tp_connections := set_up i opts (tp_connections n1)\<rparr>"
  have cs: "tp_connections n1 = tp_connections n" using tp_fields[OF n1(3)] by simp
  have mem: "set (set_up i opts (tp_connections n)) = insert (c\<lparr>cn_setup := True, cn_opts := opts\<rparr>) (set (tp_connections n) - {c})"
    by (rule set_up_member[OF _ c]) (use inv in \<open>simp add: pub_inv_def\<close>)
  have fd: "fd_of j ?n' = fd_of j n" for j using w(4) io(1) by (simp add: fd_of_def n1(2))
  have inj: "inj_on (\<lambda>c. fd_of (cn_tcp c) n) (set (tp_connections n))" using inv by (simp add: pub_inv_def)
  have ups: "up r (cn_tcp d) ?n'" if "d \<in> set (tp_connections n)" for d
  proof -
    have "up r (cn_tcp d) n" using inv that by (simp add: pub_inv_def)
    moreover have "fd_of (cn_tcp d) n \<noteq> fd_of i n" if "cn_tcp d \<noteq> i"
      using inj \<open>d \<in> _\<close> ci that by (auto simp: inj_on_def)
    ultimately have "up r (cn_tcp d) n1" using n1(4,5) by (cases "cn_tcp d = i") auto
    then show ?thesis by (simp add: up_def view_of_def)
  qed
  have "inj_on (\<lambda>c. fd_of (cn_tcp c) n) (insert (c\<lparr>cn_setup := True, cn_opts := opts\<rparr>) (set (tp_connections n) - {c}))"
    using inj ci by (auto simp: inj_on_def)
  moreover have "\<forall>d \<in> insert (c\<lparr>cn_setup := True, cn_opts := opts\<rparr>) (set (tp_connections n) - {c}). up r (cn_tcp d) ?n'"
    using ups ci(1) by auto
  moreover have "distinct (map cn_tcp (set_up i opts (tp_connections n)))"
    using inv by (simp add: pub_inv_def)
  ultimately have "pub_inv r ?n'"
    by (simp add: pub_inv_def cs mem fd[unfolded cs] del: ball_simps)
  then show ?thesis
    using tp_onOptions_eq[of n i c rdo f opts] io(1) c ns rd n1(1,2) w mem
    by (intro exI[of _ ?n'] exI[of _ io] exI[of _ "io_of w"]) (simp add: cs)
qed

lemma hostile_filter:
  assumes inv: "pub_inv r n" and c: "find (\<lambda>c. cn_tcp c = i) (tp_connections n) = Some c" and ns: "\<not> cn_setup c"
    and rd: "rdo (payload f) = Some opts" and neg: "sint (opt_filter opts) \<le> 0"
  shows "tp_onOptions rdo i [f] n = Inl Assert_Failed"
proof -
  have "c \<in> set (tp_connections n)" "cn_tcp c = i" using c by (auto simp: find_Some_iff)
  then obtain io where io: "nd_ios n i = Some io" "live r (sock (io_conn io)) (view_of io n)" "\<not> is_closed (io_conn io)"
    using inv by (auto simp: pub_inv_def up_def)
  obtain w1 where w1: "disableRead (view_of io n) = Inr w1"
    using usable_switch(2)[OF live_usable[OF io(2)]] by blast
  have "focus i (apply_options opts) n = Inl Assert_Failed"
    using io(1) w1 neg by (simp add: focus_def apply_options_def setFilter_def)
  then show ?thesis using tp_onOptions_eq[of n i c rdo f opts] io(1) c ns rd by simp
qed

lemma unknown_compression:
  assumes inv: "pub_inv r n" and c: "c \<in> set (tp_connections n)" and bad: "\<not> can_compress c" and m: "msg_ok m"
  shows "tp_publish compress m n = Inl Ros_Break"
proof -
  obtain as d bs where cs: "tp_connections n = as @ d # bs" "\<not> can_compress d" "\<forall>a \<in> set as. can_compress a"
    using split_list_first_prop[of "tp_connections n" "\<lambda>c. \<not> can_compress c"] c bad by blast
  have "distinct (map cn_tcp as)" "\<forall>c \<in> set as. up r (cn_tcp c) n \<and> can_compress c" "inj_on (\<lambda>c. fd_of (cn_tcp c) n) (set as)"
    using inv cs by (auto simp: pub_inv_def inj_on_def)
  then obtain n' where "foldR (publish_to compress m) as n = Inr n'" using publish_loop[of as r n m compress] m by blast
  moreover have "publish_to compress m d n' = Inl Ros_Break" using cs(2) by (auto simp: publish_to_def can_compress_def Let_def)
  ultimately show ?thesis by (simp add: tp_publish_def cs(1) foldR_append)
qed

section \<open>An example\<close>

text \<open>Two subscribers: the first has sent its options, the second has not.\<close>

definition pub_conn :: "nat \<Rightarrow> int \<Rightarrow> pub_cb tw" where
  "pub_conn i s = armed (Pub_Options i) (Some Pub_Disconnect)
     \<lparr>conn = (new_tcp i True 0)\<lparr>sock := s\<rparr>, pset = idle_set, sent = [], rcvd = [], closed_fds = [],
      sockopts = [], upcalls = []\<rparr>"

definition plain_opts :: tcp_options where
  "plain_opts = \<lparr>tcp_nodelay = True, compression = NONE, opt_filter = 1\<rparr>"

definition pub_node :: tcp_publish where
  "pub_node = \<lparr>nd_pset = snd (addEvents 8 POLLIN (snd (addEvents 7 POLLIN idle_set))),
     nd_ios = [1 \<mapsto> io_of (pub_conn 1 7), 2 \<mapsto> io_of (pub_conn 2 8)],
     tp_server = 0,
     tp_connections = [\<lparr>cn_tcp = 1, cn_setup = True, cn_opts = plain_opts\<rparr>,
       \<lparr>cn_tcp = 2, cn_setup = False, cn_opts = plain_opts\<rparr>]\<rparr>"

lemma pub_conn_live:
  assumes "(i, s) \<in> {(1, 7), (2, 8)}"
  shows "live 3 s (view_of (io_of (pub_conn i s)) pub_node)"
proof -
  have l: "live 3 s (pub_conn i s)" unfolding pub_conn_def by (rule armed_live, rule new_fresh[where i = i]) (use assms in auto)
  have ps: "ps_inv 3 (nd_pset pub_node)" by (simp add: pub_node_def ps_inv_addEvents)
  have "mask (nd_pset pub_node) s = mask (pset (pub_conn i s)) s"
    using assms by (auto simp: pub_node_def pub_conn_def armed_def mask_addEvents)
  then have "live 3 s ((pub_conn i s)\<lparr>pset := nd_pset pub_node\<rparr>)" by (rule live_other_pset[OF l ps])
  moreover have "(pub_conn i s)\<lparr>pset := nd_pset pub_node\<rparr> = view_of (io_of (pub_conn i s)) pub_node"
    by (simp add: view_of_def io_of_def)
  ultimately show ?thesis by simp
qed

lemma pub_node_inv: "pub_inv 3 pub_node"
proof -
  have io: "nd_ios pub_node 1 = Some (io_of (pub_conn 1 7))" "nd_ios pub_node 2 = Some (io_of (pub_conn 2 8))"
    by (simp_all add: pub_node_def)
  have c: "sock (conn (pub_conn 1 7)) = 7" "sock (conn (pub_conn 2 8)) = 8"
    "\<not> is_closed (conn (pub_conn 1 7))" "\<not> is_closed (conn (pub_conn 2 8))"
    by (simp_all add: pub_conn_def armed_def new_tcp_def)
  have "up 3 1 pub_node" "up 3 2 pub_node" using pub_conn_live io c by (simp_all add: up_def)
  moreover have "map cn_tcp (tp_connections pub_node) = [1, 2]" by (simp add: pub_node_def)
  moreover have "fd_of 1 pub_node = 7" "fd_of 2 pub_node = 8" using io c by (simp_all add: fd_of_def)
  ultimately show ?thesis by (simp add: pub_inv_def pub_node_def)
qed

section \<open>Properties\<close>

lemma publish_reaches_all:
  assumes inv: "pub_inv r n" and ok: "\<forall>c \<in> set (tp_connections n). can_compress c" and m: "msg_ok m"
  shows "\<exists>n'. tp_publish compress m n = Inr n' \<and> pub_inv r n' \<and> tp_connections n' = tp_connections n
    \<and> (\<forall>c \<in> set (tp_connections n). if cn_setup c then sent_to (msg_frame compress m c) (cn_tcp c) n n'
         else nd_ios n' (cn_tcp c) = nd_ios n (cn_tcp c))
    \<and> (\<forall>j. j \<notin> cn_tcp ` set (tp_connections n) \<longrightarrow> nd_ios n' j = nd_ios n j)"
proof -
  let ?cs = "tp_connections n"
  obtain n' where n': "tp_publish compress m n = Inr n'" "node.more n' = node.more n"
    "\<forall>j. j \<notin> cn_tcp ` set ?cs \<longrightarrow> nd_ios n' j = nd_ios n j" "\<forall>j. fd_of j n' = fd_of j n"
    "\<forall>j. up r j n \<longrightarrow> (\<forall>c \<in> set ?cs. j = cn_tcp c \<or> fd_of j n \<noteq> fd_of (cn_tcp c) n) \<longrightarrow> up r j n'"
    "\<forall>c \<in> set ?cs. if cn_setup c then sent_to (msg_frame compress m c) (cn_tcp c) n n'
         else nd_ios n' (cn_tcp c) = nd_ios n (cn_tcp c)"
    using publish_loop[of ?cs r n m compress] inv ok m unfolding pub_inv_def tp_publish_def by blast
  have cs: "tp_connections n' = ?cs" using tp_fields[OF n'(2)] by simp
  have "up r (cn_tcp c) n'" if "c \<in> set ?cs" for c
    using n'(5) inv that unfolding pub_inv_def inj_on_def by metis
  then have "pub_inv r n'" using inv n'(4) by (simp add: pub_inv_def cs)
  then show ?thesis using n' cs by blast
qed

text \<open>
  C16: A message reaches every subscriber that is set up, and nobody else. With any number of
  connections on one poll set, \<open>publish\<close> returns exactly if every set-up subscriber asked for a
  compression the program knows (none or snappy); otherwise it ends the process. If it returns, each
  set-up connection has the message queued once more behind what it had, if its own filter lets
  this message through, and every other connection of the node, in particular one that has not sent
  its options yet, is as it was. All connections stay established.
\<close>

theorem publish_fans_out:
  assumes inv: "pub_inv r n" and m: "msg_ok m"
  shows "if \<forall>c \<in> set (tp_connections n). can_compress c
    then \<exists>n'. tp_publish compress m n = Inr n' \<and> pub_inv r n' \<and> tp_connections n' = tp_connections n
      \<and> (\<forall>c \<in> set (tp_connections n). if cn_setup c then sent_to (msg_frame compress m c) (cn_tcp c) n n'
           else nd_ios n' (cn_tcp c) = nd_ios n (cn_tcp c))
      \<and> (\<forall>j. j \<notin> cn_tcp ` set (tp_connections n) \<longrightarrow> nd_ios n' j = nd_ios n j)
    else tp_publish compress m n = Inl Ros_Break"
proof (cases "\<forall>c \<in> set (tp_connections n). can_compress c")
  case True
  show ?thesis unfolding if_P[OF True] by (rule publish_reaches_all[OF inv True m])
next
  case False
  then obtain c where "c \<in> set (tp_connections n)" "\<not> can_compress c" by blast
  then have "tp_publish compress m n = Inl Ros_Break" by (rule unknown_compression[OF inv _ _ m])
  then show ?thesis by (simp only: False if_False)
qed

theorem publish_fans_out_witness:
  "\<exists>n'. tp_publish id \<lparr>m_sz = 1, m_bytes = [9]\<rparr> pub_node = Inr n' \<and> pub_inv 3 n'
    \<and> pending (io_conn (the (nd_ios n' 1))) = [1, 0, 0, 0, 1, 0, 0, 0, 9] \<and> nd_ios n' 2 = nd_ios pub_node 2"
proof -
  let ?m = "\<lparr>m_sz = 1, m_bytes = [9]\<rparr>"
  have ok: "\<forall>c \<in> set (tp_connections pub_node). can_compress c" "msg_ok ?m"
    by (simp_all add: can_compress_def pub_node_def plain_opts_def msg_ok_def)
  obtain n' where n': "tp_publish id ?m pub_node = Inr n'" "pub_inv 3 n'"
    "\<forall>c \<in> set (tp_connections pub_node). if cn_setup c then sent_to (msg_frame id ?m c) (cn_tcp c) pub_node n'
         else nd_ios n' (cn_tcp c) = nd_ios pub_node (cn_tcp c)"
    using publish_fans_out[OF pub_node_inv ok(2), of id, unfolded if_P[OF ok(1)]] by blast
  have "io_conn (the (nd_ios pub_node 1)) = conn (pub_conn 1 7)" by (simp add: pub_node_def)
  moreover have "filter_num (conn (pub_conn 1 7)) = 1" "send_msgs (conn (pub_conn 1 7)) = []"
    by (simp_all add: pub_conn_def new_tcp_def)
  ultimately have "pending (io_conn (the (nd_ios n' 1))) = enc_msg [\<lparr>f_data = [9], f_size = 1\<rparr>]"
    using n'(3) by (simp add: pub_node_def sent_to_def Let_def msg_frame_def plain_opts_def pending_def)
  then have "pending (io_conn (the (nd_ios n' 1))) = [1, 0, 0, 0, 1, 0, 0, 0, 9]"
    by (simp add: enc_msg_def enc_frame_def payload_def u32_bytes_def)
  then show ?thesis using n' by (simp add: pub_node_def)
qed

text \<open>
  Negotiating the options. When the first message of a connection that is not set up yet holds
  options with a positive filter, the publisher marks exactly this connection as set up with these
  options, stops reading from it, and from now on sends it the next message and then every
  \<open>filter\<close>-th one; the other connections stay as they were, and all stay established.
\<close>

theorem options_set_up:
  assumes inv: "pub_inv r n" and c: "find (\<lambda>c. cn_tcp c = i) (tp_connections n) = Some c" and ns: "\<not> cn_setup c"
    and rd: "rdo (payload f) = Some opts" and pos: "0 < sint (opt_filter opts)"
  shows "\<exists>n' io io'. tp_onOptions rdo i [f] n = Inr n' \<and> pub_inv r n'
    \<and> set (tp_connections n') = insert (c\<lparr>cn_setup := True, cn_opts := opts\<rparr>) (set (tp_connections n) - {c})
    \<and> nd_ios n i = Some io \<and> nd_ios n' = (nd_ios n)(i \<mapsto> io')
    \<and> filter_num (io_conn io') = sint (opt_filter opts) \<and> msg_counter (io_conn io') = sint (opt_filter opts) - 1
    \<and> send_msgs (io_conn io') = send_msgs (io_conn io) \<and> io_sent io' = io_sent io \<and> \<not> expecting_read (io_conn io')"
  using options_negotiated[where r = r and n = n and i = i and c = c and rdo = rdo and f = f and opts = opts] assms by simp

text \<open>How the options of the examples are written: three bytes.\<close>

fun short_opts :: "byte list \<Rightarrow> tcp_options option" where
  "short_opts [a, b, c] = Some \<lparr>tcp_nodelay = (a \<noteq> 0), compression = b, opt_filter = ucast c\<rparr>"
| "short_opts _ = None"

theorem options_set_up_witness:
  "\<exists>n' io'. tp_onOptions short_opts 2 [\<lparr>f_data = [1, 0, 3], f_size = 3\<rparr>] pub_node = Inr n' \<and> pub_inv 3 n'
    \<and> nd_ios n' 2 = Some io' \<and> filter_num (io_conn io') = 3 \<and> nd_ios n' 1 = nd_ios pub_node 1"
proof -
  let ?f = "\<lparr>f_data = [1, 0, 3], f_size = 3\<rparr>" and ?o = "\<lparr>tcp_nodelay = True, compression = 0, opt_filter = 3\<rparr>"
  have "find (\<lambda>c. cn_tcp c = 2) (tp_connections pub_node) = Some \<lparr>cn_tcp = 2, cn_setup = False, cn_opts = plain_opts\<rparr>"
    by (simp add: pub_node_def)
  moreover have "short_opts (payload ?f) = Some ?o" by (simp add: payload_def)
  ultimately show ?thesis
    using options_set_up[where rdo = short_opts and f = ?f and opts = ?o, OF pub_node_inv] by fastforce
qed

text \<open>
  C39: A subscriber can end the publisher. The options are the peer's word: a filter that is not
  positive as an \<open>int\<close> (0, or \<open>2^31\<close> and above) fails the assertion of \<open>setFilter\<close> in \<open>onOptions\<close>;
  an unknown compression is accepted there, and every later \<open>publish\<close> ends in \<open>ROS_BREAK\<close>,
  whatever the message and the other subscribers.
\<close>

theorem hostile_options:
  assumes "pub_inv r n" and "find (\<lambda>c. cn_tcp c = i) (tp_connections n) = Some c" and "\<not> cn_setup c"
    and "rdo (payload f) = Some opts"
  shows "(sint (opt_filter opts) \<le> 0 \<longrightarrow> tp_onOptions rdo i [f] n = Inl Assert_Failed)
    \<and> (0 < sint (opt_filter opts) \<and> compression opts \<notin> {NONE, SNAPPY} \<longrightarrow>
         (\<exists>n'. tp_onOptions rdo i [f] n = Inr n' \<and> (\<forall>compress m. msg_ok m \<longrightarrow> tp_publish compress m n' = Inl Ros_Break)))"
proof (intro conjI impI)
  assume "sint (opt_filter opts) \<le> 0"
  then show "tp_onOptions rdo i [f] n = Inl Assert_Failed" using hostile_filter[of r n i c rdo f opts] assms by simp
next
  assume o: "0 < sint (opt_filter opts) \<and> compression opts \<notin> {NONE, SNAPPY}"
  let ?c = "c\<lparr>cn_setup := True, cn_opts := opts\<rparr>"
  obtain n' where n': "tp_onOptions rdo i [f] n = Inr n'" "pub_inv r n'" "?c \<in> set (tp_connections n')"
    using options_negotiated[where r = r and n = n and i = i and c = c and rdo = rdo and f = f and opts = opts] assms o by auto
  have "\<not> can_compress ?c" using o by (simp add: can_compress_def)
  then show "\<exists>n'. tp_onOptions rdo i [f] n = Inr n' \<and> (\<forall>compress m. msg_ok m \<longrightarrow> tp_publish compress m n' = Inl Ros_Break)"
    using n' unknown_compression by blast
qed

theorem hostile_options_witness:
  "tp_onOptions short_opts 2 [\<lparr>f_data = [1, 0, 0], f_size = 3\<rparr>] pub_node = Inl Assert_Failed
    \<and> (\<exists>n'. tp_onOptions short_opts 2 [\<lparr>f_data = [1, 7, 1], f_size = 3\<rparr>] pub_node = Inr n'
         \<and> tp_publish id \<lparr>m_sz = 1, m_bytes = [9]\<rparr> n' = Inl Ros_Break)"
proof -
  have c: "find (\<lambda>c. cn_tcp c = 2) (tp_connections pub_node) = Some \<lparr>cn_tcp = 2, cn_setup = False, cn_opts = plain_opts\<rparr>"
    by (simp add: pub_node_def)
  have z: "short_opts (payload \<lparr>f_data = [1, 0, 0], f_size = 3\<rparr>) = Some \<lparr>tcp_nodelay = True, compression = 0, opt_filter = 0\<rparr>"
    and s: "short_opts (payload \<lparr>f_data = [1, 7, 1], f_size = 3\<rparr>) = Some \<lparr>tcp_nodelay = True, compression = 7, opt_filter = 1\<rparr>"
    by (simp_all add: payload_def)
  have "msg_ok \<lparr>m_sz = 1, m_bytes = [9]\<rparr>" by (simp add: msg_ok_def)
  then show ?thesis
    using hostile_options[where rdo = short_opts and n = pub_node and r = 3 and i = 2, OF pub_node_inv c _ z]
      hostile_options[where rdo = short_opts and n = pub_node and r = 3 and i = 2, OF pub_node_inv c _ s]
    by (fastforce simp: NONE_def SNAPPY_def)
qed

end
