(* ===== verification/Services.thy ===== *)
theory Services
  imports Establish
begin

text \<open>
  Models \<open>src/src/service.hpp\<close>: remote calls over \<open>TransportTCP\<close>. \<open>MultiServiceManager\<close> serves
  methods by name (a request is two frames, the method and the serialized request),
  \<open>ServiceManager\<close> serves one unnamed method, \<open>MultiServiceClient\<close> makes calls whose answers run a
  callback on the poll thread, \<open>ServiceClient\<close> makes calls that wait for the answer. Each world
  extends the view of one connection with the state of its service object; what the layer does
  when the transport calls back is a function of that world, to be given to \<open>socketUpdate\<close>.

  The serialization of requests and responses is generated code: \<open>wr\<close> serializes, \<open>rd\<close> reads
  (\<open>None\<close> when the library throws because the buffer is too short), and the laws needed of them
  are hypotheses. Service mutexes are held for the whole of each operation, so every operation is
  one step.
\<close>

section \<open>Serving\<close>

text \<open>
  A bound method works on the object it was bound to, of type \<open>'s\<close>. \<open>ServiceCallbackT::call\<close>
  wraps a handler \<open>h\<close> of the object in serialization.
\<close>

type_synonym 's service = "byte list \<Rightarrow> 's \<Rightarrow> (byte list \<times> 's) res"

definition service_callback ::
  "(byte list \<Rightarrow> 'q option) \<Rightarrow> ('p \<Rightarrow> byte list) \<Rightarrow> ('q \<Rightarrow> 's \<Rightarrow> ('p \<times> 's) res) \<Rightarrow> 's service" where
  "service_callback rd wr h req s =
     (case rd req of
        None \<Rightarrow> Inl Stream_Overrun
      | Some q \<Rightarrow> bindR (h q s) (\<lambda>(p, s'). Inr (wr p, s')))"

text \<open>The functions a manager installs on its transports.\<close>

datatype svc_cb = Svc_Accept | Svc_Receive nat | Svc_Disconnect

record 's msm = "svc_cb tw" +
  ms_connections :: "nat list"
  ms_cbs :: "(string, 's service) omap"
  ms_app :: 's

definition ms_init :: "os_listen \<Rightarrow> int \<Rightarrow> 's msm \<Rightarrow> 's msm res" where
  "ms_init os port w =
     bindR (listen os port Svc_Accept w) (\<lambda>(ok, w'). ensure ok Ros_Break (Inr w'))"

definition ms_bind :: "string \<Rightarrow> 's service \<Rightarrow> 's msm \<Rightarrow> 's msm" where
  "ms_bind method cb w = w\<lparr>ms_cbs := oput method cb (ms_cbs w)\<rparr>"

text \<open>
  \<open>onAccept\<close> of both managers: the connection of the world is the accepted one, \<open>peer\<close> what
  \<open>getpeername\<close> says about it.
\<close>

definition serve_conn :: "os_peer \<Rightarrow> (svc_cb, 'm) tw_scheme \<Rightarrow> (svc_cb, 'm) tw_scheme res" where
  "serve_conn peer w =
     bindR (getClientURI peer (conn w)) (\<lambda>_.
     bindR (enableRead (enableMessagePass w)) (\<lambda>w1.
       Inr (setDisconnectCallback Svc_Disconnect (setMsgCallback (Svc_Receive (self (conn w1))) w1))))"

definition ms_onAccept :: "os_peer \<Rightarrow> 's msm \<Rightarrow> 's msm res" where
  "ms_onAccept peer w =
     bindR (serve_conn peer w)
       (\<lambda>w1. Inr (w1\<lparr>ms_connections := ms_connections w1 @ [self (conn w1)]\<rparr>))"

definition ms_onReceive :: "frame list \<Rightarrow> 's msm \<Rightarrow> 's msm res" where
  "ms_onReceive frames w =
     ensure (length frames = 2) Ros_Break
       (let meth = chars (payload (frames ! 0)); req = payload (frames ! 1) in
        case map_of (ms_cbs w) meth of
          Some cb \<Rightarrow> bindR (cb req (ms_app w)) (\<lambda>(resp, s).
            sendMessage resp (of_nat (length resp)) (w\<lparr>ms_app := s\<rparr>))
        | None \<Rightarrow> Inr w)"

definition ms_onDisconnect :: "nat \<Rightarrow> 's msm \<Rightarrow> 's msm" where
  "ms_onDisconnect i w = w\<lparr>ms_connections := remove1 i (ms_connections w)\<rparr>"

definition ms_react :: "'s msm \<Rightarrow> 's msm res" where
  "ms_react w =
     (case last (upcalls w) of
        Received (Svc_Receive _) frames \<Rightarrow> ms_onReceive frames w
      | Disconnected Svc_Disconnect i \<Rightarrow> Inr (ms_onDisconnect i w)
      | _ \<Rightarrow> Inr w)"

text \<open>The destructor closes the listening transport, which is the connection of its world.\<close>

definition ms_delete :: "'s msm \<Rightarrow> 's msm res" where
  "ms_delete w = close w"

text \<open>\<open>ServiceManager\<close> has one callback, empty until \<open>bind\<close>.\<close>

record 's sm = "svc_cb tw" +
  sm_connections :: "nat list"
  sm_cb :: "'s service option"
  sm_app :: 's

definition sm_init :: "os_listen \<Rightarrow> int \<Rightarrow> 's sm \<Rightarrow> 's sm res" where
  "sm_init os port w =
     bindR (listen os port Svc_Accept w) (\<lambda>(ok, w'). ensure ok Ros_Break (Inr w'))"

definition sm_bind :: "'s service \<Rightarrow> 's sm \<Rightarrow> 's sm" where
  "sm_bind cb w = w\<lparr>sm_cb := Some cb\<rparr>"

definition sm_onAccept :: "os_peer \<Rightarrow> 's sm \<Rightarrow> 's sm res" where
  "sm_onAccept peer w =
     bindR (serve_conn peer w)
       (\<lambda>w1. Inr (w1\<lparr>sm_connections := sm_connections w1 @ [self (conn w1)]\<rparr>))"

definition sm_onReceive :: "frame list \<Rightarrow> 's sm \<Rightarrow> 's sm res" where
  "sm_onReceive frames w =
     ensure (length frames = 1) Ros_Break
       (case sm_cb w of
          None \<Rightarrow> Inl Bad_Call
        | Some cb \<Rightarrow> bindR (cb (payload (frames ! 0)) (sm_app w)) (\<lambda>(resp, s).
            sendMessage resp (of_nat (length resp)) (w\<lparr>sm_app := s\<rparr>)))"

definition sm_onDisconnect :: "nat \<Rightarrow> 's sm \<Rightarrow> 's sm" where
  "sm_onDisconnect i w = w\<lparr>sm_connections := remove1 i (sm_connections w)\<rparr>"

definition sm_delete :: "'s sm \<Rightarrow> 's sm res" where
  "sm_delete w = close w"

section \<open>Calling\<close>

text \<open>
  \<open>ServiceResponseT\<close> keeps a request until its answer; the objects are named by \<open>pc_id\<close>. \<open>answers\<close>
  records the calls of the callback, with the request and the response it was given.
\<close>

datatype call_cb = Resp_Call nat | Call_Disconnect

record 'q pending_call =
  pc_id :: nat
  pc_tcp :: nat
  pc_req :: 'q

record ('q, 'p) msc = "call_cb tw" +
  outgoing :: "'q pending_call list"
  answers :: "(nat \<times> 'q \<times> 'p) list"

definition request_frames :: "('q \<Rightarrow> byte list) \<Rightarrow> string \<Rightarrow> 'q \<Rightarrow> frame list" where
  "request_frames wr meth q =
     [\<lparr>f_data = bytes meth, f_size = of_nat (length meth)\<rparr>,
      \<lparr>f_data = wr q, f_size = of_nat (length (wr q))\<rparr>]"

definition msc_call ::
  "('q \<Rightarrow> byte list) \<Rightarrow> nat \<Rightarrow> string \<Rightarrow> 'q \<Rightarrow> ('q, 'p) msc \<Rightarrow> ('q, 'p) msc res" where
  "msc_call wr i meth q w =
     bindR (enableRead (enableMessagePass w)) (\<lambda>w1.
     bindR (sendFrames (request_frames wr meth q)
              (setDisconnectCallback Call_Disconnect (setMsgCallback (Resp_Call i) w1))) (\<lambda>w2.
       Inr (w2\<lparr>outgoing := outgoing w2 @ [\<lparr>pc_id = i, pc_tcp = self (conn w2), pc_req = q\<rparr>]\<rparr>)))"

text \<open>\<open>removeConnection\<close> deletes the first call made on the transport.\<close>

definition removeConnection :: "nat \<Rightarrow> ('q, 'p) msc \<Rightarrow> ('q, 'p) msc" where
  "removeConnection j w =
     w\<lparr>outgoing := (case dropWhile (\<lambda>c. pc_tcp c \<noteq> j) (outgoing w) of
         [] \<Rightarrow> outgoing w
       | c # rest \<Rightarrow> takeWhile (\<lambda>c. pc_tcp c \<noteq> j) (outgoing w) @ rest)\<rparr>"

text \<open>
  \<open>close\<close> runs the disconnect callback itself, so a \<open>close\<close> from inside another callback is
  followed by it.
\<close>

definition close_and_remove :: "('q, 'p) msc \<Rightarrow> ('q, 'p) msc res" where
  "close_and_remove w =
     bindR (close w) (\<lambda>w1. Inr
       (case drop (length (upcalls w)) (upcalls w1) of
          [Disconnected Call_Disconnect j] \<Rightarrow> removeConnection j w1
        | _ \<Rightarrow> w1))"

text \<open>\<open>ServiceResponseT::call\<close>, on the object of call \<open>i\<close>.\<close>

definition resp_call ::
  "(byte list \<Rightarrow> 'p option) \<Rightarrow> nat \<Rightarrow> frame list \<Rightarrow> ('q, 'p) msc \<Rightarrow> ('q, 'p) msc res" where
  "resp_call rd i frames w =
     (case find (\<lambda>c. pc_id c = i) (outgoing w) of
        None \<Rightarrow> Inl Use_After_Free
      | Some c \<Rightarrow>
          ensure (length frames = 1) Ros_Break
            (case rd (payload (frames ! 0)) of
               None \<Rightarrow> Inl Stream_Overrun
             | Some p \<Rightarrow> close_and_remove (w\<lparr>answers := answers w @ [(i, pc_req c, p)]\<rparr>)))"

definition msc_react :: "(byte list \<Rightarrow> 'p option) \<Rightarrow> ('q, 'p) msc \<Rightarrow> ('q, 'p) msc res" where
  "msc_react rd w =
     (case last (upcalls w) of
        Received (Resp_Call i) frames \<Rightarrow> resp_call rd i frames w
      | Disconnected Call_Disconnect j \<Rightarrow> Inr (removeConnection j w)
      | _ \<Rightarrow> Inr w)"

section \<open>The server\<close>

lemma ms_fields: "tw.more w' = tw.more w \<Longrightarrow>
    ms_connections w' = ms_connections w \<and> ms_cbs w' = ms_cbs w \<and> ms_app w' = ms_app w"
  by (cases w; cases w') simp

lemma live_fields [simp]: "live r s (ms_app_update f w) = live r s w"
  "live r s (ms_connections_update g w) = live r s w"
  by (simp_all add: live_def Let_def in_step_def)

text \<open>
  A served connection, named \<open>i\<close>: established, with the callbacks of the manager, and listed
  among the connections exactly as long as it is open.
\<close>

definition served :: "int \<Rightarrow> int \<Rightarrow> nat \<Rightarrow> 's msm \<Rightarrow> bool" where
  "served r s i w \<longleftrightarrow> live r s w \<and> self (conn w) = i \<and> readmsg_cb (conn w) = Some (Svc_Receive i)
     \<and> (\<not> is_closed (conn w) \<longrightarrow> disconnect_cb (conn w) = Some Svc_Disconnect)
     \<and> distinct (ms_connections w) \<and> (i \<in> set (ms_connections w) \<longleftrightarrow> \<not> is_closed (conn w))"

text \<open>The two ways a request ends the process: its shape, or the service that was called.\<close>

definition request_aborts :: "frame list \<Rightarrow> abort \<Rightarrow> 's msm \<Rightarrow> bool" where
  "request_aborts frames e w \<longleftrightarrow> (length frames \<noteq> 2 \<and> e = Ros_Break)
     \<or> (\<exists>meth req cb. map wire frames = map wire [meth, req]
          \<and> map_of (ms_cbs w) (chars (payload meth)) = Some cb \<and> cb (payload req) (ms_app w) = Inl e)"

lemma sendMessage_live:
  assumes "live r s w"
  shows "\<exists>w'. sendMessage bs (of_nat (length bs)) w = Inr w' \<and> live r s w' \<and> quiet w w'"
proof -
  have "sendable [\<lparr>f_data = bs, f_size = of_nat (length bs)\<rparr>]"
    by (simp add: sendable_def frame_ok_def unat_of_nat take_bit_nat_less_eq_self flip: take_bit_eq_mod)
  then show ?thesis
    using sendFrames_live[OF assms] sendFrames_io unfolding sendMessage_def by blast
qed

lemma ms_onReceive_served:
  assumes inv: "served r s i w"
  shows "case ms_onReceive frames w of Inr w' \<Rightarrow> served r s i w' \<and> ms_cbs w' = ms_cbs w | Inl e \<Rightarrow> request_aborts frames e w"
proof (cases "length frames = 2")
  case False
  then show ?thesis by (simp add: ms_onReceive_def request_aborts_def)
next
  case True
  then obtain mf rf where fs: "frames = [mf, rf]" by (auto simp: numeral_2_eq_2 length_Suc_conv)
  show ?thesis
  proof (cases "map_of (ms_cbs w) (chars (payload mf))")
    case None
    then show ?thesis using inv by (simp add: ms_onReceive_def fs)
  next
    case (Some cb)
    show ?thesis
    proof (cases "cb (payload rf) (ms_app w)")
      case (Inl e)
      then show ?thesis using Some by (auto simp: ms_onReceive_def fs request_aborts_def)
    next
      case (Inr rs)
      obtain resp st where rs: "rs = (resp, st)" by fastforce
      have "live r s (w\<lparr>ms_app := st\<rparr>)" using inv by (simp add: served_def)
      then obtain w' where w': "sendMessage resp (of_nat (length resp)) (w\<lparr>ms_app := st\<rparr>) = Inr w'"
        "live r s w'" "quiet (w\<lparr>ms_app := st\<rparr>) w'" using sendMessage_live by blast
      then have "served r s i w'" "ms_cbs w' = ms_cbs w"
        using inv ms_fields[of w' "w\<lparr>ms_app := st\<rparr>"] by (auto simp: served_def quiet_def same_view_def)
      then show ?thesis using w'(1) Some Inr by (simp add: ms_onReceive_def fs rs)
    qed
  qed
qed

text \<open>The reaction to whatever a step of the transport did.\<close>

lemma ms_reaction_served:
  assumes inv: "served r s i w" and l: "live r s v"
    and io: "quiet w v \<or> handed w v \<or> shut w v"
  shows "case reaction ms_react w v of
      Inr w' \<Rightarrow> served r s i w' \<and> ms_cbs w' = ms_cbs w
    | Inl e \<Rightarrow> \<exists>frames. upcalls v = upcalls w @ [Received (Svc_Receive i) frames] \<and> request_aborts frames e w"
  using io
proof (elim disjE)
  assume q: "quiet w v"
  then have "served r s i v" using inv l ms_fields[of v w] by (auto simp: served_def quiet_def same_view_def)
  then show ?thesis using q ms_fields[of v w] by (auto simp: reaction_def quiet_def same_view_def)
next
  assume h: "handed w v"
  then obtain fs where fs: "upcalls v = upcalls w @ [Received (Svc_Receive i) fs]"
    using inv by (auto simp: handed_def served_def)
  have sv: "served r s i v" using inv h l ms_fields[of v w] by (auto simp: served_def handed_def same_view_def)
  have "request_aborts fs e v = request_aborts fs e w" for e
    using h ms_fields[of v w] by (auto simp: request_aborts_def handed_def same_view_def)
  moreover have "reaction ms_react w v = ms_onReceive fs v" by (simp add: reaction_def ms_react_def fs)
  moreover have "ms_cbs v = ms_cbs w" using h ms_fields[of v w] by (auto simp: handed_def same_view_def)
  ultimately show ?thesis using ms_onReceive_served[OF sv, of fs] fs by (auto split: sum.splits)
next
  assume h: "shut w v"
  have up: "upcalls v = upcalls w @ [Disconnected Svc_Disconnect i]"
    using inv h by (auto simp: shut_def served_def disconnect_call_def)
  have "served r s i (ms_onDisconnect i v)"
    using inv h l ms_fields[of v w] by (auto simp: served_def shut_def same_view_def ms_onDisconnect_def)
  moreover have "reaction ms_react w v = Inr (ms_onDisconnect i v)" by (simp add: reaction_def ms_react_def up)
  moreover have "ms_cbs v = ms_cbs w" using ms_fields[of v w] h by (auto simp: shut_def same_view_def)
  ultimately show ?thesis by (simp add: ms_onDisconnect_def)
qed

interpretation sv: upper_layer ms_react r s "\<lambda>w. served r s i w \<and> ms_cbs w = C" request_aborts for r s i C
proof
  fix w v :: "'a msm"
  assume "served r s i w \<and> ms_cbs w = C" "live r s v" "quiet w v \<or> handed w v \<or> shut w v"
  then show "case reaction ms_react w v of Inr w' \<Rightarrow> served r s i w' \<and> ms_cbs w' = C
    | Inl e \<Rightarrow> \<exists>c fs. upcalls v = upcalls w @ [Received c fs] \<and> request_aborts fs e w"
    using ms_reaction_served[of r s i w v] by (fastforce split: sum.splits)
qed (simp add: served_def)

text \<open>An example: a server that counts its calls and echoes their argument.\<close>

definition echo_server :: "nat msm" where
  "echo_server = armed (Svc_Receive 1) (Some Svc_Disconnect)
     \<lparr>conn = (new_tcp 1 True 0)\<lparr>sock := 7\<rparr>, pset = idle_set, sent = [], rcvd = [], closed_fds = [],
      sockopts = [], upcalls = [], ms_connections = [1],
      ms_cbs = [(''e'', service_callback Some id (\<lambda>q n. Inr (q, n + 1)))], ms_app = 0\<rparr>"

lemma echo_served: "served 3 7 1 echo_server"
proof -
  have "live 3 7 echo_server" unfolding echo_server_def by (rule armed_live, rule new_fresh[where i = 1]) simp_all
  then show ?thesis by (simp add: served_def echo_server_def armed_def new_tcp_def)
qed

text \<open>
  C10: A served connection and its manager stay in step, and only a request can hurt the server.
  In a round of the poll thread on a served connection, whatever the events and whatever \<open>recv\<close>
  and \<open>send\<close> answer: either the round returns and the connection is still served, listed by the
  manager exactly if it is open; or the process ends because the message read in this round did
  not have the two frames of a request, or because the method it names ended it on that request.
\<close>

theorem server_round:
  assumes "served r s i w"
  shows "case socketUpdate ms_react os ev w of
      Inr w' \<Rightarrow> served r s i w' \<and> ms_cbs w' = ms_cbs w
    | Inl e \<Rightarrow> \<exists>v c frames. on_readable os w = Inr v
        \<and> upcalls v = upcalls w @ [Received c frames] \<and> request_aborts frames e w"
  by (rule sv.round) (simp add: assms)

definition idle_os :: os_update where
  "idle_os = \<lparr>ou_accept = \<lparr>oa_socket = -1, oa_nonblock = 0, oa_peer = None\<rparr>, ou_name = 2,
     ou_recv = Recv_Would_Block, ou_send = Send_Would_Block\<rparr>"

text \<open>The peer hangs up: the round returns, and the manager forgets the connection.\<close>

theorem server_round_witness:
  "\<exists>w'. socketUpdate ms_react idle_os POLLHUP echo_server = Inr w' \<and> served 3 7 1 w' \<and> is_closed (conn w')
    \<and> 1 \<notin> set (ms_connections w')"
proof -
  have l: "live 3 7 echo_server" "\<not> is_closed (conn echo_server)" using echo_served by (simp_all add: served_def echo_server_def new_tcp_def)
  obtain v where v: "close echo_server = Inr v" using close_live_returns[OF l(1)] by blast
  have up: "upcalls v = upcalls echo_server @ [Disconnected Svc_Disconnect 1]" "is_closed (conn v)"
    using close_io[OF v] l(2) by (simp_all add: shut_def disconnect_call_def echo_server_def armed_def new_tcp_def)
  have "socketUpdate ms_react idle_os POLLHUP echo_server = Inr (ms_onDisconnect 1 v)"
    using v up l(2) by (simp add: socketUpdate_def poll_bits reaction_def ms_react_def)
  then show ?thesis
    using server_round[OF echo_served, of idle_os POLLHUP] up(2)
    by (auto simp: ms_onDisconnect_def served_def)
qed

end
