(* ===== verification/Remote_Call.thy ===== *)
theory Remote_Call
  imports Services
begin

text \<open>
  A remote call from end to end (\<open>src/src/service.hpp\<close> over \<open>transport_tcp.cpp\<close>): the request that
  \<open>MultiServiceClient::call\<close> queues travels over the byte stream, \<open>MultiServiceManager\<close> runs the
  method and queues the response, and \<open>ServiceResponseT::call\<close> hands it to the caller's callback,
  closes the connection and frees the call.
\<close>

section \<open>One message over a connection\<close>

text \<open>What rounds that only write, and rounds that only read, leave alone.\<close>

lemma send_run_live:
  assumes "send_run w es w'" and "live r s w" and "\<not> is_closed (conn w)"
  shows "live r s w' \<and> quiet w w' \<and> rcvd w' = rcvd w \<and> reading (conn w') = reading (conn w)
    \<and> read_msg (conn w') = read_msg (conn w)"
  using assms
proof (induction rule: send_run.induct)
  case (post fs w w1 es w')
  have "live r s w1" using sendFrames_live[OF post.prems(1) post.hyps(1)] post.hyps(2) by auto
  moreover have q: "quiet w w1" using sendFrames_io[OF post.hyps(2)] .
  moreover have "rcvd w1 = rcvd w" "reading (conn w1) = reading (conn w)" "read_msg (conn w1) = read_msg (conn w)"
    using post.hyps(2) by (auto simp: sendFrames_def Let_def res_simps dest!: switch_result(3) split: if_splits)
  ultimately show ?case using post quiet_trans(1)[OF q, of w'] by (auto simp: quiet_def)
next
  case (writable r' w w1 es w')
  have ok: "\<forall>m \<in> set (send_msgs (conn w)). wr_ok m" using writable.prems by (simp add: live_def Let_def)
  have "write_step_ok True w w1"
    using writeMessage_step[OF ok writable.prems(2) writable.hyps(1,3)] writable.hyps(2) by simp
  then have opn: "\<not> is_closed (conn w1)" by (auto simp: write_step_ok_def)
  have l: "live r s w1" by (rule writeMessage_live[OF writable.prems writable.hyps(3)])
  have q: "quiet w w1" using writeMessage_io[OF writable.hyps(3)] opn by (auto simp: shut_def)
  have "rcvd w1 = rcvd w \<and> reading (conn w1) = reading (conn w) \<and> read_msg (conn w1) = read_msg (conn w)"
    using writeMessage_effect[OF writable.hyps(3) writable.prems(2) ok] writable.hyps(1)
    by (auto simp: Let_def requeue_def dest!: switch_result(4))
  then show ?case using writable.IH[OF l opn] quiet_trans(1)[OF q, of w'] by auto
qed simp

lemma recv_run_keeps:
  assumes "recv_run w w'" and "live r s w" and "\<not> is_closed (conn w)"
  shows "live r s w' \<and> \<not> is_closed (conn w') \<and> same_view w w' \<and> disconnect_cb (conn w') = disconnect_cb (conn w)
    \<and> sent w' = sent w \<and> send_msgs (conn w') = send_msgs (conn w)
    \<and> filter_num (conn w') = filter_num (conn w) \<and> msg_counter (conn w') = msg_counter (conn w)"
  using assms
proof (induction rule: recv_run.induct)
  case (round w w1 r' w2)
  then have l: "live r s w1" and c: "\<not> is_closed (conn w1)" by auto
  have l2: "live r s w2" by (rule readMessage_live[OF l c round.hyps(2)])
  have "same_view w1 w2 \<and> disconnect_cb (conn w2) = disconnect_cb (conn w1)"
    using readMessage_io[OF round.hyps(2)] round.hyps(3) by (auto simp: quiet_def handed_def shut_def)
  moreover have "sent w2 = sent w1 \<and> send_msgs (conn w2) = send_msgs (conn w1)
      \<and> filter_num (conn w2) = filter_num (conn w1) \<and> msg_counter (conn w2) = msg_counter (conn w1)"
  proof -
    have re: "read_effect w1 w2"
      using readMessage_effect[OF round.hyps(2)] .
    have "is_closed (conn (set_read_msg m' u))" if "close v = Inr u" for m' and u v :: "('a, 'b) tw_scheme"
      using close_result[OF that] by simp
    then show ?thesis using re round.hyps(3) unfolding read_effect_def by (auto simp: rd_upd_def)
  qed
  ultimately show ?case using round l2 by (auto simp: same_view_def)
qed (simp add: same_view_def)

lemma one_message:
  assumes run: "recv_run w w'" and l: "live r s w" and opn: "\<not> is_closed (conn w)"
    and idle: "\<not> reading (conn w)" and cb: "readmsg_cb (conn w) = Some cb"
    and got: "rcvd w' = rcvd w @ enc_msg fs" and fs: "wire_ok fs"
  shows "\<exists>fs'. upcalls w' = upcalls w @ [Received cb fs'] \<and> map wire fs' = map wire fs"
proof -
  have "rd_inv (conn w)" using l opn by (simp add: live_def Let_def)
  then obtain g msgs where m: "rd_inv (conn w')" "rcvd w' = rcvd w @ g"
    "upcalls w' = upcalls w @ map (Received cb) msgs"
    "rd_data (conn w) @ g = concat (map enc_msg msgs) @ rd_data (conn w')" "\<forall>f \<in> set msgs. received_ok f"
    using recv_run_stream[OF run _ opn cb] by blast
  have "concat (map enc_msg msgs) @ rd_data (conn w') = concat (map enc_msg [fs])"
    using m(2,4) got idle by (simp add: rd_data_def)
  then obtain as bs where ab: "[fs] = as @ bs" "map (map wire) msgs = map (map wire) as"
    "rd_data (conn w') = concat (map enc_msg bs)"
    using enc_msgs_split m(5) received_wire_ok fs by (metis empty_iff empty_set set_ConsD)
  have "bs = []"
  proof (rule ccontr)
    assume "bs \<noteq> []"
    then have "bs = [fs]" using ab(1) by (cases as) auto
    then show False using ab(3) rd_data_incomplete[OF m(1) fs, of "[]"] by simp
  qed
  then obtain fs' where "msgs = [fs']" "map wire fs' = map wire fs" using ab(1,2) by (cases msgs) auto
  then show ?thesis using m(3) by simp
qed

lemma sent_one:
  assumes "send_run w es w'" and "live r s w" and "\<not> is_closed (conn w)"
    and "posted es = []" and "send_msgs (conn w') = []"
  shows "sent w' = sent w @ pending (conn w)"
proof -
  have "\<forall>m \<in> set (send_msgs (conn w)). wr_ok m" using assms(2,3) by (simp add: live_def Let_def)
  then show ?thesis using send_run_stream[OF assms(1,3)] assms(4,5) by (simp add: pending_def)
qed

section \<open>Making a call\<close>

lemma msc_fields: "tw.more w' = tw.more w \<Longrightarrow> outgoing w' = outgoing w \<and> answers w' = answers w"
  by (cases w; cases w') simp

lemma live_msc [simp]: "live r s (outgoing_update f w) = live r s w" "live r s (answers_update g w) = live r s w"
  by (simp_all add: live_def Let_def in_step_def)

lemma request_sendable: "sendable (request_frames wr meth q)"
  by (simp add: request_frames_def sendable_def frame_ok_def unat_of_nat take_bit_nat_less_eq_self
      flip: take_bit_eq_mod)

text \<open>The call on record, and the request queued on an established connection.\<close>

lemma msc_call_result:
  assumes fr: "Establish.fresh r s w" and flt: "filter_num (conn w) = 1"
  shows "\<exists>w'. msc_call wr i meth q w = Inr w' \<and> live r s w' \<and> \<not> is_closed (conn w')
    \<and> outgoing w' = outgoing w @ [\<lparr>pc_id = i, pc_tcp = self (conn w), pc_req = q\<rparr>] \<and> answers w' = answers w
    \<and> self (conn w') = self (conn w) \<and> readmsg_cb (conn w') = Some (Resp_Call i)
    \<and> disconnect_cb (conn w') = Some Call_Disconnect \<and> \<not> reading (conn w')
    \<and> sent w' = sent w \<and> rcvd w' = rcvd w \<and> upcalls w' = upcalls w
    \<and> pending (conn w') = enc_msg (request_frames wr meth q)"
proof -
  define a where "a = armed (Resp_Call i) (Some Call_Disconnect) w"
  have la: "live r s a" unfolding a_def by (rule armed_live[OF fr])
  have opn: "\<not> is_closed (conn a)" "send_msgs (conn a) = []" "\<not> reading (conn a)" "filter_num (conn a) = 1"
    using fr flt by (simp_all add: a_def fresh_def Let_def)
  obtain b where b: "sendFrames (request_frames wr meth q) a = Inr b" "live r s b"
    using sendFrames_live[OF la request_sendable[of wr meth q]] by blast
  have qb: "quiet a b" using sendFrames_io[OF b(1)] .
  have more: "outgoing b = outgoing w" "answers b = answers w"
    using msc_fields[of b w] qb by (simp_all add: quiet_def same_view_def a_def)
  have st: "sent b = sent a" "pending (conn b) = enc_msg (request_frames wr meth q)"
    using sendFrames_step[OF b(1) request_sendable[of wr meth q]] opn by (simp_all add: pending_def)
  have rd: "rcvd b = rcvd a" "reading (conn b) = reading (conn a)"
    using b(1) by (auto simp: sendFrames_def Let_def res_simps dest!: switch_result(3) split: if_splits)
  let ?w' = "b\<lparr>outgoing := outgoing b @ [\<lparr>pc_id = i, pc_tcp = self (conn b), pc_req = q\<rparr>]\<rparr>"
  have "bindR (enableRead (enableMessagePass w)) (\<lambda>w1.
      Inr (setDisconnectCallback Call_Disconnect (setMsgCallback (Resp_Call i) w1))) = Inr a"
    unfolding a_def by (rule setup_armed(1)[OF fr])
  then have "msc_call wr i meth q w = Inr ?w'"
    using b(1) by (cases "enableRead (enableMessagePass w)") (simp_all add: msc_call_def)
  moreover have "readmsg_cb (conn b) = Some (Resp_Call i)" "disconnect_cb (conn b) = Some Call_Disconnect"
    "self (conn b) = self (conn w)"
    using qb by (simp_all add: quiet_def same_view_def a_def armed_def)
  moreover have "\<not> is_closed (conn b)" "upcalls b = upcalls w" using qb opn(1) by (simp_all add: quiet_def a_def)
  ultimately show ?thesis
    using b(2) more st rd opn(3) by (intro exI[of _ ?w']) (simp add: a_def)
qed

section \<open>The answer\<close>

lemma resp_call_result:
  assumes l: "live r s w" and opn: "\<not> is_closed (conn w)" and dc: "disconnect_cb (conn w) = Some Call_Disconnect"
    and out: "outgoing w = pre @ [\<lparr>pc_id = i, pc_tcp = self (conn w), pc_req = q\<rparr>]"
    and new: "\<forall>c \<in> set pre. pc_id c \<noteq> i \<and> pc_tcp c \<noteq> self (conn w)"
    and fs: "length frames = 1" "rd (payload (frames ! 0)) = Some p"
  shows "\<exists>w'. resp_call rd i frames w = Inr w' \<and> live r s w' \<and> is_closed (conn w')
    \<and> answers w' = answers w @ [(i, q, p)] \<and> outgoing w' = pre"
proof -
  have f: "find (\<lambda>c. pc_id c = i) (outgoing w) = Some \<lparr>pc_id = i, pc_tcp = self (conn w), pc_req = q\<rparr>"
    using new unfolding out by (induction pre) auto
  let ?w1 = "w\<lparr>answers := answers w @ [(i, q, p)]\<rparr>"
  have "live r s ?w1" using l by simp
  then obtain v where v: "close ?w1 = Inr v" "live r s v" using close_live_returns by blast
  have sh: "shut ?w1 v" using close_io[OF v(1)] opn by simp
  then have up: "upcalls v = upcalls w @ [Disconnected Call_Disconnect (self (conn w))]"
    using dc by (simp add: shut_def disconnect_call_def)
  have more: "outgoing v = outgoing w" "answers v = answers w @ [(i, q, p)]"
    using msc_fields[of v ?w1] sh by (simp_all add: shut_def same_view_def)
  have "dropWhile (\<lambda>c. pc_tcp c \<noteq> self (conn w)) (outgoing w) = [\<lparr>pc_id = i, pc_tcp = self (conn w), pc_req = q\<rparr>]"
    "takeWhile (\<lambda>c. pc_tcp c \<noteq> self (conn w)) (outgoing w) = pre"
    using new unfolding out by (induction pre) auto
  then have rm: "outgoing (removeConnection (self (conn w)) v) = pre" by (simp add: removeConnection_def more)
  have "resp_call rd i frames w = Inr (removeConnection (self (conn w)) v)"
    using fs by (simp add: resp_call_def f close_and_remove_def v(1) up)
  moreover have "is_closed (conn v)" using sh by (simp add: shut_def)
  ultimately show ?thesis
    using v(2) more rm by (intro exI[of _ "removeConnection (self (conn w)) v"]) (simp add: removeConnection_def)
qed

text \<open>The method runs on the request that was sent.\<close>

lemma ms_onReceive_request:
  assumes wire: "map wire fs = map wire (request_frames wr meth q)"
    and sz: "length meth < 2 ^ 32" "length (wr q) < 2 ^ 32"
    and bound: "map_of (ms_cbs w) meth = Some (service_callback rd wr' h)"
    and rd: "rd (wr q) = Some q" and h: "h q (ms_app w) = Inr (p, a)"
  shows "ms_onReceive fs w = sendMessage (wr' p) (of_nat (length (wr' p))) (w\<lparr>ms_app := a\<rparr>)"
proof -
  obtain f g where fs: "fs = [f, g]" using wire by (auto simp: request_frames_def)
  have "payload f = bytes meth" "payload g = wr q"
    using wire payload_full[of "bytes meth"] payload_full[of "wr q"] sz
    by (simp_all add: fs request_frames_def wire_def)
  then show ?thesis
    using bound rd h by (simp add: ms_onReceive_def fs service_callback_def)
qed

section \<open>From end to end\<close>

text \<open>A request that was queued, written and read: the server's layer is given its two frames.\<close>

lemma request_arrives:
  assumes client: "Establish.fresh rc sc c" "filter_num (conn c) = 1" "sent c = []"
    and call: "msc_call wrq i meth q c = Inr c1"
    and request: "send_run c1 es c2" "posted es = []" "send_msgs (conn c2) = []"
    and server: "served rs ss j s" "\<not> is_closed (conn s)" "\<not> reading (conn s)" "rcvd s = []"
    and arrives: "recv_run s s1" "rcvd s1 = sent c2"
  shows "sent c2 = enc_msg (request_frames wrq meth q)
    \<and> (\<exists>fs. upcalls s1 = upcalls s @ [Received (Svc_Receive j) fs] \<and> map wire fs = map wire (request_frames wrq meth q))
    \<and> ms_cbs s1 = ms_cbs s \<and> ms_app s1 = ms_app s \<and> ms_connections s1 = ms_connections s"
proof -
  let ?req = "request_frames wrq meth q"
  have c1: "live rc sc c1" "\<not> is_closed (conn c1)" "sent c1 = []" "pending (conn c1) = enc_msg ?req"
    using msc_call_result[OF client(1,2), of wrq i meth q] call client(3) by auto
  have c2: "sent c2 = enc_msg ?req" using sent_one[OF request(1) c1(1,2) request(2,3)] c1 by auto
  have s: "live rs ss s" "readmsg_cb (conn s) = Some (Svc_Receive j)" using server(1) by (simp_all add: served_def)
  have "same_view s s1" using recv_run_keeps[OF arrives(1) s(1) server(2)] by blast
  moreover obtain fs where "upcalls s1 = upcalls s @ [Received (Svc_Receive j) fs]" "map wire fs = map wire ?req"
    using one_message[OF arrives(1) s(1) server(2,3) s(2) _ sendable_wire_ok[OF request_sendable[of wrq meth q]]]
      arrives(2) c2 server(4) by auto
  ultimately show ?thesis using c2 ms_fields[of s1 s] by (auto simp: same_view_def)
qed

text \<open>The whole of a call, for the layers that make one.\<close>

lemma remote_call:
  assumes codec: "rdq (wrq q) = Some q" "rdp (wrp p) = Some p"
    and size: "length meth < 2 ^ 32" "length (wrq q) < 2 ^ 32" "length (wrp p) < 2 ^ 32"
    and client: "Establish.fresh rc sc c" "filter_num (conn c) = 1" "sent c = []" "rcvd c = []"
      "\<forall>k \<in> set (outgoing c). pc_id k \<noteq> i \<and> pc_tcp k \<noteq> self (conn c)"
    and call: "msc_call wrq i meth q c = Inr c1"
    and request: "send_run c1 es c2" "posted es = []" "send_msgs (conn c2) = []"
    and server: "served rs ss j s" "\<not> is_closed (conn s)" "\<not> reading (conn s)" "send_msgs (conn s) = []"
      "filter_num (conn s) = 1" "rcvd s = []" "sent s = []"
    and bound: "map_of (ms_cbs s) meth = Some (service_callback rdq wrp h)" "h q (ms_app s) = Inr (p, a)"
    and arrives: "recv_run s s1" "rcvd s1 = sent c2"
  shows "\<exists>s2. ms_react s1 = Inr s2 \<and> served rs ss j s2 \<and> ms_app s2 = a
    \<and> (\<forall>es' s3 c3. send_run s2 es' s3 \<longrightarrow> posted es' = [] \<longrightarrow> send_msgs (conn s3) = [] \<longrightarrow>
         recv_run c2 c3 \<longrightarrow> rcvd c3 = sent s3 \<longrightarrow>
         (\<exists>c4. msc_react rdp c3 = Inr c4 \<and> answers c4 = answers c @ [(i, q, p)]
            \<and> outgoing c4 = outgoing c \<and> is_closed (conn c4) \<and> destroy (conn c4) = Inr ()))"
proof -
  let ?req = "request_frames wrq meth q" and ?resp = "[\<lparr>f_data = wrp p, f_size = of_nat (length (wrp p))\<rparr>]"
  have okp: "sendable ?resp" by (simp add: sendable_def frame_ok_def unat_of_nat_u32[OF size(3)])
  have c1: "live rc sc c1" "\<not> is_closed (conn c1)" "self (conn c1) = self (conn c)" "\<not> reading (conn c1)"
    "outgoing c1 = outgoing c @ [\<lparr>pc_id = i, pc_tcp = self (conn c), pc_req = q\<rparr>]" "answers c1 = answers c"
    "readmsg_cb (conn c1) = Some (Resp_Call i)" "disconnect_cb (conn c1) = Some Call_Disconnect"
    "sent c1 = []" "rcvd c1 = []" "pending (conn c1) = enc_msg ?req"
    using msc_call_result[OF client(1,2), of wrq i meth q] call client(3,4) by auto
  have c2: "live rc sc c2" "quiet c1 c2" "rcvd c2 = []" "\<not> reading (conn c2)" "sent c2 = enc_msg ?req"
    using send_run_live[OF request(1) c1(1,2)] sent_one[OF request(1) c1(1,2) request(2,3)] c1 by auto
  have c2': "\<not> is_closed (conn c2)" "readmsg_cb (conn c2) = Some (Resp_Call i)" "same_view c1 c2"
    "disconnect_cb (conn c2) = Some Call_Disconnect"
    using c2(2) c1 by (auto simp: quiet_def same_view_def)
  have s: "live rs ss s" "readmsg_cb (conn s) = Some (Svc_Receive j)" using server(1) by (simp_all add: served_def)
  have s1: "live rs ss s1" "\<not> is_closed (conn s1)" "same_view s s1" "disconnect_cb (conn s1) = disconnect_cb (conn s)"
    "sent s1 = []" "send_msgs (conn s1) = []" "filter_num (conn s1) = 1" "msg_counter (conn s1) = msg_counter (conn s)"
    using recv_run_keeps[OF arrives(1) s(1) server(2)] server by auto
  obtain fs where fs: "upcalls s1 = upcalls s @ [Received (Svc_Receive j) fs]" "map wire fs = map wire ?req"
    and sf: "ms_cbs s1 = ms_cbs s" "ms_app s1 = ms_app s" "ms_connections s1 = ms_connections s"
    using request_arrives[OF client(1-3) call request server(1-3,6) arrives] by blast
  have sv1: "served rs ss j s1" using server(1,2) s1 sf by (simp add: served_def same_view_def)
  have react: "ms_react s1 = sendMessage (wrp p) (of_nat (length (wrp p))) (s1\<lparr>ms_app := a\<rparr>)"
    using ms_onReceive_request[where wr = wrq and rd = rdq and q = q and wr' = wrp and h = h and p = p and a = a
        and w = s1 and meth = meth and fs = fs] fs(2) size codec(1) bound sf
    by (simp add: ms_react_def fs(1))
  have "live rs ss (s1\<lparr>ms_app := a\<rparr>)" using s1(1) by simp
  then obtain s2 where s2: "ms_react s1 = Inr s2" "live rs ss s2" "quiet (s1\<lparr>ms_app := a\<rparr>) s2"
    using sendMessage_live react by metis
  have app: "ms_app s2 = a" "ms_connections s2 = ms_connections s1" and opn: "\<not> is_closed (conn s2)"
    using s2(3) s1(2) ms_fields[of s2 "s1\<lparr>ms_app := a\<rparr>"] by (simp_all add: quiet_def same_view_def)
  have sv2: "served rs ss j s2" using sv1 s2 app by (simp add: served_def quiet_def same_view_def)
  have "sent s2 = []" "pending (conn s2) = enc_msg ?resp"
    using sendFrames_step[OF _ okp, of "s1\<lparr>ms_app := a\<rparr>" s2] s1 s2(1) react
    by (simp_all add: sendMessage_def pending_def)
  note s2' = s2(1,2) sv2 app(1) opn this
  have answer: "\<exists>c4. msc_react rdp c3 = Inr c4 \<and> answers c4 = answers c @ [(i, q, p)]
      \<and> outgoing c4 = outgoing c \<and> is_closed (conn c4) \<and> destroy (conn c4) = Inr ()"
    if run: "send_run s2 es' s3" "posted es' = []" "send_msgs (conn s3) = []" and reply: "recv_run c2 c3" "rcvd c3 = sent s3"
    for es' s3 c3
  proof -
    have "sent s3 = enc_msg ?resp" using sent_one[OF run(1) s2'(2) opn run(2,3)] s2' by simp
    then obtain fs' where fs': "upcalls c3 = upcalls c2 @ [Received (Resp_Call i) fs']" "map wire fs' = map wire ?resp"
      using one_message[OF reply(1) c2(1) c2'(1) c2(4) c2'(2) _ sendable_wire_ok[OF okp]] reply(2) c2(3) by auto
    then obtain f where f: "fs' = [f]" "payload f = wrp p"
      using payload_full[OF size(3)] by (auto simp: wire_def)
    have c3: "live rc sc c3" "\<not> is_closed (conn c3)" "same_view c1 c3" "disconnect_cb (conn c3) = Some Call_Disconnect"
      using recv_run_keeps[OF reply(1) c2(1) c2'(1)] c2' by (auto simp: same_view_def)
    have m3: "outgoing c3 = outgoing c @ [\<lparr>pc_id = i, pc_tcp = self (conn c3), pc_req = q\<rparr>]" "answers c3 = answers c"
      "self (conn c3) = self (conn c)"
      using c3(3) msc_fields[of c3 c1] c1 by (simp_all add: same_view_def)
    have "length fs' = 1" "rdp (payload (fs' ! 0)) = Some p" using f codec(2) by simp_all
    then obtain c4 where c4: "resp_call rdp i fs' c3 = Inr c4" "live rc sc c4" "is_closed (conn c4)"
      "answers c4 = answers c @ [(i, q, p)]" "outgoing c4 = outgoing c"
      using resp_call_result[OF c3(1,2,4) m3(1)] client(5) m3(2,3) by metis
    moreover have "msc_react rdp c3 = resp_call rdp i fs' c3" by (simp add: msc_react_def fs'(1))
    moreover have "destroy (conn c4) = Inr ()" using c4(2,3) by (simp add: live_def Let_def destroy_def)
    ultimately show ?thesis by metis
  qed
  show ?thesis by (intro exI[of _ s2] conjI s2'(1,3,4)) (use answer in blast)
qed

text \<open>
  C5: A remote call does what calling the method would. A caller queues a call on a fresh
  connection to a server that has the method bound; once the request has arrived the server runs the
  method exactly once, on the request that was given, and keeps serving; once the response has
  arrived the caller's callback is run exactly once, with its request and the method's response, the
  connection is closed, and the call is freed. The serialization must read back what it wrote. The
  bytes are cut in any way of \<open>send_run\<close> and \<open>recv_run\<close>: no round fails or closes the connection, none
  writes the size header of an empty frame in pieces (\<open>short_empty_header\<close>), and none ends before a
  frame size is complete while its bytes so far are zero or missing (\<open>short_size\<close>).
\<close>

theorem rpc_roundtrip:
  assumes codec: "rdq (wrq q) = Some q" "rdp (wrp p) = Some p"
    and size: "length meth < 2 ^ 32" "length (wrq q) < 2 ^ 32" "length (wrp p) < 2 ^ 32"
    and client: "Establish.fresh rc sc c" "filter_num (conn c) = 1" "sent c = []" "rcvd c = []"
      "\<forall>k \<in> set (outgoing c). pc_id k \<noteq> i \<and> pc_tcp k \<noteq> self (conn c)"
    and call: "msc_call wrq i meth q c = Inr c1"
    and request: "send_run c1 es c2" "posted es = []" "send_msgs (conn c2) = []"
    and server: "served rs ss j s" "\<not> is_closed (conn s)" "\<not> reading (conn s)" "send_msgs (conn s) = []"
      "filter_num (conn s) = 1" "rcvd s = []" "sent s = []"
    and bound: "map_of (ms_cbs s) meth = Some (service_callback rdq wrp h)" "h q (ms_app s) = Inr (p, a)"
    and arrives: "recv_run s s1" "rcvd s1 = sent c2"
  shows "\<exists>s2. ms_react s1 = Inr s2 \<and> served rs ss j s2 \<and> ms_app s2 = a
    \<and> (\<forall>es' s3 c3. send_run s2 es' s3 \<longrightarrow> posted es' = [] \<longrightarrow> send_msgs (conn s3) = [] \<longrightarrow>
         recv_run c2 c3 \<longrightarrow> rcvd c3 = sent s3 \<longrightarrow>
         (\<exists>c4. msc_react rdp c3 = Inr c4 \<and> answers c4 = answers c @ [(i, q, p)]
            \<and> outgoing c4 = outgoing c \<and> is_closed (conn c4) \<and> destroy (conn c4) = Inr ()))"
  using assms by (rule remote_call)

section \<open>An example\<close>

text \<open>A caller, for the server that counts its calls and echoes their argument.\<close>

definition caller :: "(byte list, byte list) msc" where
  "caller = \<lparr>conn = (new_tcp 1 True 0)\<lparr>sock := 7\<rparr>, pset = idle_set, sent = [], rcvd = [], closed_fds = [],
     sockopts = [], upcalls = [], outgoing = [], answers = []\<rparr>"

lemmas call_defs = step_defs caller_def idle_set_def msc_call_def request_frames_def enableMessagePass_def
  setReadCallback_def setWriteCallback_def setDisconnectCallback_def setMsgCallback_def enableRead_def bytes_def

lemmas answer_defs = read_defs echo_server_def idle_set_def armed_def ms_react_def ms_onReceive_def payload_def
  chars_def service_callback_def sendMessage_def

lemma example_request:
  "\<exists>c1 c2. msc_call id 4 ''e'' [9] caller = Inr c1
    \<and> send_run c1 [Writable (Send_Accepts 4), Writable (Send_Accepts 4), Writable (Send_Accepts 1),
         Writable (Send_Accepts 4), Writable (Send_Accepts 1)] c2
    \<and> send_msgs (conn c2) = [] \<and> sent c2 = [2, 0, 0, 0, 1, 0, 0, 0, 0x65, 1, 0, 0, 0, 9]
    \<and> (\<exists>c3. recv_run c2 c3 \<and> rcvd c3 = [1, 0, 0, 0, 1, 0, 0, 0, 9])"
  apply (rule exI conjI send_run.writable send_run.finished
        | (simp add: call_defs short_empty_header_def u32_bytes_def; fail))+
   apply (rule recv_run.round[where r = "Recv_Data [9]"])
      apply (rule recv_run.round[where r = "Recv_Data [1, 0, 0, 0]"])
         apply (rule recv_run.round[where r = "Recv_Data [1, 0, 0, 0]"])
            apply (rule recv_run.start)
           apply (simp add: read_defs short_size_def current_def; fail)+
  done

lemma example_evals: "replicate 2 x = [x, x]" "char_of (101 :: nat) = CHR ''e''"
proof -
  show "replicate 2 x = [x, x]" by (simp add: numeral_2_eq_2)
  show "char_of (101 :: nat) = CHR ''e''" by code_simp
qed

lemma example_server:
  "\<exists>s1. recv_run echo_server s1 \<and> rcvd s1 = [2, 0, 0, 0, 1, 0, 0, 0, 0x65, 1, 0, 0, 0, 9]
    \<and> (\<exists>s2. ms_react s1 = Inr s2 \<and> (\<exists>s3. send_run s2 [Writable (Send_Accepts 4), Writable (Send_Accepts 4),
         Writable (Send_Accepts 1)] s3 \<and> send_msgs (conn s3) = [] \<and> sent s3 = [1, 0, 0, 0, 1, 0, 0, 0, 9]))"
  apply (rule exI, rule conjI)
   apply (rule recv_run.round[where r = "Recv_Data [9]"])
      apply (rule recv_run.round[where r = "Recv_Data [1, 0, 0, 0]"])
         apply (rule recv_run.round[where r = "Recv_Data [0x65]"])
            apply (rule recv_run.round[where r = "Recv_Data [1, 0, 0, 0]"])
               apply (rule recv_run.round[where r = "Recv_Data [2, 0, 0, 0]"])
                  apply (rule recv_run.start)
                 apply (simp add: answer_defs short_size_def current_def; fail)+
  apply (rule exI conjI send_run.writable send_run.finished
        | (simp add: answer_defs step_defs short_empty_header_def u32_bytes_def example_evals; fail))+
  done

theorem rpc_roundtrip_witness:
  "\<exists>c1 c2 es s1 s2 (c4 :: (byte list, byte list) msc). msc_call id 4 ''e'' [9] caller = Inr c1
    \<and> send_run c1 es c2 \<and> recv_run echo_server s1 \<and> rcvd s1 = sent c2
    \<and> ms_react s1 = Inr s2 \<and> ms_app s2 = 1 \<and> answers c4 = [(4, [9], [9])] \<and> is_closed (conn c4)"
proof -
  let ?es = "[Writable (Send_Accepts 4), Writable (Send_Accepts 4), Writable (Send_Accepts 1),
         Writable (Send_Accepts 4), Writable (Send_Accepts 1)]"
  let ?h = "\<lambda>q n. Inr (q, n + 1)"
  obtain c1 c2 c3 where c: "msc_call id 4 ''e'' [9] caller = Inr c1" "send_run c1 ?es c2" "send_msgs (conn c2) = []"
    "sent c2 = [2, 0, 0, 0, 1, 0, 0, 0, 0x65, 1, 0, 0, 0, 9]" "recv_run c2 c3" "rcvd c3 = [1, 0, 0, 0, 1, 0, 0, 0, 9]"
    using example_request by blast
  obtain s1 s2 s3 where s: "recv_run echo_server s1" "rcvd s1 = [2, 0, 0, 0, 1, 0, 0, 0, 0x65, 1, 0, 0, 0, 9]"
    "ms_react s1 = Inr s2" "send_run s2 [Writable (Send_Accepts 4), Writable (Send_Accepts 4), Writable (Send_Accepts 1)] s3"
    "send_msgs (conn s3) = []" "sent s3 = [1, 0, 0, 0, 1, 0, 0, 0, 9]"
    using example_server by blast
  have fr: "Establish.fresh 3 7 caller" by (rule new_fresh[where i = 1]) (simp_all add: caller_def)
  have init: "filter_num (conn caller) = 1" "sent caller = []" "rcvd caller = []" "outgoing caller = []" "answers caller = []"
    "\<not> is_closed (conn echo_server)" "\<not> reading (conn echo_server)" "send_msgs (conn echo_server) = []"
    "filter_num (conn echo_server) = 1" "rcvd echo_server = []" "sent echo_server = []" "ms_app echo_server = 0"
    "map_of (ms_cbs echo_server) ''e'' = Some (service_callback Some id ?h)"
    by (simp_all add: caller_def echo_server_def armed_def new_tcp_def)
  have arrives: "rcvd s1 = sent c2" using s(2) c(4) by simp
  have "\<exists>s2. ms_react s1 = Inr s2 \<and> served 3 7 1 s2 \<and> ms_app s2 = 1
    \<and> (\<forall>es' s3 c3. send_run s2 es' s3 \<longrightarrow> posted es' = [] \<longrightarrow> send_msgs (conn s3) = [] \<longrightarrow>
         recv_run c2 c3 \<longrightarrow> rcvd c3 = sent s3 \<longrightarrow>
         (\<exists>c4. msc_react Some c3 = Inr c4 \<and> answers c4 = answers caller @ [(4, [9], [9])]
            \<and> outgoing c4 = outgoing caller \<and> is_closed (conn c4) \<and> destroy (conn c4) = Inr ()))"
    by (rule rpc_roundtrip[where rdq = Some and wrq = id and wrp = id and h = ?h and meth = "''e''" and es = ?es,
          OF _ _ _ _ _ fr _ _ _ _ c(1,2) _ c(3) echo_served])
      (use init s(1) arrives in simp_all)
  then obtain t where t: "ms_react s1 = Inr t" "ms_app t = 1"
    "\<forall>es' s3 c3. send_run t es' s3 \<longrightarrow> posted es' = [] \<longrightarrow> send_msgs (conn s3) = [] \<longrightarrow>
         recv_run c2 c3 \<longrightarrow> rcvd c3 = sent s3 \<longrightarrow>
         (\<exists>c4. msc_react Some c3 = Inr c4 \<and> answers c4 = answers caller @ [(4, [9], [9])]
            \<and> outgoing c4 = outgoing caller \<and> is_closed (conn c4) \<and> destroy (conn c4) = Inr ())" by blast
  have "t = s2" using t(1) s(3) by simp
  have "posted [Writable (Send_Accepts 4), Writable (Send_Accepts 4), Writable (Send_Accepts 1)] = []" by simp
  moreover have "rcvd c3 = sent s3" using s(6) c(6) by simp
  ultimately obtain c4 :: "(byte list, byte list) msc"
    where "answers c4 = answers caller @ [(4, [9], [9])]" "is_closed (conn c4)"
    using t(3)[rule_format, OF s(4)[folded \<open>t = s2\<close>] _ s(5) c(5)] by blast
  then show ?thesis using c(1,2) s(1,3) arrives t(2) \<open>t = s2\<close> unfolding init(5) append_Nil by blast
qed

end
