(* ===== verification/Registration.thy ===== *)
theory Registration
  imports Topic_Manager Master Pubsub_TCP Remote_Call
begin

text \<open>
  Models \<open>src/src/registration.hpp\<close>: how a node tells others what it publishes and finds the
  publishers of a topic. \<open>StaticRegistration\<close> looks them up in a table; \<open>MasterRegistration\<close> asks
  the master, and then every publisher it names for its URIs. The calls are remote calls over
  connections of their own; they are recorded with their destination, and \<open>call_node\<close> is what each
  of them does. The lemmas compose the master, the registration and two topic managers: what is
  published is found.
\<close>

section \<open>Static registration\<close>

text \<open>A \<open>SubscriptionCallback\<close> acts on a state \<open>'s\<close>.\<close>

record static_registration =
  sub_uris :: "(string, string) omap"
  pub_uris :: "(string, string) omap"

definition addPub :: "string \<Rightarrow> string \<Rightarrow> static_registration \<Rightarrow> static_registration" where
  "addPub topic uri g = g\<lparr>pub_uris := oput topic uri (pub_uris g)\<rparr>"

definition addSub :: "string \<Rightarrow> string \<Rightarrow> static_registration \<Rightarrow> static_registration" where
  "addSub topic uri g = g\<lparr>sub_uris := oput topic uri (sub_uris g)\<rparr>"

definition sr_registerSubscription ::
  "string \<Rightarrow> (string list \<Rightarrow> 's \<Rightarrow> 's res) \<Rightarrow> static_registration \<Rightarrow> 's \<Rightarrow> 's res" where
  "sr_registerSubscription topic callback g s =
     (case map_of (pub_uris g) topic of Some uri \<Rightarrow> callback [uri] s | None \<Rightarrow> Inr s)"

definition sr_unregisterSubscription :: "string \<Rightarrow> static_registration \<Rightarrow> bool res" where
  "sr_unregisterSubscription topic g = Inr True"

definition sr_registerPublication :: "string \<Rightarrow> static_registration \<Rightarrow> unit res" where
  "sr_registerPublication topic g = Inr ()"

text \<open>The function ends without a \<open>return\<close>, which is undefined behaviour.\<close>

definition sr_unregisterPublication :: "string \<Rightarrow> static_registration \<Rightarrow> bool res" where
  "sr_unregisterPublication topic g = Inl Missing_Return"

section \<open>Registration with the master\<close>

text \<open>The requests of the services, and the functions bound to their answers.\<close>

datatype service_request =
    Reg_Sub_Request string string
  | Unreg_Sub_Request string string
  | Reg_Pub_Request string string
  | Unreg_Pub_Request string string
  | Topic_Request string

datatype 'k answer_cb = Register_Subscription_Cb 'k | Empty_Callback | Handle_Callback 'k

record 'k node_call =
  nc_addr :: string
  nc_port :: int
  nc_method :: string
  nc_request :: service_request
  nc_answer :: "'k answer_cb"

record 'k master_registration =
  mr_master :: "string \<times> int"
  mr_uri :: string
  mr_calls :: "'k node_call list"

definition new_registration :: "string \<times> int \<Rightarrow> 'k master_registration" where
  "new_registration addr = \<lparr>mr_master = addr, mr_uri = [], mr_calls = []\<rparr>"

definition set_myURI :: "string \<Rightarrow> 'k master_registration \<Rightarrow> 'k master_registration" where
  "set_myURI uri r = r\<lparr>mr_uri := uri\<rparr>"

definition myURI :: "'k master_registration \<Rightarrow> string res" where
  "myURI r = ensure (mr_uri r \<noteq> []) Ros_Break (Inr (mr_uri r))"

definition callMaster ::
  "string \<Rightarrow> service_request \<Rightarrow> 'k answer_cb \<Rightarrow> 'k master_registration \<Rightarrow> 'k master_registration" where
  "callMaster meth req cb r = r\<lparr>mr_calls := mr_calls r @
     [\<lparr>nc_addr = fst (mr_master r), nc_port = snd (mr_master r), nc_method = meth, nc_request = req, nc_answer = cb\<rparr>]\<rparr>"

definition mr_registerSubscription :: "string \<Rightarrow> 'k \<Rightarrow> 'k master_registration \<Rightarrow> 'k master_registration res" where
  "mr_registerSubscription topic callback r = bindR (myURI r) (\<lambda>u.
     Inr (callMaster ''registerSubscription'' (Reg_Sub_Request topic u) (Register_Subscription_Cb callback) r))"

definition mr_unregisterSubscription :: "string \<Rightarrow> 'k master_registration \<Rightarrow> 'k master_registration res" where
  "mr_unregisterSubscription topic r = bindR (myURI r) (\<lambda>u.
     Inr (callMaster ''unregisterSubscription'' (Unreg_Sub_Request topic u) Empty_Callback r))"

definition mr_registerPublication :: "string \<Rightarrow> 'k master_registration \<Rightarrow> 'k master_registration res" where
  "mr_registerPublication topic r = bindR (myURI r) (\<lambda>u.
     Inr (callMaster ''registerPublication'' (Reg_Pub_Request topic u) Empty_Callback r))"

text \<open>Here the member \<open>my_uri_\<close> is used as it is.\<close>

definition mr_unregisterPublication :: "string \<Rightarrow> 'k master_registration \<Rightarrow> 'k master_registration res" where
  "mr_unregisterPublication topic r =
     Inr (callMaster ''unregisterPublication'' (Unreg_Pub_Request topic (mr_uri r)) Empty_Callback r)"

text \<open>
  Without a colon \<open>find\<close> gives \<open>npos\<close>: the whole endpoint is the address, and read as the port too.
\<close>

definition node_address :: "string \<Rightarrow> string" where
  "node_address endpoint = takeWhile (\<lambda>c. c \<noteq> CHR '':'') endpoint"

fun contactPublishers :: "string \<Rightarrow> string list \<Rightarrow> 'k \<Rightarrow> 'k master_registration \<Rightarrow> 'k master_registration" where
  "contactPublishers topic [] callback r = r"
| "contactPublishers topic (endpoint # node_uris) callback r =
     contactPublishers topic node_uris callback (r\<lparr>mr_calls := mr_calls r @
       [\<lparr>nc_addr = node_address endpoint, nc_port = endpoint_port endpoint, nc_method = ''requestTopic'',
         nc_request = Topic_Request topic, nc_answer = Handle_Callback callback\<rparr>]\<rparr>)"

definition registerSubscriptionCb ::
  "string \<Rightarrow> string list \<Rightarrow> 'k \<Rightarrow> 'k master_registration \<Rightarrow> 'k master_registration" where
  "registerSubscriptionCb topic publisher_uris callback r = contactPublishers topic publisher_uris callback r"

definition handleCallback :: "string list \<Rightarrow> (string list \<Rightarrow> 's \<Rightarrow> 's res) \<Rightarrow> 's \<Rightarrow> 's res" where
  "handleCallback uris callback s = callback uris s"

text \<open>
  What every call does, on a transport of its own named \<open>j\<close>: whether \<open>connect\<close> succeeded is not
  looked at.
\<close>

definition call_node ::
  "('q \<Rightarrow> byte list) \<Rightarrow> os_connect \<Rightarrow> nat \<Rightarrow> nat \<Rightarrow> string \<Rightarrow> int \<Rightarrow> string \<Rightarrow> 'q
   \<Rightarrow> ('q, 'p) msc \<Rightarrow> ('q, 'p) msc res" where
  "call_node wr os j i addr port meth req w =
     bindR (connect os addr port (view (new_tcp j True 0) w)) (\<lambda>(_, w1). msc_call wr i meth req w1)"

section \<open>Addresses\<close>

text \<open>\<open>TopicManager::myURI\<close>, from the port its services listen on.\<close>

definition node_uri :: "int \<Rightarrow> string" where
  "node_uri port = ''127.0.0.1:'' @ show_int port"

lemma digit_char_value:
  assumes "d < 10"
  shows "CHR ''0'' \<le> digit_char d \<and> digit_char d \<le> CHR ''9'' \<and> int (of_char (digit_char d)) = 48 + int d
    \<and> digit_char d \<noteq> CHR ''-'' \<and> digit_char d \<noteq> CHR ''+''
    \<and> digit_char d \<notin> set [CHR '' '', CHR 0x09, CHR 0x0A, CHR 0x0B, CHR 0x0C, CHR 0x0D]"
proof -
  have "d \<in> {0, 1, 2, 3, 4, 5, 6, 7, 8, 9}" using assms by auto
  then show ?thesis by (elim insertE) (simp_all add: digit_char_def, code_simp+)
qed

lemma digits_value_append:
  "\<forall>c \<in> set s. CHR ''0'' \<le> c \<and> c \<le> CHR ''9'' \<Longrightarrow>
     digits_value acc (s @ cs) = digits_value (digits_value acc s) cs"
  by (induction s arbitrary: acc) auto

lemma show_nat_digits: "c \<in> set (show_nat n) \<Longrightarrow> \<exists>d < 10. c = digit_char d"
proof (induction n rule: show_nat.induct)
  case (1 n)
  show ?case
  proof (cases "n < 10")
    case True
    then show ?thesis using 1(2) by (auto simp: show_nat.simps[of n])
  next
    case False
    then have "c \<in> set (show_nat (n div 10)) \<or> c = digit_char (n mod 10)" using 1(2) by (auto simp: show_nat.simps[of n])
    moreover have "n mod 10 < 10" by simp
    ultimately show ?thesis using 1(1)[OF False] by blast
  qed
qed

lemma show_nat_nonempty: "show_nat n \<noteq> []"
  by (simp add: show_nat.simps[of n])

lemma digits_value_show: "digits_value 0 (show_nat n) = int n"
proof (induction n rule: show_nat.induct)
  case (1 n)
  show ?case
  proof (cases "n < 10")
    case True
    then show ?thesis using digit_char_value[of n] by (simp add: show_nat.simps[of n])
  next
    case False
    have dig: "\<forall>c \<in> set (show_nat (n div 10)). CHR ''0'' \<le> c \<and> c \<le> CHR ''9''"
      using show_nat_digits digit_char_value by blast
    have "digits_value (int (n div 10)) [digit_char (n mod 10)] = 10 * int (n div 10) + int (n mod 10)"
      using digit_char_value[of "n mod 10"] by simp
    also have "\<dots> = int n" by (metis mult_div_mod_eq of_nat_add of_nat_mult of_nat_numeral)
    finally show ?thesis
      using False 1 digits_value_append[OF dig, of 0] by (simp add: show_nat.simps[of n])
  qed
qed

lemma atoi_show_nat: "atoi (show_nat n) = int n"
proof (cases "show_nat n")
  case Nil
  then show ?thesis by (simp add: show_nat_nonempty)
next
  case (Cons c cs)
  then obtain d where d: "d < 10" "c = digit_char d" using show_nat_digits[of c n] by auto
  note v = digit_char_value[OF d(1), folded d(2)]
  have "atoi (c # cs) = digits_value 0 (c # cs)"
    unfolding atoi_def Let_def by (simp only: v dropWhile.simps if_False list.case)
  then show ?thesis using digits_value_show[of n] unfolding Cons by (simp only:)
qed

lemma endpoint_joined:
  assumes "CHR '':'' \<notin> set host" and "0 \<le> port"
  shows "node_address (host @ '':'' @ show_int port) = host" "endpoint_port (host @ '':'' @ show_int port) = port"
proof -
  have "takeWhile (\<lambda>c. c \<noteq> CHR '':'') (host @ CHR '':'' # x) = host"
    "dropWhile (\<lambda>c. c \<noteq> CHR '':'') (host @ CHR '':'' # x) = CHR '':'' # x" for x
    using assms(1) by (induction host) auto
  then show "node_address (host @ '':'' @ show_int port) = host" "endpoint_port (host @ '':'' @ show_int port) = port"
    using assms(2) atoi_show_nat[of "nat port"] by (simp_all add: node_address_def endpoint_port_def show_int_def)
qed

lemma node_uri_parsed:
  assumes "0 \<le> port"
  shows "node_address (node_uri port) = ''127.0.0.1''" "endpoint_port (node_uri port) = port"
  using endpoint_joined[of "''127.0.0.1''" port] assms by (simp_all add: node_uri_def)

section \<open>What is published is found\<close>

text \<open>The question that is put to a publisher.\<close>

definition topic_call :: "string \<Rightarrow> 'k \<Rightarrow> string \<Rightarrow> 'k node_call" where
  "topic_call topic callback uri = \<lparr>nc_addr = node_address uri, nc_port = endpoint_port uri,
     nc_method = ''requestTopic'', nc_request = Topic_Request topic, nc_answer = Handle_Callback callback\<rparr>"

lemma contactPublishers_calls:
  "contactPublishers topic uris callback r = r\<lparr>mr_calls := mr_calls r @ map (topic_call topic callback) uris\<rparr>"
  by (induction uris arbitrary: r) (simp_all add: topic_call_def)

text \<open>The answer of a publisher to \<open>requestTopic\<close>, given to the subscription that waits for it.\<close>

lemma answer_starts_transport:
  assumes sub: "map_of (subscriptions st) topic = Some (i, sn)" and ok: "omap_ok (subscriptions st)"
    and pub: "map_of (publications pt) topic = Some p" and names: "\<forall>t \<in> set (pn_protos p). CHR '':'' \<notin> set (pt_protocol t)"
    and common: "\<exists>t \<in> set (sn_protos sn). st_protocol t \<in> pt_protocol ` set (pn_protos p)"
  shows "\<exists>st' sn' xs t ys tr. handleCallback (requestTopic topic pt) (discovered topic i) st = Inr st'
    \<and> map_of (subscriptions st') topic = Some (i, sn')
    \<and> sn_protos sn = xs @ t # ys \<and> tr \<in> set (pn_protos p) \<and> st_protocol t = pt_protocol tr
    \<and> sn_protos sn' = xs @ st_call (Start (pt_endpoint tr)) (st_call (On_Receive (sn_cb sn)) t) # ys"
proof -
  obtain sn' xs t ys tr where m: "foundPublisher (publication_uris p) sn = Inr sn'" "sn_protos sn = xs @ t # ys"
    "tr \<in> set (pn_protos p)" "st_protocol t = pt_protocol tr"
    "sn_protos sn' = xs @ st_call (Start (pt_endpoint tr)) (st_call (On_Receive (sn_cb sn)) t) # ys"
    using foundPublisher_matches[OF names, of sn] common by auto
  let ?st' = "st\<lparr>subscriptions := oset topic (i, sn') (subscriptions st)\<rparr>"
  have "handleCallback (requestTopic topic pt) (discovered topic i) st = Inr ?st'"
    using m(1) sub pub by (simp add: handleCallback_def requestTopic_def publicationURIs_def discovered_def)
  moreover have "map_of (subscriptions ?st') topic = Some (i, sn')" using sub by (simp add: omap_simps)
  ultimately show ?thesis using m(2-5) by blast
qed

text \<open>
  C7: What is published is found. Let the master hold any registrations, every publisher of the
  topic under the URI its node reports. A node that has a URI of its own asks the master for the
  topic; on the answer it puts \<open>requestTopic\<close> to every publisher of the topic, at the port where
  its services listen, to each once and to nobody else; and whichever publisher answers, if it
  shares a protocol with the subscription, the answer starts one of the subscription's transports
  with an endpoint of that publisher, after installing the callback. The master then knows the
  subscriber.
\<close>

theorem topic_discovered:
  assumes m: "master_inv m" "map_of (heap m) a = None"
    and r: "mr_uri r \<noteq> []" "mr_master r = (host, port)"
    and pubs: "\<forall>u. (u, topic) \<in> pub_rel m \<longrightarrow> (\<exists>q \<ge> 0. u = node_uri q)"
  shows "\<exists>r1 uris m'. mr_registerSubscription topic k r = Inr r1
    \<and> mr_calls r1 = mr_calls r @ [\<lparr>nc_addr = host, nc_port = port, nc_method = ''registerSubscription'',
         nc_request = Reg_Sub_Request topic (mr_uri r), nc_answer = Register_Subscription_Cb k\<rparr>]
    \<and> registerSubscription topic (mr_uri r) a m = Inr (uris, m') \<and> master_inv m'
    \<and> sub_rel m' = insert (mr_uri r, topic) (sub_rel m)
    \<and> (\<exists>calls. mr_calls (registerSubscriptionCb topic uris k r1) = mr_calls r1 @ calls \<and> distinct calls
         \<and> (\<forall>c. c \<in> set calls \<longleftrightarrow> (\<exists>q \<ge> 0. (node_uri q, topic) \<in> pub_rel m \<and>
              c = \<lparr>nc_addr = ''127.0.0.1'', nc_port = q, nc_method = ''requestTopic'',
                   nc_request = Topic_Request topic, nc_answer = Handle_Callback k\<rparr>)))
    \<and> (\<forall>(st :: 'cb tm) (pt :: 'd tm) i sn p. omap_ok (subscriptions st) \<longrightarrow> map_of (subscriptions st) topic = Some (i, sn) \<longrightarrow>
         map_of (publications pt) topic = Some p \<longrightarrow> (\<forall>t \<in> set (pn_protos p). CHR '':'' \<notin> set (pt_protocol t)) \<longrightarrow>
         (\<exists>t \<in> set (sn_protos sn). st_protocol t \<in> pt_protocol ` set (pn_protos p)) \<longrightarrow>
         (\<exists>st' sn' xs t ys tr. handleCallback (requestTopic topic pt) (discovered topic i) st = Inr st'
            \<and> map_of (subscriptions st') topic = Some (i, sn')
            \<and> sn_protos sn = xs @ t # ys \<and> tr \<in> set (pn_protos p) \<and> st_protocol t = pt_protocol tr
            \<and> sn_protos sn' = xs @ st_call (Start (pt_endpoint tr)) (st_call (On_Receive (sn_cb sn)) t) # ys))"
proof -
  let ?r1 = "callMaster ''registerSubscription'' (Reg_Sub_Request topic (mr_uri r)) (Register_Subscription_Cb k) r"
  obtain uris m' where m': "registerSubscription topic (mr_uri r) a m = Inr (uris, m')" "master_inv m'"
    "sub_rel m' = insert (mr_uri r, topic) (sub_rel m)" "set uris = {u. (u, topic) \<in> pub_rel m}" "distinct uris"
    using registerSubscription_result[OF m, of topic "mr_uri r"] by blast
  let ?calls = "map (topic_call topic k) uris"
  have uri: "\<exists>q \<ge> 0. u = node_uri q" if "u \<in> set uris" for u using that m'(4) pubs by simp
  have call: "topic_call topic k (node_uri q) = \<lparr>nc_addr = ''127.0.0.1'', nc_port = q, nc_method = ''requestTopic'',
      nc_request = Topic_Request topic, nc_answer = Handle_Callback k\<rparr>" if "0 \<le> q" for q
    using node_uri_parsed[OF that] by (simp add: topic_call_def)
  have "inj_on (topic_call topic k) (set uris)"
  proof (rule inj_onI)
    fix u v
    assume uv: "u \<in> set uris" "v \<in> set uris" "topic_call topic k u = topic_call topic k v"
    then obtain p q where "0 \<le> p" "0 \<le> q" "u = node_uri p" "v = node_uri q" using uri by meson
    then show "u = v" using uv(3) call by auto
  qed
  then have d: "distinct ?calls" using m'(5) by (simp add: distinct_map)
  have mem: "c \<in> set ?calls \<longleftrightarrow> (\<exists>q \<ge> 0. (node_uri q, topic) \<in> pub_rel m \<and>
      c = \<lparr>nc_addr = ''127.0.0.1'', nc_port = q, nc_method = ''requestTopic'',
           nc_request = Topic_Request topic, nc_answer = Handle_Callback k\<rparr>)" (is "_ = ?R") for c
  proof
    assume "c \<in> set ?calls"
    then obtain u where u: "u \<in> set uris" "c = topic_call topic k u" by auto
    then show ?R using uri[OF u(1)] m'(4) call by auto
  next
    assume ?R
    then show "c \<in> set ?calls" using call m'(4) by force
  qed
  have "mr_registerSubscription topic k r = Inr ?r1" using r(1) by (simp add: mr_registerSubscription_def myURI_def)
  moreover have "mr_calls ?r1 = mr_calls r @ [\<lparr>nc_addr = host, nc_port = port, nc_method = ''registerSubscription'',
      nc_request = Reg_Sub_Request topic (mr_uri r), nc_answer = Register_Subscription_Cb k\<rparr>]"
    by (simp add: callMaster_def r(2))
  moreover have "mr_calls (registerSubscriptionCb topic uris k ?r1) = mr_calls ?r1 @ ?calls"
    by (simp add: registerSubscriptionCb_def contactPublishers_calls)
  ultimately show ?thesis
    by (intro exI[of _ ?r1] exI[of _ uris] exI[of _ m'] conjI m'(1-3) exI[of _ ?calls] d allI mem impI)
      (use answer_starts_transport in blast)+
qed

theorem topic_discovered_witness:
  "\<exists>m r1 uris m'. pub_rel m = {(node_uri 4000, ''chat'')}
    \<and> mr_registerSubscription ''chat'' (5 :: nat) (set_myURI (node_uri 4001) (new_registration (''127.0.0.1'', 11311))) = Inr r1
    \<and> registerSubscription ''chat'' (node_uri 4001) 8 m = Inr (uris, m')
    \<and> set (drop (length (mr_calls r1)) (mr_calls (registerSubscriptionCb ''chat'' uris 5 r1)))
      = {\<lparr>nc_addr = ''127.0.0.1'', nc_port = 4000, nc_method = ''requestTopic'',
          nc_request = Topic_Request ''chat'', nc_answer = Handle_Callback 5\<rparr>}"
proof -
  let ?r = "set_myURI (node_uri 4001) (new_registration (''127.0.0.1'', 11311)) :: nat master_registration"
  let ?c = "\<lambda>q. \<lparr>nc_addr = ''127.0.0.1'', nc_port = q, nc_method = ''requestTopic'',
          nc_request = Topic_Request ''chat'', nc_answer = Handle_Callback (5 :: nat)\<rparr>"
  obtain us m where m0: "master_inv m" "(sub_rel m, pub_rel m) = ({}, {(node_uri 4000, ''chat'')})"
    "\<forall>c. map_of (heap m) c \<noteq> None \<longrightarrow> c = 7"
    using master_handle_refines[OF new_master_ok(1), of "Register_Publication ''chat'' (node_uri 4000) 7"]
    by (auto simp: new_master_ok)
  have free: "map_of (heap m) 8 = None" using m0(3)[rule_format, of 8] by (cases "map_of (heap m) 8") auto
  note m = m0(1) free m0(2)
  have uri: "node_uri q = node_uri 4000 \<Longrightarrow> 0 \<le> q \<Longrightarrow> q = 4000" for q
    using node_uri_parsed(2)[of q] node_uri_parsed(2)[of 4000] by simp
  have r: "mr_uri ?r = node_uri 4001" "mr_uri ?r \<noteq> []" "mr_master ?r = (''127.0.0.1'', 11311)"
    by (simp_all add: set_myURI_def new_registration_def node_uri_def)
  have pubs: "\<forall>u. (u, ''chat'') \<in> pub_rel m \<longrightarrow> (\<exists>q \<ge> 0. u = node_uri q)"
    using m(3) by (auto intro: exI[of _ 4000])
  obtain r1 uris m' calls where d: "mr_registerSubscription ''chat'' 5 ?r = Inr r1"
    "registerSubscription ''chat'' (node_uri 4001) 8 m = Inr (uris, m')"
    "mr_calls (registerSubscriptionCb ''chat'' uris 5 r1) = mr_calls r1 @ calls"
    "\<forall>c. c \<in> set calls \<longleftrightarrow> (\<exists>q \<ge> 0. (node_uri q, ''chat'') \<in> pub_rel m \<and> c = ?c q)"
    using topic_discovered[where k = "5 :: nat" and topic = "''chat''", OF m(1,2) r(2,3) pubs, unfolded r(1)]
    by (elim exE conjE) (rule that)
  have "c \<in> set calls \<longleftrightarrow> c = ?c 4000" for c
    using d(4)[rule_format, of c] m(3) uri by auto
  then have "set calls = {?c 4000}" by blast
  then show ?thesis using d(1-3) m(3) by (intro exI[of _ m] exI[of _ r1] exI[of _ uris] exI[of _ m']) simp
qed

section \<open>A call that cannot be made\<close>

text \<open>
  A call to a node that cannot be reached is lost without a word. When \<open>::connect\<close> is refused
  at once, the call is queued all the same: it stays among the outgoing calls, its transport is
  closed already, so no event ever reaches it again, and the callback is never run; nothing tells
  the caller, and a node whose master is down does not notice.
\<close>

theorem call_lost:
  assumes os: "0 \<le> oc_socket os" "oc_nonblock1 os = 0" "oc_ret os \<noteq> 0" "\<not> oc_in_progress os" "address_found (oc_host os)"
  shows "\<exists>w'. call_node wr os j i addr port meth req w = Inr w'
    \<and> outgoing w' = outgoing w @ [\<lparr>pc_id = i, pc_tcp = j, pc_req = req\<rparr>] \<and> answers w' = answers w
    \<and> foldR (\<lambda>(os, ev). socketUpdate (msc_react rd) os ev) events w' = Inr w'"
proof -
  let ?w = "view (new_tcp j True 0) w"
  define w0 where "w0 = upd_conn (\<lambda>t. t\<lparr>sock := oc_socket os, connected_host := addr, connected_port := port\<rparr>) ?w"
  have s: "oc_socket os \<noteq> INVALID_SOCKET" using os(1) by (simp add: INVALID_SOCKET_def)
  have w0: "conn w0 = (new_tcp j True 0)\<lparr>sock := oc_socket os, connected_host := addr, connected_port := port\<rparr>"
    "tw.more w0 = tw.more w"
    by (simp_all add: w0_def view_def)
  then have sy: "sock (conn w0) = oc_socket os" "\<not> synchronous (conn w0)" by (simp_all add: new_tcp_def synchronous_def)
  obtain v where v: "close w0 = Inr v" "is_closed (conn v)" "\<not> synchronous (conn v)" "self (conn v) = j"
    "filter_num (conn v) = 1" "msg_counter (conn v) = 0" "tw.more v = tw.more w"
    using s w0 by (simp add: close_def Let_def new_tcp_def synchronous_def)
  have "connect os addr port ?w = Inr (False, v)"
    using os s v(1) sy
    by (cases "oc_host os") (simp_all add: connect_def w0_def[symmetric] Let_def setNonBlocking_def try_connect_def address_found_def)
  moreover have "\<exists>u. msc_call wr i meth req v = Inr u \<and> is_closed (conn u) \<and> self (conn u) = j
      \<and> outgoing u = outgoing v @ [\<lparr>pc_id = i, pc_tcp = j, pc_req = req\<rparr>] \<and> answers u = answers v"
    using v by (simp add: msc_call_def enableRead_def enableWrite_def enableMessagePass_def setReadCallback_def
        setWriteCallback_def setMsgCallback_def setDisconnectCallback_def sendFrames_def request_frames_def Let_def
        upd_conn_def synchronous_def)
  ultimately obtain u where u: "call_node wr os j i addr port meth req w = Inr u" "is_closed (conn u)"
    "outgoing u = outgoing v @ [\<lparr>pc_id = i, pc_tcp = j, pc_req = req\<rparr>]" "answers u = answers v"
    by (auto simp: call_node_def)
  have "foldR (\<lambda>(os, ev). socketUpdate (msc_react rd) os ev) es u = Inr u" for es
    by (induction es) (auto simp: socketUpdate_def u(2))
  then show ?thesis using u msc_fields[OF v(7)] by auto
qed

theorem call_lost_witness:
  "\<exists>w'. call_node id \<lparr>oc_socket = 8, oc_nonblock1 = 0, oc_host = Literal_V4, oc_ret = -1, oc_in_progress = False,
      oc_nonblock2 = 0\<rparr> 2 4 ''127.0.0.1'' 11311 ''e'' [9] caller = Inr w'
    \<and> outgoing w' = [\<lparr>pc_id = 4, pc_tcp = 2, pc_req = [9]\<rparr>] \<and> answers w' = []"
  using call_lost[of "\<lparr>oc_socket = 8, oc_nonblock1 = 0, oc_host = Literal_V4, oc_ret = -1, oc_in_progress = False,
      oc_nonblock2 = 0\<rparr>" id 2 4 "''127.0.0.1''" 11311 "''e''" "[9]" caller Some "[]"]
  by (auto simp: address_found_def caller_def)

end
