(* ===== verification/Node_Services.thy ===== *)
theory Node_Services
  imports Registration
begin

text \<open>
  The remote interfaces of the program: the methods that \<open>Master::start\<close>
  (\<open>src/src/master.cpp\<close>) and \<open>TopicManager::init\<close> (\<open>src/src/topic_manager.cpp\<close>) bind, and what a call
  of each of them does over TCP, from the listening socket to the answer. The four requests to the
  master have the same two fields, so one pair of serialization functions stands for all of them.
\<close>

section \<open>Binding the methods\<close>

text \<open>\<open>new\<close> is the allocator: the address of the next \<open>NodeInfo\<close>. \<open>void\<close> is an answer without fields.\<close>

definition master_start ::
  "(byte list \<Rightarrow> (string \<times> string) option) \<Rightarrow> (string list \<Rightarrow> byte list) \<Rightarrow> byte list \<Rightarrow> (master \<Rightarrow> nat)
   \<Rightarrow> os_listen \<Rightarrow> int \<Rightarrow> master msm \<Rightarrow> master msm res" where
  "master_start rd wr void new os port w =
     bindR (ms_init os port w) (\<lambda>w1. Inr
       (ms_bind ''unregisterPublication''
          (service_callback rd (\<lambda>_. void) (\<lambda>(topic, uri) m.
             bindR (master_unregisterPublication topic uri (new m) m) (\<lambda>m'. Inr ((), m'))))
       (ms_bind ''registerPublication''
          (service_callback rd wr (\<lambda>(topic, uri) m.
             bindR (master_registerPublication topic uri (new m) m) (\<lambda>m'. Inr ([], m'))))
       (ms_bind ''unregisterSubscription''
          (service_callback rd (\<lambda>_. void) (\<lambda>(topic, uri) m.
             bindR (master_unregisterSubscription topic uri (new m) m) (\<lambda>m'. Inr ((), m'))))
       (ms_bind ''registerSubscription''
          (service_callback rd wr (\<lambda>(topic, uri) m. registerSubscription topic uri (new m) m)) w1)))))"

definition tm_init ::
  "(byte list \<Rightarrow> string option) \<Rightarrow> (string list \<Rightarrow> byte list) \<Rightarrow> (byte list \<Rightarrow> (string list \<times> string list) option)
   \<Rightarrow> byte list \<Rightarrow> os_listen \<Rightarrow> int \<Rightarrow> 'cb tm msm \<Rightarrow> 'cb tm msm res" where
  "tm_init rdt wrt rds void os port w =
     bindR (ms_init os port w) (\<lambda>w1. Inr
       (ms_bind ''setRemappings''
          (service_callback rds (\<lambda>_. void) (\<lambda>(old, new) t. bindR (setRemappings old new t) (\<lambda>t'. Inr ((), t'))))
       (ms_bind ''requestTopic''
          (service_callback rdt wrt (\<lambda>topic t. Inr (requestTopic topic t, t))) w1)))"

section \<open>A server and its connections\<close>

lemma ms_bind_simps [simp]:
  "conn (ms_bind meth cb w) = conn w" "pset (ms_bind meth cb w) = pset w" "ms_app (ms_bind meth cb w) = ms_app w"
  "ms_connections (ms_bind meth cb w) = ms_connections w"
  "ms_cbs (ms_bind meth cb w) = oput meth cb (ms_cbs w)"
  by (simp_all add: ms_bind_def)

text \<open>A server that is ready to accept, with its methods.\<close>

definition ready :: "int \<Rightarrow> (string, 's service) omap \<Rightarrow> 's \<Rightarrow> 's msm \<Rightarrow> bool" where
  "ready r cbs app w \<longleftrightarrow> is_server (conn w) \<and> has_poll_set (conn w) \<and> \<not> synchronous (conn w)
     \<and> ps_inv r (pset w) \<and> ms_connections w = [] \<and> ms_cbs w = cbs \<and> ms_app w = app"

lemma ms_init_ready:
  assumes "ms_init os port w = Inr w'" and "conn w = new_tcp l True 0" and "ps_inv r (pset w)"
    and "mask (pset w) (ol_socket os) = None" and "ms_connections w = []"
  shows "ready r (ms_cbs w) (ms_app w) w' \<and> server_port (conn w') = int (unat (ol_port os))
    \<and> mask (pset w') = (mask (pset w))(ol_socket os \<mapsto> POLLIN)"
proof -
  have "listen os port Svc_Accept w = Inr (True, w')"
    using assms(1) by (auto simp: ms_init_def ensure_def res_simps split: if_splits)
  from listen_result[OF this assms(2) _ assms(3,4)]
  show ?thesis using ms_fields[of w' w] assms(5) by (simp add: ready_def)
qed

text \<open>A connection that a ready server accepts is served, with the server's methods and object.\<close>

lemma accepted_served:
  assumes rdy: "ready r cbs app w" and os: "mask (pset w) (oa_socket os) = None" "0 \<le> oa_socket os" "oa_nonblock os = 0"
  shows "\<exists>t w1 s. accept os i w = Inr (Some t, w1) \<and> ms_onAccept peer (view t w1) = Inr s
    \<and> served r (oa_socket os) i s \<and> ms_cbs s = cbs \<and> ms_app s = app \<and> \<not> is_closed (conn s) \<and> \<not> reading (conn s)
    \<and> send_msgs (conn s) = [] \<and> filter_num (conn s) = 1 \<and> rcvd s = [] \<and> sent s = []"
proof -
  obtain t w1 where a: "accept os i w = Inr (Some t, w1)" "tw.more w1 = tw.more w" "self t = i" "filter_num t = 1"
    and fr: "Establish.fresh r (oa_socket os) (view t w1)"
    using accept_fresh[of w r os i] rdy os unfolding ready_def by blast
  let ?v = "view t w1"
  let ?a = "armed (Svc_Receive i) (Some Svc_Disconnect) ?v"
  have v: "conn ?v = t" "sent ?v = []" "rcvd ?v = []" "tw.more ?v = tw.more w"
    by (simp_all add: view_def a(2))
  have ns: "\<not> is_server t" using fr by (simp add: fresh_def Let_def usable_def v(1))
  then obtain uri where "getClientURI peer t = Inr uri"
    by (cases peer) (auto simp: getClientURI_def)
  moreover have "self (conn w2) = i" if "enableRead (enableMessagePass ?v) = Inr w2" for w2
    using that fr v(1) a(3) unfolding enableRead_fresh[OF fr] by auto
  ultimately have "serve_conn peer ?v = Inr ?a"
    using setup_armed(1)[OF fr, of Svc_Disconnect "Svc_Receive i"] v(1)
    by (cases "enableRead (enableMessagePass ?v)") (simp_all add: serve_conn_def)
  moreover have m: "tw.more ?a = tw.more w" "self (conn ?a) = i" using v a(3) by (simp_all add: armed_def)
  ultimately have s: "ms_onAccept peer ?v = Inr (?a\<lparr>ms_connections := [i]\<rparr>)"
    using ms_fields[OF m(1)] rdy by (simp add: ms_onAccept_def ready_def)
  have "served r (oa_socket os) i (?a\<lparr>ms_connections := [i]\<rparr>)"
    using armed_live[OF fr, of "Svc_Receive i" "Some Svc_Disconnect"] m fr v(1)
    by (simp add: served_def armed_def fresh_def Let_def)
  then show ?thesis
    using a(1,4) s fr v ms_fields[OF m(1)] rdy
    by (intro exI[of _ t] exI[of _ w1] exI[of _ "?a\<lparr>ms_connections := [i]\<rparr>"]) (simp add: ready_def armed_def fresh_def Let_def)
qed

section \<open>The methods of the master\<close>

fun method_name :: "master_request \<Rightarrow> string" where
  "method_name (Register_Subscription _ _ _) = ''registerSubscription''"
| "method_name (Unregister_Subscription _ _ _) = ''unregisterSubscription''"
| "method_name (Register_Publication _ _ _) = ''registerPublication''"
| "method_name (Unregister_Publication _ _ _) = ''unregisterPublication''"

text \<open>The same method on other fields; how its answer is serialized.\<close>

fun with_fields :: "master_request \<Rightarrow> string \<Rightarrow> string \<Rightarrow> nat \<Rightarrow> master_request" where
  "with_fields (Register_Subscription _ _ _) = Register_Subscription"
| "with_fields (Unregister_Subscription _ _ _) = Unregister_Subscription"
| "with_fields (Register_Publication _ _ _) = Register_Publication"
| "with_fields (Unregister_Publication _ _ _) = Unregister_Publication"

fun answer_bytes :: "(string list \<Rightarrow> byte list) \<Rightarrow> byte list \<Rightarrow> master_request \<Rightarrow> string list \<Rightarrow> byte list" where
  "answer_bytes wr void (Register_Subscription _ _ _) us = wr us"
| "answer_bytes wr void (Register_Publication _ _ _) us = wr us"
| "answer_bytes wr void _ us = void"

lemma with_fields_same: "with_fields req (req_topic req) (req_uri req) (req_addr req) = req"
  by (cases req) simp_all

lemma answer_bytes_fun:
  "answer_bytes wr void (Register_Subscription t u a) = wr" "answer_bytes wr void (Register_Publication t u a) = wr"
  "answer_bytes wr void (Unregister_Subscription t u a) = (\<lambda>_. void)"
  "answer_bytes wr void (Unregister_Publication t u a) = (\<lambda>_. void)"
  by (auto simp: fun_eq_iff)

text \<open>A service whose answer has no fields, seen as one whose answer is an void list.\<close>

lemma service_without_fields:
  "service_callback rd (\<lambda>_. void) (\<lambda>(topic, uri) m. bindR (f topic uri m) (\<lambda>m'. Inr ((), m')))
    = service_callback rd (\<lambda>_. void) (\<lambda>(topic, uri) m. bindR (f topic uri m) (\<lambda>m'. Inr ([] :: string list, m')))"
  by (intro ext) (auto simp: service_callback_def bindR_def split: option.split sum.split)

lemma master_started:
  assumes start: "master_start rd wr void new os port w = Inr s"
    and w: "conn w = new_tcp l True 0" "ps_inv r (pset w)" "mask (pset w) (ol_socket os) = None"
      "ms_connections w = []" "ms_cbs w = []"
  shows "ready r (ms_cbs s) (ms_app w) s \<and> server_port (conn s) = int (unat (ol_port os))
    \<and> mask (pset s) = (mask (pset w))(ol_socket os \<mapsto> POLLIN)
    \<and> map_of (ms_cbs s) (method_name req) = Some (service_callback rd (answer_bytes wr void req)
        (\<lambda>(topic, uri) m. master_handle (with_fields req topic uri (new m)) m))"
proof -
  obtain w1 where w1: "ms_init os port w = Inr w1" using start by (auto simp: master_start_def res_simps)
  note i = ms_init_ready[OF w1 w(1-4)]
  then have "ms_cbs w1 = []" using w(5) by (simp add: ready_def)
  then have "map_of (ms_cbs s) (method_name req) = Some (service_callback rd (answer_bytes wr void req)
      (\<lambda>(topic, uri) m. master_handle (with_fields req topic uri (new m)) m))"
    using start w1 by (cases req) (auto simp: master_start_def service_without_fields omap_simps answer_bytes_fun)
  moreover have "conn s = conn w1" "pset s = pset w1" "ms_connections s = ms_connections w1" "ms_app s = ms_app w1"
    using start w1 by (auto simp: master_start_def)
  ultimately show ?thesis using i by (simp add: ready_def)
qed

text \<open>
  What a client and a server exchange in one call: the client's call \<open>c1\<close>, its writing to \<open>c2\<close>, the
  server's connection \<open>s\<close>, which reads it all and is then \<open>s1\<close>.
\<close>

definition asked ::
  "('q \<Rightarrow> byte list) \<Rightarrow> nat \<Rightarrow> string \<Rightarrow> 'q \<Rightarrow> ('q, 'p) msc \<Rightarrow> ('q, 'p) msc \<Rightarrow> 's msm \<Rightarrow> 's msm \<Rightarrow> bool" where
  "asked wrq i meth q c c2 s s1 \<longleftrightarrow>
     filter_num (conn c) = 1 \<and> sent c = [] \<and> rcvd c = []
     \<and> (\<forall>k \<in> set (outgoing c). pc_id k \<noteq> i \<and> pc_tcp k \<noteq> self (conn c))
     \<and> (\<exists>c1 es. msc_call wrq i meth q c = Inr c1 \<and> send_run c1 es c2 \<and> posted es = [])
     \<and> send_msgs (conn c2) = [] \<and> recv_run s s1 \<and> rcvd s1 = sent c2"

text \<open>
  The answer \<open>p\<close> comes back: over any history of writing and reading that brings all of its bytes,
  the caller gets it once and the call is over.
\<close>

definition comes_back ::
  "(byte list \<Rightarrow> 'p option) \<Rightarrow> nat \<Rightarrow> 'q \<Rightarrow> 'p \<Rightarrow> ('q, 'p) msc \<Rightarrow> ('q, 'p) msc \<Rightarrow> 's msm \<Rightarrow> bool" where
  "comes_back rdp i q p c c2 s2 \<longleftrightarrow>
     (\<forall>es s3 c3. send_run s2 es s3 \<longrightarrow> posted es = [] \<longrightarrow> send_msgs (conn s3) = [] \<longrightarrow>
        recv_run c2 c3 \<longrightarrow> rcvd c3 = sent s3 \<longrightarrow>
        (\<exists>c4. msc_react rdp c3 = Inr c4 \<and> answers c4 = answers c @ [(i, q, p)]
           \<and> outgoing c4 = outgoing c \<and> is_closed (conn c4) \<and> destroy (conn c4) = Inr ()))"

lemma accepted_call:
  assumes codec: "rdq (wrq q) = Some q" "rdp (wrp p) = Some p"
    and size: "length meth < 2 ^ 32" "length (wrq q) < 2 ^ 32" "length (wrp p) < 2 ^ 32"
    and rdy: "ready r cbs app w" "mask (pset w) (oa_socket os) = None" "0 \<le> oa_socket os" "oa_nonblock os = 0"
    and bound: "map_of cbs meth = Some (service_callback rdq wrp h)" "h q app = Inr (p, a)"
  shows "\<exists>t w1 s. accept os j w = Inr (Some t, w1) \<and> ms_onAccept peer (view t w1) = Inr s \<and> served r (oa_socket os) j s
    \<and> (\<forall>c c2 s1. Establish.fresh rc sc c \<longrightarrow> asked wrq i meth q c c2 s s1 \<longrightarrow>
        (\<exists>s2. ms_react s1 = Inr s2 \<and> served r (oa_socket os) j s2 \<and> ms_app s2 = a \<and> comes_back rdp i q p c c2 s2))"
proof -
  obtain t w1 s where s: "accept os j w = Inr (Some t, w1)" "ms_onAccept peer (view t w1) = Inr s"
    "served r (oa_socket os) j s" "ms_cbs s = cbs" "ms_app s = app" "\<not> is_closed (conn s)" "\<not> reading (conn s)"
    "send_msgs (conn s) = []" "filter_num (conn s) = 1" "rcvd s = []" "sent s = []"
    using accepted_served[OF rdy, of j peer] by blast
  have "\<exists>s2. ms_react s1 = Inr s2 \<and> served r (oa_socket os) j s2 \<and> ms_app s2 = a \<and> comes_back rdp i q p c c2 s2"
    if fr: "Establish.fresh rc sc c" and ask: "asked wrq i meth q c c2 s s1" for c c2 s1
  proof -
    obtain c1 es where c: "filter_num (conn c) = 1" "sent c = []" "rcvd c = []"
      "\<forall>k \<in> set (outgoing c). pc_id k \<noteq> i \<and> pc_tcp k \<noteq> self (conn c)"
      "msc_call wrq i meth q c = Inr c1" "send_run c1 es c2" "posted es = []" "send_msgs (conn c2) = []"
      "recv_run s s1" "rcvd s1 = sent c2"
      using ask unfolding asked_def by blast
    show ?thesis unfolding comes_back_def
      by (rule remote_call[where meth = meth and rdq = rdq and wrq = wrq and q = q and rdp = rdp and wrp = wrp and p = p and h = h, OF codec size fr c(1-8) s(3,6-11) _ _ c(9,10)]) (simp_all add: s(4,5) bound)
  qed
  then show ?thesis using s(1-3) by blast
qed

text \<open>A request whose method ends the process, and one that names no method.\<close>

lemma accepted_fails:
  assumes rdy: "ready r cbs app w" "mask (pset w) (oa_socket os) = None" "0 \<le> oa_socket os" "oa_nonblock os = 0"
    and acc: "accept os j w = Inr (Some t, w1)" "ms_onAccept peer (view t w1) = Inr s"
    and fr: "Establish.fresh rc sc c" and ask: "asked wrq i meth q c c2 s s1"
    and size: "length meth < 2 ^ 32" "length (wrq q) < 2 ^ 32"
  shows "map_of cbs meth = Some cb \<Longrightarrow> cb (wrq q) app = Inl e \<Longrightarrow> ms_react s1 = Inl e"
    and "map_of cbs meth = None \<Longrightarrow> ms_react s1 = Inr s1"
proof -
  have s: "served r (oa_socket os) j s" "ms_cbs s = cbs" "ms_app s = app" "\<not> is_closed (conn s)" "\<not> reading (conn s)" "rcvd s = []"
    using accepted_served[OF rdy, of j peer] acc by auto
  obtain fs where fs: "upcalls s1 = upcalls s @ [Received (Svc_Receive j) fs]" "map wire fs = map wire (request_frames wrq meth q)"
    and sf: "ms_cbs s1 = cbs" "ms_app s1 = app"
    using request_arrives[where wrq = wrq and q = q and i = i, OF fr _ _ _ _ _ _ s(1,4,5,6)] ask s(2,3) unfolding asked_def
    by metis
  obtain f g where fg: "fs = [f, g]" using fs(2) by (auto simp: request_frames_def)
  then have "payload f = bytes meth" "payload g = wrq q"
    using fs(2) payload_full[of "bytes meth"] payload_full[of "wrq q"] size
    by (simp_all add: request_frames_def wire_def)
  then have react: "ms_react s1 = (case map_of cbs meth of
      Some cb \<Rightarrow> bindR (cb (wrq q) app) (\<lambda>(resp, a). sendMessage resp (of_nat (length resp)) (s1\<lparr>ms_app := a\<rparr>))
    | None \<Rightarrow> Inr s1)"
    using sf by (cases "map_of cbs meth") (simp_all add: ms_react_def fs(1) fg ms_onReceive_def)
  then show "map_of cbs meth = Some cb \<Longrightarrow> cb (wrq q) app = Inl e \<Longrightarrow> ms_react s1 = Inl e"
    and "map_of cbs meth = None \<Longrightarrow> ms_react s1 = Inr s1"
    by simp_all
qed

section \<open>What is published is found, over the network\<close>

text \<open>
  C6: A call to the master does to its registry what the specification says, and answers with the
  publishers. Start a master with any registrations on a free socket; it accepts the caller's
  connection, on which one of its four methods is called with a topic and a node's URI. Once the
  request has arrived, the master has run exactly that method: the pairs of node and topic it holds
  are those of the specification, and the connection is still served; once the answer has arrived,
  the caller's callback was run once, with the publishers of the topic at that moment if it was
  registerSubscription, and the call is freed. Request and answer travel by the histories \<open>send_run\<close>
  and \<open>recv_run\<close>: any cut of the bytes that no round fails or closes on and that avoids the two
  defects of the code, a size header of an empty frame sent in pieces (\<open>short_empty_header\<close>; the answer
  of the other three methods is an empty frame if the serialization of nothing is) and a frame size
  received in pieces whose first bytes are zero or missing (\<open>short_size\<close>).
\<close>

theorem master_answers:
  assumes start: "master_start rd wr void new ol port w = Inr s0"
    and w: "conn w = new_tcp l True 0" "ps_inv r (pset w)" "mask (pset w) (ol_socket ol) = None"
      "ms_connections w = []" "ms_cbs w = []" "ms_app w = m" "master_inv m" "map_of (heap m) (new m) = None"
    and req: "req_addr req = new m" "q = (req_topic req, req_uri req)"
    and acc: "mask (pset w) (oa_socket oa) = None" "oa_socket oa \<noteq> ol_socket ol" "0 \<le> oa_socket oa" "oa_nonblock oa = 0"
    and codec: "rd (wrq q) = Some q" "length (wrq q) < 2 ^ 32"
      "\<forall>us. set us = spec_answer req (sub_rel m, pub_rel m) \<and> distinct us \<longrightarrow>
         rdp (answer_bytes wr void req us) = Some us \<and> length (answer_bytes wr void req us) < 2 ^ 32"
  shows "\<exists>us m' t w1 s. set us = spec_answer req (sub_rel m, pub_rel m) \<and> distinct us
    \<and> master_inv m' \<and> (sub_rel m', pub_rel m') = spec_handle req (sub_rel m, pub_rel m)
    \<and> accept oa j s0 = Inr (Some t, w1) \<and> ms_onAccept peer (view t w1) = Inr s
    \<and> (\<forall>c c2 s1. Establish.fresh rc sc c \<and> asked wrq i (method_name req) q c c2 s s1 \<longrightarrow>
        (\<exists>s2. ms_react s1 = Inr s2 \<and> served r (oa_socket oa) j s2 \<and> ms_app s2 = m'
           \<and> comes_back rdp i q us c c2 s2))"
proof -
  note st = master_started[OF start w(1-5), of req]
  obtain us m' where h: "master_handle req m = Inr (us, m')" "master_inv m'"
    "(sub_rel m', pub_rel m') = spec_handle req (sub_rel m, pub_rel m)"
    "set us = spec_answer req (sub_rel m, pub_rel m)" "distinct us"
    using master_handle_refines[OF w(7), of req] w(8) req(1) by auto
  have free: "mask (pset s0) (oa_socket oa) = None" using st acc(1,2) by simp
  let ?h = "\<lambda>(topic, uri) m. master_handle (with_fields req topic uri (new m)) m"
  have bound: "map_of (ms_cbs s0) (method_name req) = Some (service_callback rd (answer_bytes wr void req) ?h)"
    using st by blast
  have run: "?h q m = Inr (us, m')"
    using h(1) with_fields_same[of req] req by simp
  have rdy: "ready r (ms_cbs s0) m s0" using st w(6) by simp
  have len: "length (method_name req) < 2 ^ 32" by (cases req) simp_all
  have ans: "rdp (answer_bytes wr void req us) = Some us" "length (answer_bytes wr void req us) < 2 ^ 32"
    using codec(3) h(4,5) by blast+
  obtain t w1 s where "accept oa j s0 = Inr (Some t, w1)" "ms_onAccept peer (view t w1) = Inr s"
    "\<forall>c c2 s1. Establish.fresh rc sc c \<longrightarrow> asked wrq i (method_name req) q c c2 s s1 \<longrightarrow>
        (\<exists>s2. ms_react s1 = Inr s2 \<and> served r (oa_socket oa) j s2 \<and> ms_app s2 = m' \<and> comes_back rdp i q us c c2 s2)"
    using accepted_call[where rdq = rd and wrq = wrq and q = q and rdp = rdp and wrp = "answer_bytes wr void req" and p = us
        and meth = "method_name req" and rc = rc and sc = sc and i = i and peer = peer and j = j
        and h = ?h, OF codec(1) ans(1) len codec(2) ans(2) rdy free acc(3,4) bound run]
    by blast
  then show ?thesis using h(2-5) by (intro exI[of _ us] exI[of _ m'] exI[of _ t] exI[of _ w1] exI[of _ s]) blast
qed

text \<open>An example: a master that knows one publisher, and simple encodings.\<close>

definition server_world :: "'s \<Rightarrow> 's msm" where
  "server_world m = \<lparr>conn = new_tcp 1 True 0, pset = idle_set, sent = [], rcvd = [], closed_fds = [], sockopts = [],
     upcalls = [], ms_connections = [], ms_cbs = [], ms_app = m\<rparr>"

definition wr_pair :: "string \<times> string \<Rightarrow> byte list" where
  "wr_pair q = bytes (fst q) @ 0 # bytes (snd q)"

definition rd_pair :: "byte list \<Rightarrow> (string \<times> string) option" where
  "rd_pair bs = (case dropWhile (\<lambda>b. b \<noteq> 0) bs of
     [] \<Rightarrow> None | _ # rest \<Rightarrow> Some (chars (takeWhile (\<lambda>b. b \<noteq> 0) bs), chars rest))"

definition free_port :: os_listen where
  "free_port = \<lparr>ol_socket = 9, ol_bind = 0, ol_port = 11311, ol_nonblock = 0\<rparr>"

lemma server_world_starts:
  "\<exists>s0. master_start rd wr void new free_port port (server_world m) = Inr s0"
  "\<exists>s0. tm_init rdt wrt rds void free_port port (server_world n) = Inr s0"
  by (simp_all add: master_start_def tm_init_def ms_init_def listen_def Let_def server_world_def free_port_def setReuse_def setsockopt_def
      upd_conn_def initializeSocket_def setNonBlocking_def cache_host_def set_host_def setKeepAlive_def s_use_keepalive_def
      new_tcp_def synchronous_def INVALID_SOCKET_def enableRead_def with_poll_set_def ensure_def)

lemma server_world_ok:
  "conn (server_world a) = new_tcp 1 True 0" "ps_inv 3 (pset (server_world a))"
  "mask (pset (server_world a)) (ol_socket free_port) = None" "ms_connections (server_world a) = []"
  "ms_cbs (server_world a) = []" "ms_app (server_world a) = a"
  "mask (pset (server_world a)) (oa_socket \<lparr>oa_socket = 10, oa_nonblock = 0, oa_peer = None\<rparr>) = None"
  "oa_socket \<lparr>oa_socket = 10, oa_nonblock = 0, oa_peer = None\<rparr> \<noteq> ol_socket free_port"
  "0 \<le> oa_socket \<lparr>oa_socket = 10, oa_nonblock = 0, oa_peer = None\<rparr>"
  "oa_nonblock \<lparr>oa_socket = 10, oa_nonblock = 0, oa_peer = None\<rparr> = 0"
  using idle_set_ok(1) by (simp_all add: server_world_def free_port_def) (simp_all add: mask_def idle_set_def)

text \<open>The whole exchange on that example: a subscriber asks, its request arrives and is read.\<close>

definition asker :: "(string \<times> string, string list) msc" where
  "asker = \<lparr>conn = (new_tcp 1 True 0)\<lparr>sock := 7\<rparr>, pset = idle_set, sent = [], rcvd = [], closed_fds = [],
     sockopts = [], upcalls = [], outgoing = [], answers = []\<rparr>"

definition the_request :: "byte list" where
  "the_request = u32_bytes 2 @ u32_bytes 20 @ bytes ''registerSubscription'' @ u32_bytes 8 @ bytes ''chat'' @ 0 # bytes ''b:2''"

definition the_reply :: "byte list" where
  "the_reply = u32_bytes 1 @ u32_bytes 3 @ bytes ''c:3''"

lemmas ask_defs = step_defs asker_def idle_set_def msc_call_def request_frames_def enableMessagePass_def
  setReadCallback_def setWriteCallback_def setDisconnectCallback_def setMsgCallback_def enableRead_def bytes_def wr_pair_def

lemma asker_asks:
  "\<exists>c1 c2. msc_call wr_pair 4 ''registerSubscription'' (''chat'', ''b:2'') asker = Inr c1
    \<and> send_run c1 [Writable (Send_Accepts 4), Writable (Send_Accepts 4), Writable (Send_Accepts 20),
         Writable (Send_Accepts 4), Writable (Send_Accepts 8)] c2
    \<and> send_msgs (conn c2) = [] \<and> sent c2 = the_request
    \<and> (\<exists>c3. recv_run c2 c3 \<and> rcvd c3 = the_reply)"
  apply (rule exI conjI send_run.writable send_run.finished
        | (simp add: ask_defs short_empty_header_def u32_bytes_def the_request_def; fail))+
   apply (rule recv_run.round[where r = "Recv_Data (bytes ''c:3'')"])
      apply (rule recv_run.round[where r = "Recv_Data [3, 0, 0, 0]"])
         apply (rule recv_run.round[where r = "Recv_Data [1, 0, 0, 0]"])
            apply (rule recv_run.start)
           apply (simp add: read_defs bytes_def short_size_def current_def; fail)+
  apply (simp add: the_reply_def u32_bytes_def bytes_def)
  done

text \<open>The master of the example: one node, which publishes one topic.\<close>

definition chat_master :: master where
  "chat_master = \<lparr>nodes = [(''c:3'', 7)], heap = [(7, \<lparr>ni_uri = ''c:3'', ni_subs = [], ni_pubs = [''chat'']\<rparr>)],
     topics = [(''chat'', \<lparr>ti_subs = [], ti_pubs = [7]\<rparr>)]\<rparr>"

definition chat_master2 :: master where
  "chat_master2 = \<lparr>nodes = [(''b:2'', 8), (''c:3'', 7)],
     heap = [(7, \<lparr>ni_uri = ''c:3'', ni_subs = [], ni_pubs = [''chat'']\<rparr>), (8, \<lparr>ni_uri = ''b:2'', ni_subs = [''chat''], ni_pubs = []\<rparr>)],
     topics = [(''chat'', \<lparr>ti_subs = [8], ti_pubs = [7]\<rparr>)]\<rparr>"

lemma chat_master_made: "master_handle (Register_Publication ''chat'' ''c:3'' 7) new_master = Inr ([], chat_master)"
  by code_simp

lemma chat_master_asked: "registerSubscription ''chat'' ''b:2'' 8 chat_master = Inr ([''c:3''], chat_master2)"
  by code_simp

lemma chat_decoded:
  "rd_pair [0x63, 0x68, 0x61, 0x74, 0, 0x62, 0x3A, 0x32] = Some (''chat'', ''b:2'')"
  "chars [0x72, 0x65, 0x67, 0x69, 0x73, 0x74, 0x65, 0x72, 0x53, 0x75, 0x62, 0x73, 0x63, 0x72, 0x69, 0x70, 0x74, 0x69, 0x6F, 0x6E]
     = ''registerSubscription''"
  by code_simp+


lemmas serve_defs = master_start_def ms_bind_def ms_init_def listen_def server_world_def free_port_def setReuse_def setsockopt_def
  initializeSocket_def setNonBlocking_def cache_host_def set_host_def setKeepAlive_def s_use_keepalive_def
  INVALID_SOCKET_def accept_def setSocket_def addSocket_def signal_def ms_onAccept_def serve_conn_def getClientURI_def view_def

lemma asker_served:
  "\<exists>s0 t w1 s s1. master_start rd_pair (\<lambda>us. concat (map bytes us)) [] (\<lambda>_. 8) free_port 11311 (server_world chat_master) = Inr s0
    \<and> accept \<lparr>oa_socket = 10, oa_nonblock = 0, oa_peer = None\<rparr> 2 s0 = Inr (Some t, w1)
    \<and> ms_onAccept None (view t w1) = Inr s \<and> recv_run s s1 \<and> rcvd s1 = the_request
    \<and> (\<exists>s2. ms_react s1 = Inr s2 \<and> (\<exists>s3. send_run s2 [Writable (Send_Accepts 4), Writable (Send_Accepts 4),
         Writable (Send_Accepts 3)] s3 \<and> send_msgs (conn s3) = [] \<and> sent s3 = the_reply))"
  apply (rule exI conjI)+
   apply (simp add: serve_defs ask_defs ensure_def; fail)
  apply (rule conjI)
   apply (simp add: serve_defs ask_defs ensure_def; fail)
  apply (rule conjI)
   apply (simp add: serve_defs ask_defs ensure_def addEvents_def oset_def; fail)
  apply (rule conjI)
   apply (rule recv_run.round[where r = "Recv_Data (bytes ''chat'' @ 0 # bytes ''b:2'')"])
      apply (rule recv_run.round[where r = "Recv_Data [8, 0, 0, 0]"])
         apply (rule recv_run.round[where r = "Recv_Data (bytes ''registerSubscription'')"])
            apply (rule recv_run.round[where r = "Recv_Data [20, 0, 0, 0]"])
               apply (rule recv_run.round[where r = "Recv_Data [2, 0, 0, 0]"])
                  apply (rule recv_run.start)
                 apply (simp add: read_defs bytes_def short_size_def current_def; fail)+
  apply (rule conjI)
   apply (simp add: the_request_def u32_bytes_def bytes_def; fail)
  apply (rule exI conjI send_run.writable send_run.finished
        | (simp add: ms_react_def ms_onReceive_def payload_def bytes_def chat_decoded service_callback_def
            chat_master_asked sendMessage_def step_defs example_evals short_empty_header_def u32_bytes_def the_reply_def; fail))+
  done

theorem master_answers_witness:
  "\<exists>s0 t w1 s c2 s1 s2 c3 c4. master_start rd_pair (\<lambda>us. concat (map bytes us)) [] (\<lambda>_. 8) free_port 11311 (server_world chat_master) = Inr s0
    \<and> accept \<lparr>oa_socket = 10, oa_nonblock = 0, oa_peer = None\<rparr> 2 s0 = Inr (Some t, w1) \<and> ms_onAccept None (view t w1) = Inr s
    \<and> asked wr_pair 4 ''registerSubscription'' (''chat'', ''b:2'') asker c2 s s1
    \<and> ms_react s1 = Inr s2 \<and> sub_rel (ms_app s2) = {(''b:2'', ''chat'')} \<and> pub_rel (ms_app s2) = {(''c:3'', ''chat'')}
    \<and> msc_react (\<lambda>bs. Some [chars bs]) c3 = Inr c4 \<and> answers c4 = [(4, (''chat'', ''b:2''), [''c:3''])] \<and> is_closed (conn c4)"
proof -
  let ?req = "Register_Subscription ''chat'' ''b:2'' 8" and ?q = "(''chat'', ''b:2'')"
  let ?wr = "\<lambda>us. concat (map bytes us)" and ?rdp = "\<lambda>bs. Some [chars bs]"
  let ?oa = "\<lparr>oa_socket = 10, oa_nonblock = 0, oa_peer = None\<rparr> :: os_accept"
  obtain us0 m1 where m1: "master_handle (Register_Publication ''chat'' ''c:3'' 7) new_master = Inr (us0, m1)" "master_inv m1"
    "(sub_rel m1, pub_rel m1) = ({}, {(''c:3'', ''chat'')})"
    using master_handle_refines[OF new_master_ok(1), of "Register_Publication ''chat'' ''c:3'' 7"]
    by (auto simp: new_master_ok)
  then have m: "master_inv chat_master" "(sub_rel chat_master, pub_rel chat_master) = ({}, {(''c:3'', ''chat'')})"
    using chat_master_made by simp_all
  have free: "map_of (heap chat_master) ((\<lambda>_. 8) chat_master) = None" by (simp add: chat_master_def)
  obtain s0 t w1 s s1 s2' s3 where s: "master_start rd_pair ?wr [] (\<lambda>_. 8) free_port 11311 (server_world chat_master) = Inr s0"
    "accept ?oa 2 s0 = Inr (Some t, w1)" "ms_onAccept None (view t w1) = Inr s" "recv_run s s1" "rcvd s1 = the_request"
    "ms_react s1 = Inr s2'" "send_run s2' [Writable (Send_Accepts 4), Writable (Send_Accepts 4), Writable (Send_Accepts 3)] s3"
    "send_msgs (conn s3) = []" "sent s3 = the_reply"
    using asker_served by (elim exE conjE) (rule that)
  let ?es = "[Writable (Send_Accepts 4), Writable (Send_Accepts 4), Writable (Send_Accepts 20),
         Writable (Send_Accepts 4), Writable (Send_Accepts 8)]"
  obtain c1 c2 c3 where c: "msc_call wr_pair 4 ''registerSubscription'' ?q asker = Inr c1" "send_run c1 ?es c2"
    "send_msgs (conn c2) = []" "sent c2 = the_request" "recv_run c2 c3" "rcvd c3 = the_reply"
    using asker_asks by (elim exE conjE) (rule that)
  have codec: "rd_pair (wr_pair ?q) = Some ?q" "length (wr_pair ?q) < 2 ^ 32"
    by (code_simp, simp add: wr_pair_def bytes_def)
  have ans: "\<forall>us. set us = spec_answer ?req (sub_rel chat_master, pub_rel chat_master) \<and> distinct us \<longrightarrow>
      ?rdp (answer_bytes ?wr [] ?req us) = Some us \<and> length (answer_bytes ?wr [] ?req us) < 2 ^ 32"
  proof (intro allI impI)
    fix us
    assume "set us = spec_answer ?req (sub_rel chat_master, pub_rel chat_master) \<and> distinct us"
    then have "set us = {''c:3''}" "distinct us" using m(2) by auto
    then have "us = [''c:3'']" by (cases us; cases "tl us") auto
    then show "?rdp (answer_bytes ?wr [] ?req us) = Some us \<and> length (answer_bytes ?wr [] ?req us) < 2 ^ 32"
      by (intro conjI) (simp, simp add: bytes_def)
  qed
  have req: "req_addr ?req = (\<lambda>_. 8) chat_master" "?q = (req_topic ?req, req_uri ?req)" by simp_all
  have fr: "Establish.fresh 3 7 asker" by (rule new_fresh[where i = 1]) (simp_all add: asker_def)
  have init: "filter_num (conn asker) = 1" "sent asker = []" "rcvd asker = []" "outgoing asker = []" "answers asker = []"
    by (simp_all add: asker_def new_tcp_def)
  have none: "posted ?es = []" "posted [Writable (Send_Accepts 4), Writable (Send_Accepts 4), Writable (Send_Accepts 3)] = []"
    by simp_all
  have arr: "rcvd s1 = sent c2" "rcvd c3 = sent s3" using s(5,9) c(4,6) by simp_all
  have ask: "asked wr_pair 4 (method_name ?req) ?q asker c2 s s1"
    unfolding asked_def using init c(1-3) none(1) s(4) arr(1) by auto
  from master_answers[where rd = rd_pair and wrq = wr_pair and wr = ?wr and void = "[]" and rdp = ?rdp and new = "\<lambda>_. 8"
        and m = chat_master and q = ?q and req = ?req and oa = ?oa and j = 2 and peer = None and rc = 3 and sc = 7 and i = 4,
      OF s(1) server_world_ok(1-6) m(1) free req server_world_ok(7-10) codec ans]
  obtain us m' t' w1' s' where a: "set us = spec_answer ?req (sub_rel chat_master, pub_rel chat_master)" "distinct us"
    "(sub_rel m', pub_rel m') = spec_handle ?req (sub_rel chat_master, pub_rel chat_master)"
    "accept ?oa 2 s0 = Inr (Some t', w1')" "ms_onAccept None (view t' w1') = Inr s'"
    "\<forall>c c2 s1. Establish.fresh 3 7 c \<and> asked wr_pair 4 (method_name ?req) ?q c c2 s' s1 \<longrightarrow>
        (\<exists>s2. ms_react s1 = Inr s2 \<and> served 3 (oa_socket ?oa) 2 s2 \<and> ms_app s2 = m' \<and> comes_back ?rdp 4 ?q us c c2 s2)"
    by (elim exE conjE) (rule that)
  have same: "s' = s" using a(4,5) s(2,3) by simp
  have "Establish.fresh 3 7 asker \<and> asked wr_pair 4 (method_name ?req) ?q asker c2 s' s1" using fr ask same by simp
  then obtain s2 where s2: "ms_react s1 = Inr s2" "ms_app s2 = m'" "comes_back ?rdp 4 ?q us asker c2 s2"
    using a(6) by blast
  then have eq: "s2' = s2" using s(6) by simp
  obtain c4 where c4: "msc_react ?rdp c3 = Inr c4" "answers c4 = answers asker @ [(4, ?q, us)]" "is_closed (conn c4)"
    using s2(3)[unfolded comes_back_def, rule_format, OF s(7)[unfolded eq] none(2) s(8) c(5) arr(2)] by blast
  have "set us = {''c:3''}" using a(1) m(2) by simp
  then have "us = [''c:3'']" using a(2) by (cases us; cases "tl us") auto
  then have got: "answers c4 = [(4, ?q, [''c:3''])]" using c4(2) init(5) by simp
  have rels: "sub_rel (ms_app s2) = {(''b:2'', ''chat'')}" "pub_rel (ms_app s2) = {(''c:3'', ''chat'')}"
    using a(3) m(2) unfolding s2(2) by simp_all
  show ?thesis
    apply (rule exI[of _ s0], rule exI[of _ t], rule exI[of _ w1], rule exI[of _ s], rule exI[of _ c2], rule exI[of _ s1],
        rule exI[of _ s2], rule exI[of _ c3], rule exI[of _ c4])
    by (intro conjI; fact s(1-3) ask[unfolded method_name.simps] s2(1) rels c4(1,3) got)
qed

section \<open>The methods of a node\<close>

lemma tm_started:
  assumes start: "tm_init rdt wrt rds void os port w = Inr s"
    and w: "conn w = new_tcp l True 0" "ps_inv r (pset w)" "mask (pset w) (ol_socket os) = None"
      "ms_connections w = []" "ms_cbs w = []"
  shows "ready r (ms_cbs s) (ms_app w) s \<and> server_port (conn s) = int (unat (ol_port os))
    \<and> mask (pset s) = (mask (pset w))(ol_socket os \<mapsto> POLLIN)
    \<and> map_of (ms_cbs s) ''requestTopic'' = Some (service_callback rdt wrt (\<lambda>topic t. Inr (requestTopic topic t, t)))
    \<and> map_of (ms_cbs s) ''setRemappings'' = Some (service_callback rds (\<lambda>_. void)
        (\<lambda>(old, new) t. bindR (setRemappings old new t) (\<lambda>t'. Inr ((), t'))))
    \<and> (\<forall>meth. meth \<notin> {''requestTopic'', ''setRemappings''} \<longrightarrow> map_of (ms_cbs s) meth = None)"
proof -
  obtain w1 where w1: "ms_init os port w = Inr w1" using start by (auto simp: tm_init_def res_simps)
  note i = ms_init_ready[OF w1 w(1-4)]
  then have "ms_cbs w1 = []" using w(5) by (simp add: ready_def)
  then show ?thesis using start w1 i by (auto simp: tm_init_def ready_def omap_simps)
qed

text \<open>
  C11: What a node answers, and what a caller can do to it. A node that has started its services
  accepts a connection; a caller asks one of its methods. requestTopic is answered with the URIs of
  the topic's publication and changes nothing. setRemappings installs the rules and renames what is
  there, if that returns; where it aborts (lists of different lengths, or a rule that renames an
  existing publication), the call ends the node: anyone who can connect can do that. A method the
  node does not have is not answered at all, and the connection stays open. The bytes travel by
  \<open>send_run\<close> and \<open>recv_run\<close>, without failing or closing rounds and without the two defects of short headers.
\<close>

theorem node_answers:
  assumes start: "tm_init rdt wrt rds void ol port w = Inr s0"
    and w: "conn w = new_tcp l True 0" "ps_inv r (pset w)" "mask (pset w) (ol_socket ol) = None"
      "ms_connections w = []" "ms_cbs w = []" "ms_app w = n"
    and acc: "mask (pset w) (oa_socket oa) = None" "oa_socket oa \<noteq> ol_socket ol" "0 \<le> oa_socket oa" "oa_nonblock oa = 0"
    and codec: "rdt (wrq topic) = Some topic" "length (wrq topic) < 2 ^ 32" "rdp (wrt (requestTopic topic n)) = Some (requestTopic topic n)"
      "length (wrt (requestTopic topic n)) < 2 ^ 32"
    and codec2: "rds (wrs rules) = Some rules" "length (wrs rules) < 2 ^ 32" "length void < 2 ^ 32"
  shows "\<exists>t w1 s. accept oa j s0 = Inr (Some t, w1) \<and> ms_onAccept peer (view t w1) = Inr s
    \<and> (\<forall>c c2 s1. Establish.fresh rc sc c \<and> asked wrq i ''requestTopic'' topic c c2 s s1 \<longrightarrow>
        (\<exists>s2. ms_react s1 = Inr s2 \<and> served r (oa_socket oa) j s2 \<and> ms_app s2 = n
           \<and> comes_back rdp i topic (requestTopic topic n) c c2 s2))
    \<and> (\<forall>c c2 s1. Establish.fresh rc sc c \<and> asked wrs i ''setRemappings'' rules c c2 s s1 \<longrightarrow>
        (case setRemappings (fst rules) (snd rules) n of
           Inl e \<Rightarrow> ms_react s1 = Inl e
         | Inr n' \<Rightarrow> \<exists>s2. ms_react s1 = Inr s2 \<and> served r (oa_socket oa) j s2 \<and> ms_app s2 = n'
             \<and> comes_back (\<lambda>_. Some ()) i rules () c c2 s2))
    \<and> (\<forall>c c2 s1 meth. Establish.fresh rc sc c \<and> asked wrq i meth topic c c2 s s1
        \<and> meth \<notin> {''requestTopic'', ''setRemappings''} \<and> length meth < 2 ^ 32 \<longrightarrow> ms_react s1 = Inr s1)"
proof -
  note st = tm_started[OF start w(1-5)]
  have free: "mask (pset s0) (oa_socket oa) = None" using st acc(1,2) by simp
  have rdy: "ready r (ms_cbs s0) n s0" using st w(6) by simp
  note rd = rdy free acc(3,4)
  have len: "length ''requestTopic'' < 2 ^ 32" "length ''setRemappings'' < 2 ^ 32" by simp_all
  let ?h = "\<lambda>(old, new) t. bindR (setRemappings old new t) (\<lambda>t'. Inr ((), t'))"
  have b1: "map_of (ms_cbs s0) ''requestTopic'' = Some (service_callback rdt wrt (\<lambda>topic t. Inr (requestTopic topic t, t)))"
    and b2: "map_of (ms_cbs s0) ''setRemappings'' = Some (service_callback rds (\<lambda>_. void) ?h)"
    and b3: "meth \<notin> {''requestTopic'', ''setRemappings''} \<Longrightarrow> map_of (ms_cbs s0) meth = None" for meth
    using st by blast+
  obtain t w1 s where s: "accept oa j s0 = Inr (Some t, w1)" "ms_onAccept peer (view t w1) = Inr s"
    "\<forall>c c2 s1. Establish.fresh rc sc c \<longrightarrow> asked wrq i ''requestTopic'' topic c c2 s s1 \<longrightarrow>
        (\<exists>s2. ms_react s1 = Inr s2 \<and> served r (oa_socket oa) j s2 \<and> ms_app s2 = n
           \<and> comes_back rdp i topic (requestTopic topic n) c c2 s2)"
    using accepted_call[where rdq = rdt and wrq = wrq and q = topic and rdp = rdp and wrp = wrt
        and p = "requestTopic topic n" and rc = rc and sc = sc and i = i and peer = peer and j = j,
        OF codec(1,3) len(1) codec(2,4) rd b1 refl]
    by blast
  have remap: "case setRemappings (fst rules) (snd rules) n of
           Inl e \<Rightarrow> ms_react s1 = Inl e
         | Inr n' \<Rightarrow> \<exists>s2. ms_react s1 = Inr s2 \<and> served r (oa_socket oa) j s2 \<and> ms_app s2 = n'
             \<and> comes_back (\<lambda>_. Some ()) i rules () c c2 s2"
    if ask: "Establish.fresh rc sc c" "asked wrs i ''setRemappings'' rules c c2 s s1" for c c2 s1
  proof (cases "setRemappings (fst rules) (snd rules) n")
    case (Inl e)
    then have "service_callback rds (\<lambda>_. void) ?h (wrs rules) n = Inl e"
      using codec2(1) by (simp add: service_callback_def case_prod_beta)
    then show ?thesis using accepted_fails(1)[OF rd s(1,2) ask len(2) codec2(2) b2] Inl by simp
  next
    case (Inr n')
    then have h: "?h rules n = Inr ((), n')" by (simp add: case_prod_beta)
    have "\<exists>s2. ms_react s1 = Inr s2 \<and> served r (oa_socket oa) j s2 \<and> ms_app s2 = n'
        \<and> comes_back (\<lambda>_. Some ()) i rules () c c2 s2"
      using accepted_call[where rdq = rds and wrq = wrs and q = rules and rdp = "\<lambda>_. Some ()" and wrp = "\<lambda>_. void"
          and p = "()" and rc = rc and sc = sc and i = i and peer = peer and j = j and h = ?h,
          OF codec2(1) refl len(2) codec2(2,3) rd b2 h] s(1,2) ask
      by auto
    then show ?thesis using Inr by simp
  qed
  have none: "ms_react s1 = Inr s1"
    if "Establish.fresh rc sc c" "asked wrq i meth topic c c2 s s1" "meth \<notin> {''requestTopic'', ''setRemappings''}" "length meth < 2 ^ 32"
    for c c2 s1 meth
    by (rule accepted_fails(2)[OF rd s(1,2) that(1,2,4) codec(2) b3[OF that(3)]])
  show ?thesis
    by (rule exI[of _ t], rule exI[of _ w1], rule exI[of _ s], intro conjI s(1,2) allI impI; elim conjE)
      (rule s(3)[rule_format] remap none; assumption)+
qed

theorem node_answers_witness:
  "\<exists>s0 t w1 s. tm_init (\<lambda>bs. Some (chars bs)) (\<lambda>us. concat (map bytes us)) (\<lambda>_. Some ([''/a''], [])) [] free_port 0
       (server_world (new_tm :: nat tm)) = Inr s0
    \<and> accept \<lparr>oa_socket = 10, oa_nonblock = 0, oa_peer = None\<rparr> 2 s0 = Inr (Some t, w1) \<and> ms_onAccept None (view t w1) = Inr s
    \<and> (\<forall>(c :: (string list \<times> string list, unit) msc) c2 s1.
         Establish.fresh 3 7 c \<and> asked (\<lambda>_. [9]) 4 ''setRemappings'' ([''/a''], []) c c2 s s1 \<longrightarrow>
         ms_react s1 = Inl Assert_Failed)"
proof -
  let ?oa = "\<lparr>oa_socket = 10, oa_nonblock = 0, oa_peer = None\<rparr> :: os_accept" and ?n = "new_tm :: nat tm"
  let ?rules = "([''/a''], []) :: string list \<times> string list"
  obtain s0 where s0: "tm_init (\<lambda>bs. Some (chars bs)) (\<lambda>us. concat (map bytes us)) (\<lambda>_. Some ?rules) [] free_port 0
      (server_world ?n) = Inr s0"
    using server_world_starts(2) by blast
  have no: "requestTopic ''/a'' ?n = []" by (simp add: requestTopic_def publicationURIs_def new_tm_def)
  have codec: "Some (chars (bytes ''/a'')) = Some ''/a''" "length (bytes ''/a'') < 2 ^ 32"
    "Some (requestTopic ''/a'' ?n) = Some (requestTopic ''/a'' ?n)"
    "length (concat (map bytes (requestTopic ''/a'' ?n))) < 2 ^ 32" "Some ?rules = Some ?rules"
    "length [9 :: byte] < 2 ^ 32" "length ([] :: byte list) < 2 ^ 32"
    by (simp_all add: no)
  have rm: "setRemappings (fst ?rules) (snd ?rules) ?n = Inl Assert_Failed" by (simp add: setRemappings_def)
  note n = node_answers[where topic = "''/a''" and wrq = bytes and wrs = "\<lambda>_. [9]" and rules = ?rules and n = ?n and oa = ?oa
      and rdp = "\<lambda>_. Some (requestTopic ''/a'' ?n)" and j = 2 and peer = None and rc = 3 and sc = 7 and i = 4,
      OF s0 server_world_ok codec, unfolded rm sum.case]
  then show ?thesis using s0 by blast
qed

end
