(* ===== verification/Topic_Stream.thy ===== *)
theory Topic_Stream
  imports Pubsub_TCP
begin

text \<open>
  A topic from end to end (\<open>src/src/pubsub_tcp.hpp\<close> over \<open>transport_tcp.cpp\<close>): what \<open>publish\<close> is
  given on one side and what the callback of a subscriber gets on the other, with any number of
  subscribers, any interleaving of publishing and writing, and any way the bytes are split.
\<close>

section \<open>The publisher's side\<close>

text \<open>
  A run of a publisher: messages are published, and in between the poll thread writes to one of
  the connections.
\<close>

inductive pub_run ::
  "(byte list \<Rightarrow> byte list) \<Rightarrow> tcp_publish \<Rightarrow> msg list \<Rightarrow> tcp_publish \<Rightarrow> bool" for compress where
  rest: "pub_run compress n [] n"
| publish: "msg_ok m \<Longrightarrow> tp_publish compress m n = Inr n1 \<Longrightarrow> pub_run compress n1 ms n'
    \<Longrightarrow> pub_run compress n (m # ms) n'"
| written: "c \<in> set (tp_connections n) \<Longrightarrow> ev \<noteq> Send_Error
    \<Longrightarrow> \<not> short_empty_header ev (hd (send_msgs (io_conn (the (nd_ios n (cn_tcp c))))))
    \<Longrightarrow> focus (cn_tcp c) (writeMessage ev) n = Inr n1 \<Longrightarrow> pub_run compress n1 ms n'
    \<Longrightarrow> pub_run compress n ms n'"

text \<open>The stream of a connection: what is on the wire, and what is still to be written.\<close>

definition out_stream :: "nat \<Rightarrow> ('cb, 'm) node_scheme \<Rightarrow> byte list" where
  "out_stream i n = (let io = the (nd_ios n i) in io_sent io @ pending (io_conn io))"

definition out_filter :: "nat \<Rightarrow> ('cb, 'm) node_scheme \<Rightarrow> int \<times> int" where
  "out_filter i n = (let t = io_conn (the (nd_ios n i)) in (filter_num t, msg_counter t))"

lemma writeMessage_apart:
  assumes l: "live r s w" "\<not> is_closed (conn w)" and ret: "writeMessage ev w = Inr w'" and ev: "ev \<noteq> Send_Error"
  shows "apart s (pset w) (pset w') \<and> sock (conn w') = s"
proof -
  have "\<forall>m \<in> set (send_msgs (conn w)). wr_ok m" "sock (conn w) = s" using l by (simp_all add: live_def Let_def)
  then show ?thesis
    using writeMessage_effect[OF ret l(2)] ev
    by (auto simp: Let_def apart_def mask_delEvents dest!: switch_result(4))
qed

lemma focus_write:
  assumes u: "up r i n" and ret: "focus i (writeMessage ev) n = Inr n'" and ev: "ev \<noteq> Send_Error"
    and sh: "\<not> short_empty_header ev (hd (send_msgs (io_conn (the (nd_ios n i)))))"
  shows "(\<forall>j. j \<noteq> i \<longrightarrow> nd_ios n' j = nd_ios n j) \<and> node.more n' = node.more n \<and> (\<forall>j. fd_of j n' = fd_of j n)
    \<and> (\<forall>j. up r j n \<longrightarrow> j = i \<or> fd_of j n \<noteq> fd_of i n \<longrightarrow> up r j n')
    \<and> out_stream i n' = out_stream i n \<and> out_filter i n' = out_filter i n"
proof -
  obtain io where io: "nd_ios n i = Some io" "live r (sock (io_conn io)) (view_of io n)" "\<not> is_closed (io_conn io)"
    using u by (auto simp: up_def)
  obtain w where w: "writeMessage ev (view_of io n) = Inr w"
    using ret io(1) by (auto simp: focus_def res_simps)
  have opn: "\<not> is_closed (conn (view_of io n))" using io(3) by simp
  have l: "live r (sock (io_conn io)) w" by (rule writeMessage_live[OF io(2) opn w])
  have ok: "\<forall>m \<in> set (send_msgs (conn (view_of io n))). wr_ok m" using io(2) opn by (simp add: live_def Let_def)
  have st: "write_step_ok True (view_of io n) w" "same_setup (conn (view_of io n)) (conn w)"
    using writeMessage_step[OF ok opn ev w] sh io(1) writeMessage_setup[OF w ok] by simp_all
  have ap: "apart (sock (io_conn io)) (nd_pset n) (pset w)" "sock (conn w) = sock (io_conn io)"
    using writeMessage_apart[OF io(2) opn w ev] by simp_all
  have cl: "\<not> is_closed (conn w)" using st(1) by (auto simp: write_step_ok_def)
  have ps: "ps_inv r (pset w)" using l by (simp add: live_def Let_def)
  obtain n1 where n1: "focus i (writeMessage ev) n = Inr n1" "nd_ios n1 = (nd_ios n)(i \<mapsto> io_of w)"
    "node.more n1 = node.more n" "\<And>j. j \<noteq> i \<Longrightarrow> up r j n \<Longrightarrow> fd_of j n \<noteq> fd_of i n \<Longrightarrow> up r j n1" "up r i n1"
    using focus_result[where f = "writeMessage ev" and io = io and n = n and i = i and w = w and r = r]
      io(1) w l cl ap(1) ps by metis
  have n': "n' = n1" using ret n1(1) by simp
  have "fd_of j n1 = fd_of j n" for j using ap(2) io(1) by (simp add: fd_of_def n1(2))
  moreover have "up r j n1" if "up r j n" "j = i \<or> fd_of j n \<noteq> fd_of i n" for j
    using that n1(4,5) by (cases "j = i") blast+
  moreover have "out_stream i n1 = out_stream i n" "out_filter i n1 = out_filter i n"
    using st io(1) by (auto simp: out_stream_def out_filter_def Let_def n1(2) write_step_ok_def same_setup_def)
  ultimately show ?thesis using n1(2,3) by (simp add: n')
qed

lemma written_inv:
  assumes inv: "pub_inv r n" and c: "c \<in> set (tp_connections n)" and ret: "focus (cn_tcp c) (writeMessage ev) n = Inr n'"
    and ev: "ev \<noteq> Send_Error" "\<not> short_empty_header ev (hd (send_msgs (io_conn (the (nd_ios n (cn_tcp c))))))"
  shows "pub_inv r n' \<and> tp_connections n' = tp_connections n
    \<and> (\<forall>j. out_stream j n' = out_stream j n \<and> out_filter j n' = out_filter j n)"
proof -
  have u: "up r (cn_tcp c) n" using inv c by (simp add: pub_inv_def)
  note w = focus_write[OF u ret ev]
  have cs: "tp_connections n' = tp_connections n" using w tp_fields[of n' n] by simp
  have "up r (cn_tcp d) n'" if "d \<in> set (tp_connections n)" for d
    using w inv c that unfolding pub_inv_def inj_on_def by metis
  then have "pub_inv r n'" using inv w by (simp add: pub_inv_def cs)
  moreover have "out_stream j n' = out_stream j n \<and> out_filter j n' = out_filter j n" for j
    using w by (cases "j = cn_tcp c") (auto simp: out_stream_def out_filter_def)
  ultimately show ?thesis using cs by blast
qed

lemma published_inv:
  assumes inv: "pub_inv r n" and ret: "tp_publish compress m n = Inr n'"
    and ok: "\<forall>c \<in> set (tp_connections n). can_compress c" and m: "msg_ok m"
  shows "pub_inv r n' \<and> tp_connections n' = tp_connections n
    \<and> (\<forall>c \<in> set (tp_connections n). cn_setup c \<longrightarrow> sent_to (msg_frame compress m c) (cn_tcp c) n n')"
proof -
  let ?cs = "tp_connections n"
  obtain n1 where n1: "tp_publish compress m n = Inr n1" "node.more n1 = node.more n" "\<forall>j. fd_of j n1 = fd_of j n"
    "\<forall>j. up r j n \<longrightarrow> (\<forall>c \<in> set ?cs. j = cn_tcp c \<or> fd_of j n \<noteq> fd_of (cn_tcp c) n) \<longrightarrow> up r j n1"
    "\<forall>c \<in> set ?cs. if cn_setup c then sent_to (msg_frame compress m c) (cn_tcp c) n n1
         else nd_ios n1 (cn_tcp c) = nd_ios n (cn_tcp c)"
    using publish_loop[of ?cs r n m compress] inv ok m unfolding pub_inv_def tp_publish_def by blast
  have cs: "tp_connections n1 = ?cs" using tp_fields[OF n1(2)] by simp
  have "up r (cn_tcp c) n1" if "c \<in> set ?cs" for c
    using n1(4) inv that unfolding pub_inv_def inj_on_def by metis
  then have "pub_inv r n1" using inv n1(3) by (simp add: pub_inv_def cs)
  then show ?thesis using n1(1,5) ret cs by auto
qed

lemma pub_run_stream:
  assumes "pub_run compress n ms n'" and "pub_inv r n" and "\<forall>c \<in> set (tp_connections n). can_compress c"
    and c: "c \<in> set (tp_connections n)" "cn_setup c"
  shows "pub_inv r n' \<and> tp_connections n' = tp_connections n
    \<and> out_stream (cn_tcp c) n' = out_stream (cn_tcp c) n
        @ concat (map (\<lambda>m. enc_msg [msg_frame compress m c])
            (decimate (fst (out_filter (cn_tcp c) n)) (snd (out_filter (cn_tcp c) n)) ms))"
  using assms
proof (induction rule: pub_run.induct)
  case (publish m n n1 ms n')
  have p: "pub_inv r n1" "tp_connections n1 = tp_connections n" "sent_to (msg_frame compress m c) (cn_tcp c) n n1"
    using published_inv[OF publish.prems(1) publish.hyps(2) publish.prems(2) publish.hyps(1)] publish.prems by simp_all
  show ?case
    using publish.IH[OF p(1)] publish.prems(2-4) p(2,3)
    by (simp add: sent_to_def out_stream_def out_filter_def Let_def)
next
  case (written d n ev n1 ms n')
  show ?case
    using written_inv[OF written.prems(1) written.hyps(1,4,2,3)] written.IH written.prems by simp
qed simp

lemma pub_run_ok: "pub_run compress n ms n' \<Longrightarrow> \<forall>m \<in> set ms. msg_ok m"
  by (induction rule: pub_run.induct) auto

section \<open>The subscriber's side\<close>

text \<open>A run of a subscriber: rounds of reading, each followed by the reaction of the layer.\<close>

inductive sub_run ::
  "(byte list \<Rightarrow> byte list option) \<Rightarrow> tcp_subscribe \<Rightarrow> tcp_subscribe \<Rightarrow> bool" for uncompress where
  idle: "sub_run uncompress w w"
| reads: "sub_run uncompress w w1 \<Longrightarrow> bindR (readMessage ev w1) (reaction (ts_react uncompress) w1) = Inr w2
    \<Longrightarrow> \<not> is_closed (conn w2) \<Longrightarrow> \<not> short_size ev (current (conn w1)) \<Longrightarrow> sub_run uncompress w w2"

text \<open>What the callback is shown of a message that was received.\<close>

definition shown :: "(byte list \<Rightarrow> byte list option) \<Rightarrow> byte \<Rightarrow> frame list \<Rightarrow> msg list" where
  "shown uncompress z fs =
     (if z = NONE then [fill (payload (fs ! 0)) (new_msg [] (f_size (fs ! 0)))]
      else case uncompress (payload (fs ! 0)) of
             None \<Rightarrow> []
           | Some bs \<Rightarrow> [fill bs (new_msg [] (of_nat (length bs)))])"

lemma ts_receive_shown:
  "ts_receive uncompress fs w = Inr w' \<Longrightarrow>
     w' = w\<lparr>delivered := delivered w @ shown uncompress (compression (ts_opts w)) fs\<rparr>"
  by (auto simp: ts_receive_def ts_deliver_def shown_def Let_def res_simps split: if_splits option.splits)

lemma ts_fields: "tw.more w' = tw.more w \<Longrightarrow> ts_opts w' = ts_opts w \<and> delivered w' = delivered w \<and> ts_cb w' = ts_cb w \<and> ts_tcp w' = ts_tcp w"
  by (cases w; cases w') simp

lemma live_ts [simp]: "live r s (delivered_update f w) = live r s w"
  by (simp add: live_def Let_def in_step_def)

lemma ts_reaction_open:
  assumes l: "live r s w" "\<not> is_closed (conn w)" and cb: "readmsg_cb (conn w) = Some Sub_Receive"
    and v: "readMessage ev w = Inr v" and w': "reaction (ts_react uncompress) w v = Inr w'" "\<not> is_closed (conn w')"
  shows "\<not> is_closed (conn v) \<and> same_view w v
    \<and> (upcalls v = upcalls w \<and> w' = v
       \<or> (\<exists>fs. upcalls v = upcalls w @ [Received Sub_Receive fs] \<and> ts_receive uncompress fs v = Inr w'))"
proof -
  consider "quiet w v" | "shut w v" | "handed w v" using readMessage_io[OF v] by blast
  then show ?thesis
  proof cases
    case 1
    then show ?thesis using w' l(2) by (simp add: quiet_def reaction_def)
  next
    case 2
    then have c: "is_closed (conn v)" by (simp add: shut_def)
    have "close v = Inr v" using c by (simp add: close_def)
    then have "is_closed (conn w')"
      using w'(1) 2 c by (cases "disconnect_cb (conn w)")
        (auto simp: shut_def disconnect_call_def reaction_def ts_react_def ts_onDisconnect_def split: sub_cb.splits)
    then show ?thesis using w'(2) by simp
  next
    case 3
    then obtain fs where fs: "upcalls v = upcalls w @ [Received Sub_Receive fs]" using cb by (auto simp: handed_def)
    then have "ts_receive uncompress fs v = Inr w'" using w'(1) by (simp add: reaction_def ts_react_def)
    then show ?thesis using fs 3 l(2) by (simp add: handed_def)
  qed
qed

lemma sub_run_stream:
  assumes "sub_run uncompress w w'" and "live r s w" and "\<not> is_closed (conn w)"
    and "readmsg_cb (conn w) = Some Sub_Receive"
  shows "live r s w' \<and> \<not> is_closed (conn w') \<and> readmsg_cb (conn w') = Some Sub_Receive \<and> ts_opts w' = ts_opts w
    \<and> (\<exists>got msgs. rcvd w' = rcvd w @ got \<and> (\<forall>fs \<in> set msgs. received_ok fs)
        \<and> rd_data (conn w) @ got = concat (map enc_msg msgs) @ rd_data (conn w')
        \<and> delivered w' = delivered w @ concat (map (shown uncompress (compression (ts_opts w))) msgs))"
  using assms
proof (induction rule: sub_run.induct)
  case (idle w)
  then show ?case by (intro conjI exI[of _ "[]"]) simp_all
next
  case (reads w w1 ev w2)
  then have w1: "live r s w1" "\<not> is_closed (conn w1)" "readmsg_cb (conn w1) = Some Sub_Receive" "ts_opts w1 = ts_opts w"
    by auto
  obtain got msgs where IH: "rcvd w1 = rcvd w @ got" "\<forall>fs \<in> set msgs. received_ok fs"
    "rd_data (conn w) @ got = concat (map enc_msg msgs) @ rd_data (conn w1)"
    "delivered w1 = delivered w @ concat (map (shown uncompress (compression (ts_opts w))) msgs)"
    using reads.IH reads.prems by blast
  obtain v where v: "readMessage ev w1 = Inr v" "reaction (ts_react uncompress) w1 v = Inr w2"
    using reads.hyps(2) by (auto simp: res_simps)
  have lv: "live r s v" by (rule readMessage_live[OF w1(1,2) v(1)])
  note o = ts_reaction_open[OF w1(1-3) v reads.hyps(3)]
  have run: "recv_run w1 v" using recv_run.round[OF recv_run.start v(1) _ reads.hyps(4)] o by simp
  have inv: "rd_inv (conn w1)" using w1 by (simp add: live_def Let_def)
  obtain got' ms where st: "rcvd v = rcvd w1 @ got'" "upcalls v = upcalls w1 @ map (Received Sub_Receive) ms"
    "rd_data (conn w1) @ got' = concat (map enc_msg ms) @ rd_data (conn v)" "\<forall>fs \<in> set ms. received_ok fs"
    "readmsg_cb (conn v) = Some Sub_Receive"
    using recv_run_stream[OF run inv w1(2,3)] by blast
  have keep: "ts_opts v = ts_opts w1" "delivered v = delivered w1"
    using o ts_fields[of v w1] by (simp_all add: same_view_def)
  have "w2 = v\<lparr>delivered := delivered v @ concat (map (shown uncompress (compression (ts_opts w1))) ms)\<rparr>"
    using o
  proof (elim conjE disjE exE)
    assume "upcalls v = upcalls w1" "w2 = v"
    then show ?thesis using st(2) by simp
  next
    fix fs
    assume fs: "upcalls v = upcalls w1 @ [Received Sub_Receive fs]" "ts_receive uncompress fs v = Inr w2"
    then have "ms = [fs]" using st(2) by (auto simp: map_eq_Cons_conv)
    then show ?thesis using ts_receive_shown[OF fs(2)] keep(1) by simp
  qed
  moreover have "rd_data (conn w) @ got @ got' = concat (map enc_msg (msgs @ ms)) @ rd_data (conn v)"
    using IH(3) st(3) by (metis append.assoc concat_append map_append)
  ultimately show ?case
    using w1(4) IH(1,2,4) st(1,4,5) lv keep o reads.hyps(3)
    by (intro conjI exI[of _ "got @ got'"] exI[of _ "msgs @ ms"]) auto
qed

section \<open>From end to end\<close>

lemma fill_new: "length bs = unat sz \<Longrightarrow> fill bs (new_msg [] sz) = \<lparr>m_sz = sz, m_bytes = bs\<rparr>"
  by (simp add: fill_def new_msg_def)

lemma msg_frame_ok: "msg_ok m \<Longrightarrow> frame_ok (msg_frame compress m c)"
  by (simp add: frame_ok_def msg_frame_def Let_def msg_ok_def unat_of_nat)

text \<open>What arrives of a published message is that message.\<close>

lemma shown_frame:
  assumes w: "map wire fs = [wire (msg_frame compress m c)]" and m: "msg_ok m"
    and z: "z = compression (cn_opts c)"
    and codec: "z \<noteq> NONE \<Longrightarrow> uncompress (compress (m_bytes m)) = Some (m_bytes m) \<and> length (compress (m_bytes m)) < 2 ^ 32"
  shows "shown uncompress z fs = [m]"
proof -
  obtain f where f: "fs = [f]" "f_size f = f_size (msg_frame compress m c)" "payload f = payload (msg_frame compress m c)"
    using w by (auto simp: wire_def)
  have e: "\<lparr>m_sz = m_sz m, m_bytes = m_bytes m\<rparr> = m" by (cases m) simp
  have all: "take (unat (m_sz m)) (m_bytes m) = m_bytes m" using m by (simp add: msg_ok_def)
  show ?thesis
  proof (cases "z = NONE")
    case True
    then have "payload f = m_bytes m" "f_size f = m_sz m"
      using f(2,3) z all by (simp_all add: msg_frame_def payload_def)
    then show ?thesis using True m e by (simp add: shown_def f(1) fill_new msg_ok_def)
  next
    case False
    then have "payload f = compress (m_bytes m)"
      using f(3) z all payload_full codec[OF False] False by (simp add: msg_frame_def Let_def)
    moreover have "of_nat (length (m_bytes m)) = m_sz m" using m by (simp add: msg_ok_def)
    ultimately show ?thesis
      using False codec[OF False] m e by (simp add: shown_def f(1) fill_new msg_ok_def)
  qed
qed

lemma shown_all:
  assumes "map (map wire) fss = map (map wire) (map (\<lambda>m. [msg_frame compress m c]) ms)" and "\<forall>m \<in> set ms. msg_ok m"
    and "z = compression (cn_opts c)"
    and "\<forall>m \<in> set ms. z \<noteq> NONE \<longrightarrow> uncompress (compress (m_bytes m)) = Some (m_bytes m) \<and> length (compress (m_bytes m)) < 2 ^ 32"
  shows "concat (map (shown uncompress z) fss) = ms"
  using assms
proof (induction ms arbitrary: fss)
  case (Cons m ms)
  then obtain fs fss' where "fss = fs # fss'" by (cases fss) auto
  then show ?case using Cons.IH[of fss'] Cons.prems shown_frame[of fs compress m c z uncompress] by simp
qed simp

section \<open>From publisher to callback\<close>

lemma stream_delivered:
  assumes run: "pub_run compress n ms n'" "pub_inv r n" "\<forall>c \<in> set (tp_connections n). can_compress c"
    and c: "c \<in> set (tp_connections n)" "cn_setup c" "out_stream (cn_tcp c) n = []" "out_filter (cn_tcp c) n = (k, k - 1)"
    and codec: "\<forall>m \<in> set ms. compression (cn_opts c) \<noteq> NONE \<longrightarrow>
      uncompress (compress (m_bytes m)) = Some (m_bytes m) \<and> length (compress (m_bytes m)) < 2 ^ 32"
    and sub: "sub_run uncompress w w'" "live rs s w" "\<not> is_closed (conn w)" "readmsg_cb (conn w) = Some Sub_Receive"
      "\<not> reading (conn w)" "rcvd w = []" "compression (ts_opts w) = compression (cn_opts c)"
    and wire: "rcvd w' @ in_flight = io_sent (the (nd_ios n' (cn_tcp c)))"
  shows "\<exists>j. delivered w' = delivered w @ take j (nths ms {i. k dvd int i})
    \<and> (in_flight = [] \<and> send_msgs (io_conn (the (nd_ios n' (cn_tcp c)))) = [] \<longrightarrow>
         delivered w' = delivered w @ nths ms {i. k dvd int i})"
proof -
  let ?io = "the (nd_ios n' (cn_tcp c))" and ?ms = "nths ms {i. k dvd int i}" and ?z = "compression (cn_opts c)"
  let ?ps = "map (\<lambda>m. [msg_frame compress m c]) ?ms"
  have "{i. (k - 1 + 1 + int i) mod k = 0} = {i. k dvd int i}" by (simp add: dvd_eq_mod_eq_0)
  then have out: "io_sent ?io @ pending (io_conn ?io) = concat (map enc_msg ?ps)"
    using pub_run_stream[OF run c(1,2)] c(3,4) by (simp add: decimate_nths out_stream_def Let_def comp_def)
  obtain msgs where got: "rcvd w' = concat (map enc_msg msgs) @ rd_data (conn w')" "\<forall>fs \<in> set msgs. received_ok fs"
    "delivered w' = delivered w @ concat (map (shown uncompress ?z) msgs)" "rd_inv (conn w')"
    using sub_run_stream[OF sub(1-4)] sub(5-7) by (auto simp: rd_data_def live_def Let_def)
  have mok: "\<forall>m \<in> set ?ms. msg_ok m" using pub_run_ok[OF run(1)] by (auto dest: in_set_nthsD)
  have ps: "\<forall>p \<in> set ?ps. wire_ok p"
    using mok msg_frame_ok by (auto simp: wire_ok_def)
  have "concat (map enc_msg msgs) @ rd_data (conn w') @ in_flight @ pending (io_conn ?io) = concat (map enc_msg ?ps)"
    using out wire got(1) by (metis append.assoc)
  then obtain as bs where ab: "?ps = as @ bs" "map (map Channel.wire) msgs = map (map Channel.wire) as"
    "in_flight = [] \<and> pending (io_conn ?io) = [] \<longrightarrow> bs = []"
    using stream_split[OF got(4,2) ps] by blast
  define j where "j = length as"
  have as: "as = map (\<lambda>m. [msg_frame compress m c]) (take j ?ms)"
    using arg_cong[OF ab(1), of "take j"] by (simp add: j_def take_map)
  have "concat (map (shown uncompress ?z) msgs) = take j ?ms"
    by (rule shown_all[where compress = compress and c = c])
      (use ab(2) as mok codec in \<open>auto dest: in_set_takeD in_set_nthsD\<close>)
  moreover have "take j ?ms = ?ms" if "in_flight = []" "send_msgs (io_conn ?io) = []"
  proof -
    have "bs = []" using ab(3) that by (simp add: pending_def)
    then show ?thesis using arg_cong[OF ab(1), of length] by (simp add: j_def)
  qed
  ultimately show ?thesis using got(3) by auto
qed

section \<open>An example\<close>

definition one_byte :: msg where
  "one_byte = \<lparr>m_sz = 1, m_bytes = [9]\<rparr>"

definition sub_node :: tcp_subscribe where
  "sub_node = armed Sub_Receive (Some Sub_Disconnect)
     \<lparr>conn = (new_tcp 1 True 0)\<lparr>sock := 7\<rparr>, pset = idle_set, sent = [], rcvd = [], closed_fds = [],
      sockopts = [], upcalls = [], ts_tcp = True, ts_cb = True, ts_opts = plain_opts, delivered = []\<rparr>"

lemma sub_node_live: "live 3 7 sub_node"
  unfolding sub_node_def by (rule armed_live, rule new_fresh[where i = 1]) simp_all

lemma example_replicate: "replicate 2 x = [x, x]"
  by (simp add: numeral_2_eq_2)

lemmas pub_defs = step_defs pub_node_def pub_conn_def idle_set_def armed_def plain_opts_def one_byte_def tp_publish_def
  publish_to_def sendMessage_def focus_def view_of_def io_of_def NONE_def msg_ok_def

lemma example_published:
  "\<exists>n'. pub_run id pub_node [one_byte] n' \<and> io_sent (the (nd_ios n' 1)) = [1, 0, 0, 0, 1, 0, 0, 0, 9]
    \<and> send_msgs (io_conn (the (nd_ios n' 1))) = []"
  apply (rule exI, rule conjI)
   apply (rule pub_run.publish)
     apply (simp add: pub_defs; fail)
    apply (simp add: pub_defs; fail)
   apply (rule pub_run.written[where c = "\<lparr>cn_tcp = 1, cn_setup = True, cn_opts = plain_opts\<rparr>" and ev = "Send_Accepts 4"])
       apply (simp add: pub_defs short_empty_header_def; fail)+
   apply (rule pub_run.written[where c = "\<lparr>cn_tcp = 1, cn_setup = True, cn_opts = plain_opts\<rparr>" and ev = "Send_Accepts 4"])
       apply (simp add: pub_defs short_empty_header_def u32_bytes_def; fail)+
   apply (rule pub_run.written[where c = "\<lparr>cn_tcp = 1, cn_setup = True, cn_opts = plain_opts\<rparr>" and ev = "Send_Accepts 1"])
       apply (simp add: pub_defs short_empty_header_def u32_bytes_def example_replicate; fail)+
   apply (rule pub_run.rest)
  apply (simp add: u32_bytes_def)
  done

lemmas sub_defs = read_defs sub_node_def idle_set_def armed_def plain_opts_def reaction_def ts_react_def ts_receive_def
  ts_deliver_def payload_def NONE_def short_size_def current_def

lemma example_subscribed:
  "\<exists>w'. sub_run Some sub_node w' \<and> rcvd w' = [1, 0, 0, 0, 1, 0, 0, 0, 9]"
  apply (rule exI, rule conjI)
   apply (rule sub_run.reads[where ev = "Recv_Data [9]"])
      apply (rule sub_run.reads[where ev = "Recv_Data [1, 0, 0, 0]"])
         apply (rule sub_run.reads[where ev = "Recv_Data [1, 0, 0, 0]"])
            apply (rule sub_run.idle)
           apply (simp add: sub_defs; fail)+
  done

section \<open>Properties\<close>

text \<open>
  C2: What is published is what a subscriber's callback gets. Take any publisher with any number
  of subscribers that asked for known compressions, any one of them that is set up with filter
  \<open>k\<close>, and any interleaving of publishing and writing; connect the wire to the subscriber's
  transport. Then its callback has been given, in order and byte for byte, the first messages
  published at the positions divisible by \<open>k\<close>; and all of them once nothing is left to write and
  every byte has arrived. For a subscriber that asked for compression the library must uncompress
  what it compressed. No round fails or closes a connection, and the bytes may be cut in any way
  that avoids the two defects of short headers: no write stops inside the size header of an
  empty frame (\<open>short_empty_header\<close>), no read before a frame size is complete while its bytes so
  far are zero or missing (\<open>short_size\<close>).
\<close>

theorem pubsub_delivers:
  assumes run: "pub_run compress n ms n'" "pub_inv r n" "\<forall>c \<in> set (tp_connections n). can_compress c"
    and c: "c \<in> set (tp_connections n)" "cn_setup c" "out_stream (cn_tcp c) n = []" "out_filter (cn_tcp c) n = (k, k - 1)"
    and codec: "\<forall>m \<in> set ms. compression (cn_opts c) \<noteq> NONE \<longrightarrow>
      uncompress (compress (m_bytes m)) = Some (m_bytes m) \<and> length (compress (m_bytes m)) < 2 ^ 32"
    and sub: "sub_run uncompress w w'" "live rs s w" "\<not> is_closed (conn w)" "readmsg_cb (conn w) = Some Sub_Receive"
      "\<not> reading (conn w)" "rcvd w = []" "compression (ts_opts w) = compression (cn_opts c)"
    and wire: "rcvd w' @ in_flight = io_sent (the (nd_ios n' (cn_tcp c)))"
  shows "\<exists>j. delivered w' = delivered w @ take j (nths ms {i. k dvd int i})
    \<and> (in_flight = [] \<and> send_msgs (io_conn (the (nd_ios n' (cn_tcp c)))) = [] \<longrightarrow>
         delivered w' = delivered w @ nths ms {i. k dvd int i})"
  using assms by (rule stream_delivered)

theorem pubsub_delivers_witness:
  "\<exists>n' w'. pub_run id pub_node [one_byte] n' \<and> sub_run Some sub_node w'
    \<and> rcvd w' = io_sent (the (nd_ios n' 1)) \<and> delivered w' = [one_byte]"
proof -
  let ?c = "\<lparr>cn_tcp = 1, cn_setup = True, cn_opts = plain_opts\<rparr>"
  obtain n' where n': "pub_run id pub_node [one_byte] n'" "io_sent (the (nd_ios n' 1)) = [1, 0, 0, 0, 1, 0, 0, 0, 9]"
    "send_msgs (io_conn (the (nd_ios n' 1))) = []" using example_published by blast
  obtain w' where w': "sub_run Some sub_node w'" "rcvd w' = [1, 0, 0, 0, 1, 0, 0, 0, 9]"
    using example_subscribed by blast
  have p: "\<forall>c \<in> set (tp_connections pub_node). can_compress c" "?c \<in> set (tp_connections pub_node)" "cn_setup ?c"
    "out_stream (cn_tcp ?c) pub_node = []" "out_filter (cn_tcp ?c) pub_node = (1, 1 - 1)"
    "\<forall>m \<in> set [one_byte]. compression (cn_opts ?c) \<noteq> NONE \<longrightarrow>
       Some (id (m_bytes m)) = Some (m_bytes m) \<and> length (id (m_bytes m)) < 2 ^ 32"
    by (simp_all add: pub_node_def can_compress_def plain_opts_def out_stream_def out_filter_def pending_def pub_conn_def
        new_tcp_def armed_def)
  have s: "\<not> is_closed (conn sub_node)" "readmsg_cb (conn sub_node) = Some Sub_Receive" "\<not> reading (conn sub_node)"
    "rcvd sub_node = []" "compression (ts_opts sub_node) = compression (cn_opts ?c)" "delivered sub_node = []"
    by (simp_all add: sub_node_def armed_def new_tcp_def plain_opts_def)
  have "rcvd w' @ [] = io_sent (the (nd_ios n' (cn_tcp ?c)))" using n'(2) w'(2) by simp
  from pubsub_delivers[where compress = id and uncompress = Some, OF n'(1) pub_node_inv p w'(1) sub_node_live s(1-5) this]
  have "delivered w' = [one_byte]" using n'(3) s(6) by simp
  moreover have "rcvd w' = io_sent (the (nd_ios n' 1))" using n'(2) w'(2) by (simp only:)
  ultimately show ?thesis using n'(1) w'(1) by blast
qed

end
