(* ===== verification/Subscribing.thy ===== *)
theory Subscribing
  imports Topic_Stream Remote_Call
begin

text \<open>
  How a subscriber joins a publisher (\<open>src/src/pubsub_tcp.hpp\<close>): \<open>TCPSubscribe::start\<close> connects and
  queues its options, \<open>TCPPublish::onAccept\<close> waits for them, \<open>onOptions\<close> sets the connection up;
  from then on the topic flows. The lemmas follow the options over the stream; the theorem goes
  from the first byte of the options to the messages in the subscriber's callback.
\<close>

section \<open>The subscriber's first message\<close>

lemma start_armed:
  assumes "Establish.fresh r s w"
  shows "enableRead (enableMessagePass (setDisconnectCallback d w)) =
      enableRead (setDisconnectCallback d (enableMessagePass w))"
    and "bindR (enableRead (enableMessagePass (setDisconnectCallback d w))) (\<lambda>w1. Inr (setMsgCallback c w1))
      = Inr (armed c (Some d) w)"
proof -
  have e: "enableMessagePass (setDisconnectCallback d w) = setDisconnectCallback d (enableMessagePass w)"
    by (simp add: enableMessagePass_def setDisconnectCallback_def setReadCallback_def setWriteCallback_def upd_conn_def)
  have "Establish.fresh r s (setDisconnectCallback d w)"
    using assms by (simp add: fresh_def Let_def setDisconnectCallback_def upd_conn_def usable_def synchronous_def filter_ok_def)
  then show "bindR (enableRead (enableMessagePass (setDisconnectCallback d w))) (\<lambda>w1. Inr (setMsgCallback c w1))
      = Inr (armed c (Some d) w)"
    by (simp add: enableRead_fresh setMsgCallback_def setDisconnectCallback_def upd_conn_def armed_def)
  show "enableRead (enableMessagePass (setDisconnectCallback d w)) =
      enableRead (setDisconnectCallback d (enableMessagePass w))" by (simp only: e)
qed

definition opts_frame :: "(tcp_options \<Rightarrow> byte list) \<Rightarrow> tcp_options \<Rightarrow> frame" where
  "opts_frame wro opts = \<lparr>f_data = wro opts, f_size = of_nat (length (wro opts))\<rparr>"

lemma ts_start_result:
  assumes start: "ts_start wro os i endpoint w = Inr w1" and ps: "ps_inv r (pset w)"
    and os: "0 \<le> oc_socket os" "mask (pset w) (oc_socket os) = None" and sz: "length (wro (ts_opts w)) < 2 ^ 32"
  shows "live r (oc_socket os) w1 \<and> \<not> is_closed (conn w1) \<and> readmsg_cb (conn w1) = Some Sub_Receive
    \<and> \<not> reading (conn w1) \<and> rcvd w1 = [] \<and> sent w1 = [] \<and> pending (conn w1) = enc_msg [opts_frame wro (ts_opts w)]
    \<and> ts_opts w1 = ts_opts w \<and> delivered w1 = delivered w \<and> ts_cb w1 = ts_cb w"
proof -
  let ?v = "view (new_tcp i True 0) (w\<lparr>ts_tcp := True\<rparr>)"
  obtain u where u: "connect os (endpoint_host endpoint) (endpoint_port endpoint) ?v = Inr (True, u)"
    and w1: "bindR (enableRead (enableMessagePass (setDisconnectCallback Sub_Disconnect u)))
      (\<lambda>w2. sendMessage (wro (ts_opts w2)) (of_nat (length (wro (ts_opts w2)))) (setMsgCallback Sub_Receive w2)) = Inr w1"
    using start by (auto simp: ts_start_def ensure_def res_simps split: if_splits)
  have f: "Establish.fresh r (oc_socket os) u \<and> self (conn u) = i \<and> tw.more u = tw.more ?v \<and> sent u = sent ?v
      \<and> rcvd u = rcvd ?v \<and> upcalls u = upcalls ?v \<and> filter_num (conn u) = 1 \<and> msg_counter (conn u) = 0"
    by (rule connect_fresh[where fl = 0, OF u]) (use ps os in \<open>simp_all add: view_def\<close>)
  then have fr: "Establish.fresh r (oc_socket os) u" by blast
  define a where "a = armed Sub_Receive (Some Sub_Disconnect) u"
  have la: "live r (oc_socket os) a" unfolding a_def by (rule armed_live[OF fr])
  have opn: "\<not> is_closed (conn a)" "send_msgs (conn a) = []" "\<not> reading (conn a)" "filter_num (conn a) = 1"
    using fr f by (simp_all add: a_def fresh_def Let_def)
  have more: "ts_opts a = ts_opts w" "delivered a = delivered w" "ts_cb a = ts_cb w"
    using f ts_fields[of a "w\<lparr>ts_tcp := True\<rparr>"] by (simp_all add: a_def view_def)
  let ?f = "opts_frame wro (ts_opts w)"
  have ok: "sendable [?f]" by (simp add: sendable_def frame_ok_def opts_frame_def unat_of_nat_u32[OF sz])
  obtain z where z: "enableRead (enableMessagePass (setDisconnectCallback Sub_Disconnect u)) = Inr z" "setMsgCallback Sub_Receive z = a"
    using start_armed(2)[OF fr, of Sub_Disconnect Sub_Receive] by (auto simp: a_def res_simps)
  have "tw.more z = tw.more a" unfolding z(2)[symmetric] by (simp add: setMsgCallback_def upd_conn_def)
  then have "ts_opts z = ts_opts w" using ts_fields[of z a] more by simp
  then have b: "sendFrames [?f] a = Inr w1" using w1 z by (simp add: sendMessage_def opts_frame_def)
  have l1: "live r (oc_socket os) w1" using sendFrames_live[OF la ok] b by auto
  have qb: "quiet a w1" using sendFrames_io[OF b] .
  have st: "sent w1 = sent a" "pending (conn w1) = enc_msg [?f]"
    using sendFrames_step[OF b ok] opn by (simp_all add: pending_def)
  have rd: "rcvd w1 = rcvd a" "reading (conn w1) = reading (conn a)"
    using b by (auto simp: sendFrames_def Let_def res_simps dest!: switch_result(3) split: if_splits)
  have "ts_opts w1 = ts_opts a" "delivered w1 = delivered a" "ts_cb w1 = ts_cb a"
    using qb ts_fields[of w1 a] by (simp_all add: quiet_def same_view_def)
  then show ?thesis
    using l1 qb st rd opn more f by (simp add: quiet_def same_view_def a_def view_def)
qed

section \<open>The publisher reads\<close>

text \<open>Reading changes what was received and the message in progress, and nothing else.\<close>

lemma recv_run_effect: "recv_run w w' \<Longrightarrow> \<exists>b m rc up. w' = rd_upd b m rc up w"
proof (induction rule: recv_run.induct)
  case (start w)
  then show ?case by (metis rd_upd_self)
next
  case (round w w1 r w2)
  have "is_closed (conn (set_read_msg m' u))" if "close v = Inr u" for m' and u v :: "('a, 'b) tw_scheme"
    using close_result[OF that] by simp
  then obtain b m rc up where "w2 = rd_upd b m rc up w1"
    using readMessage_effect[OF round.hyps(2)] round.hyps(3) unfolding read_effect_def by blast
  then show ?case using round.IH rd_upd_upd by metis
qed

text \<open>The node after rounds in which one of its connections only read.\<close>

definition node_reads :: "nat \<Rightarrow> ('cb, 'm) node_scheme \<Rightarrow> 'cb tw \<Rightarrow> ('cb, 'm) node_scheme \<Rightarrow> bool" where
  "node_reads i n v n' \<longleftrightarrow> (\<exists>io. nd_ios n i = Some io \<and> recv_run (view_of io n) v
     \<and> n' = n\<lparr>nd_pset := pset v, nd_ios := (nd_ios n)(i \<mapsto> io_of v)\<rparr>)"

lemma node_reads_up:
  assumes u: "up r i n" and rd: "node_reads i n v n'"
  shows "live r (fd_of i n) v \<and> \<not> is_closed (conn v) \<and> nd_ios n' = (nd_ios n)(i \<mapsto> io_of v) \<and> node.more n' = node.more n
    \<and> (\<forall>j. fd_of j n' = fd_of j n) \<and> (\<forall>j. up r j n \<longrightarrow> up r j n')"
proof -
  obtain io where io: "nd_ios n i = Some io" "live r (sock (io_conn io)) (view_of io n)" "\<not> is_closed (io_conn io)"
    using u by (auto simp: up_def)
  have run: "recv_run (view_of io n) v" and n': "n' = n\<lparr>nd_pset := pset v, nd_ios := (nd_ios n)(i \<mapsto> io_of v)\<rparr>"
    using rd io(1) by (auto simp: node_reads_def)
  obtain b m rc cs where "v = rd_upd b m rc cs (view_of io n)" using recv_run_effect[OF run] by blast
  then have v: "pset v = nd_pset n" "sock (conn v) = sock (io_conn io)" by (simp_all add: rd_upd_def)
  have l: "live r (sock (io_conn io)) v" "\<not> is_closed (conn v)"
    using recv_run_keeps[OF run io(2)] io(3) by simp_all
  have ups: "up r j n'" if "up r j n" for j
  proof (cases "j = i")
    case True
    have "view_of (io_of v) n' = v" by (simp add: n')
    moreover have "nd_ios n' i = Some (io_of v)" by (simp add: n')
    ultimately show ?thesis using True l v(2) by (simp add: up_def)
  next
    case False
    then show ?thesis using that by (simp add: up_def n' v(1) view_of_def)
  qed
  have "fd_of j n' = fd_of j n" for j by (simp add: fd_of_def n' v(2) io(1))
  then show ?thesis using l ups io(1) by (simp add: n' fd_of_def)
qed

text \<open>A connection that waits for the options of its subscriber.\<close>

definition awaiting :: "int \<Rightarrow> nat \<Rightarrow> tcp_publish \<Rightarrow> bool" where
  "awaiting r i n \<longleftrightarrow> up r i n \<and> (\<exists>c \<in> set (tp_connections n). cn_tcp c = i \<and> \<not> cn_setup c)
     \<and> (let io = the (nd_ios n i) in readmsg_cb (io_conn io) = Some (Pub_Options i) \<and> \<not> reading (io_conn io)
          \<and> send_msgs (io_conn io) = [] \<and> io_rcvd io = [] \<and> io_sent io = [])"

lemma find_by_key: "distinct (map f cs) \<Longrightarrow> c \<in> set cs \<Longrightarrow> f c = i \<Longrightarrow> find (\<lambda>c. f c = i) cs = Some c"
  by (induction cs) auto

lemma options_arrive:
  assumes inv: "pub_inv r n" and aw: "awaiting r i n" and rd: "node_reads i n v n1"
    and got: "rcvd v = enc_msg [opts_frame wro opts]" and sz: "length (wro opts) < 2 ^ 32"
    and codec: "rdo (wro opts) = Some opts" "0 < sint (opt_filter opts)"
  shows "\<exists>f c n2. upcalls v = io_upcalls (the (nd_ios n i)) @ [Received (Pub_Options i) [f]]
    \<and> tp_onOptions rdo i [f] n1 = Inr n2 \<and> pub_inv r n2 \<and> cn_tcp c = i \<and> cn_setup c \<and> cn_opts c = opts
    \<and> c \<in> set (tp_connections n2) \<and> (\<forall>d \<in> set (tp_connections n2). d = c \<or> d \<in> set (tp_connections n))
    \<and> out_stream i n2 = [] \<and> out_filter i n2 = (sint (opt_filter opts), sint (opt_filter opts) - 1)"
proof -
  let ?fs = "[opts_frame wro opts]"
  obtain io where io: "nd_ios n i = Some io" "live r (sock (io_conn io)) (view_of io n)" "\<not> is_closed (io_conn io)"
    and run: "recv_run (view_of io n) v"
    using aw rd by (auto simp: awaiting_def up_def node_reads_def)
  have wait: "readmsg_cb (io_conn io) = Some (Pub_Options i)" "\<not> reading (io_conn io)" "send_msgs (io_conn io) = []"
    "io_rcvd io = []" "io_sent io = []"
    using aw io(1) by (simp_all add: awaiting_def Let_def)
  have ok: "wire_ok ?fs" by (simp add: wire_ok_def frame_ok_def opts_frame_def unat_of_nat_u32[OF sz])
  obtain fs where fs: "upcalls v = io_upcalls io @ [Received (Pub_Options i) fs]" "map wire fs = map wire ?fs"
    using one_message[OF run io(2) _ _ _ _ ok] io(3) wait got by auto
  obtain f where f: "fs = [f]" "payload f = wro opts"
    using fs(2) payload_full[OF sz] by (auto simp: wire_def opts_frame_def)
  have u: "up r i n" using aw by (simp add: awaiting_def)
  note n1 = node_reads_up[OF u rd]
  have cs: "tp_connections n1 = tp_connections n" using n1 tp_fields[of n1 n] by simp
  have inv1: "pub_inv r n1" using inv n1 by (simp add: pub_inv_def cs)
  obtain c where c: "c \<in> set (tp_connections n)" "cn_tcp c = i" "\<not> cn_setup c" using aw by (auto simp: awaiting_def)
  have "find (\<lambda>c. cn_tcp c = i) (tp_connections n1) = Some c"
    by (rule find_by_key) (use inv c in \<open>simp_all add: pub_inv_def cs\<close>)
  then obtain n2 io1 io2 where n2: "tp_onOptions rdo i [f] n1 = Inr n2" "pub_inv r n2"
    "set (tp_connections n2) = insert (c\<lparr>cn_setup := True, cn_opts := opts\<rparr>) (set (tp_connections n1) - {c})"
    "nd_ios n1 i = Some io1" "nd_ios n2 = (nd_ios n1)(i \<mapsto> io2)"
    "filter_num (io_conn io2) = sint (opt_filter opts)" "msg_counter (io_conn io2) = sint (opt_filter opts) - 1"
    "send_msgs (io_conn io2) = send_msgs (io_conn io1)" "io_sent io2 = io_sent io1"
    using options_negotiated[where r = r and n = n1 and i = i and c = c and rdo = rdo and f = f and opts = opts]
      inv1 c(3) f(2) codec by auto
  have "io1 = io_of v" using n2(4) n1 by simp
  moreover have "send_msgs (conn v) = []" "sent v = []"
    using recv_run_keeps[OF run io(2)] io(3) wait by simp_all
  ultimately have "out_stream i n2 = []" "out_filter i n2 = (sint (opt_filter opts), sint (opt_filter opts) - 1)"
    using n2(5-9) by (simp_all add: out_stream_def out_filter_def Let_def pending_def)
  then show ?thesis
    using fs(1) f(1) io(1) n2(1-3) c(2) cs
    by (intro exI[of _ f] exI[of _ "c\<lparr>cn_setup := True, cn_opts := opts\<rparr>"] exI[of _ n2]) auto
qed

section \<open>The publisher accepts\<close>

text \<open>
  The listening transport accepts connection \<open>i\<close>, as \<open>socketUpdate\<close> does before it calls
  \<open>onAccept\<close>.
\<close>

definition node_accepts :: "os_accept \<Rightarrow> nat \<Rightarrow> tcp_publish \<Rightarrow> tcp_publish \<Rightarrow> bool" where
  "node_accepts os i n n' \<longleftrightarrow> (\<exists>io t v. nd_ios n (tp_server n) = Some io \<and> accept os i (view_of io n) = Inr (Some t, v)
     \<and> n' = n\<lparr>nd_pset := pset v, nd_ios := (nd_ios n)(tp_server n \<mapsto> io_of v, i \<mapsto> io_of (view t v))\<rparr>)"

text \<open>A publisher that listens.\<close>

definition listening :: "int \<Rightarrow> tcp_publish \<Rightarrow> bool" where
  "listening r n \<longleftrightarrow> ps_inv r (nd_pset n) \<and> tp_server n \<notin> cn_tcp ` set (tp_connections n)
     \<and> (\<exists>io. nd_ios n (tp_server n) = Some io \<and> is_server (io_conn io) \<and> has_poll_set (io_conn io)
           \<and> \<not> synchronous (io_conn io))"

lemma up_other_pset:
  assumes "up r j n" and "nd_ios n' j = nd_ios n j" and "ps_inv r (nd_pset n')"
    and "mask (nd_pset n') (fd_of j n) = mask (nd_pset n) (fd_of j n)"
  shows "up r j n'"
proof -
  obtain io where io: "nd_ios n j = Some io" "live r (sock (io_conn io)) (view_of io n)" "\<not> is_closed (io_conn io)"
    using assms(1) by (auto simp: up_def)
  have "live r (sock (io_conn io)) ((view_of io n)\<lparr>pset := nd_pset n'\<rparr>)"
    by (rule live_other_pset[OF io(2)]) (use assms(3,4) io(1) in \<open>simp_all add: fd_of_def\<close>)
  moreover have "(view_of io n)\<lparr>pset := nd_pset n'\<rparr> = view_of io n'" by (simp add: view_of_def)
  ultimately show ?thesis using io assms(2) by (simp add: up_def)
qed

lemma accepted_awaits:
  assumes inv: "pub_inv r n" and lis: "listening r n" and new: "nd_ios n i = None"
    and os: "mask (nd_pset n) (oa_socket os) = None" "0 \<le> oa_socket os" "oa_nonblock os = 0"
  shows "\<exists>n1 n2. node_accepts os i n n1 \<and> tp_onAccept opts0 peer i n1 = Inr n2 \<and> pub_inv r n2 \<and> awaiting r i n2
    \<and> tp_connections n2 = tp_connections n @ [\<lparr>cn_tcp = i, cn_setup = False, cn_opts = opts0\<rparr>]"
proof -
  let ?s = "oa_socket os" and ?c = "\<lparr>cn_tcp = i, cn_setup = False, cn_opts = opts0\<rparr>"
  obtain io where io: "nd_ios n (tp_server n) = Some io" "is_server (io_conn io)" "has_poll_set (io_conn io)"
    "\<not> synchronous (io_conn io)" "ps_inv r (nd_pset n)" "tp_server n \<notin> cn_tcp ` set (tp_connections n)"
    using lis by (auto simp: listening_def)
  obtain t v where a: "accept os i (view_of io n) = Inr (Some t, v)" "self t = i" "filter_num t = 1"
    "\<forall>fd. fd \<noteq> ?s \<longrightarrow> mask (pset v) fd = mask (nd_pset n) fd" and fr: "Establish.fresh r ?s (view t v)"
    using accept_fresh[of "view_of io n" r os i] io os by auto
  let ?v = "view t v"
  have vt: "conn ?v = t" "pset ?v = pset v" "sock t = ?s" "\<not> is_server t" "\<not> is_closed t"
    using fr by (simp_all add: view_def fresh_def Let_def usable_def)
  define n1 where "n1 = n\<lparr>nd_pset := pset v, nd_ios := (nd_ios n)(tp_server n \<mapsto> io_of v, i \<mapsto> io_of ?v)\<rparr>"
  have acc: "node_accepts os i n n1" using io(1) a(1) by (auto simp: node_accepts_def n1_def)
  let ?n1 = "n1\<lparr>tp_connections := tp_connections n1 @ [?c]\<rparr>"
  define a where "a = armed (Pub_Options i) (Some Pub_Disconnect) ?v"
  define n2 where "n2 = ?n1\<lparr>nd_pset := pset a, nd_ios := (nd_ios n1)(i \<mapsto> io_of a)\<rparr>"
  have vw: "view_of (io_of ?v) ?n1 = ?v" by (simp add: n1_def view_of_def io_of_def view_def)
  obtain uri where uri: "getClientURI peer t = Inr uri" using vt(4) by (cases peer) (auto simp: getClientURI_def)
  have "bindR (enableRead (setDisconnectCallback Pub_Disconnect (enableMessagePass ?v)))
      (\<lambda>w1. Inr (setMsgCallback (Pub_Options i) w1)) = Inr a"
    unfolding a_def using start_armed(1)[OF fr, of Pub_Disconnect] start_armed(2)[OF fr, of Pub_Disconnect "Pub_Options i"] by simp
  then have on: "tp_onAccept opts0 peer i n1 = Inr n2"
    using uri vt(1) vw by (simp add: tp_onAccept_def focus_def n1_def n2_def)
  have cs: "tp_connections n2 = tp_connections n @ [?c]" by (simp add: n2_def n1_def)
  have la: "live r ?s a" unfolding a_def by (rule armed_live[OF fr])
  have af: "sock (conn a) = ?s" "\<not> is_closed (conn a)" "pset a = snd (addEvents ?s POLLIN (pset v))"
    "readmsg_cb (conn a) = Some (Pub_Options i)" "\<not> reading (conn a)" "send_msgs (conn a) = []" "rcvd a = []" "sent a = []"
    using fr vt(1-3,5) by (simp_all add: a_def fresh_def Let_def) (simp_all add: armed_def view_def)
  have n2: "nd_ios n2 i = Some (io_of a)" "nd_pset n2 = pset a" by (simp_all add: n2_def)
  have va: "view_of (io_of a) n2 = a" by (simp add: n2_def view_of_def io_of_def)
  have "live r (sock (io_conn (io_of a))) (view_of (io_of a) n2)" by (simp only: va view_simps' af(1) la)
  then have ui: "up r i n2" using n2(1) af(2) by (simp add: up_def)
  have fd: "mask (nd_pset n) (fd_of (cn_tcp c) n) \<noteq> None" if "c \<in> set (tp_connections n)" for c
    using inv that by (auto simp: pub_inv_def up_def fd_of_def live_def Let_def in_step_def)
  have ids: "cn_tcp c \<noteq> i" "cn_tcp c \<noteq> tp_server n" if "c \<in> set (tp_connections n)" for c
    using inv that new by (auto simp: pub_inv_def up_def) (use io(6) that in \<open>metis imageI\<close>)
  have same: "nd_ios n2 (cn_tcp c) = nd_ios n (cn_tcp c)" if "c \<in> set (tp_connections n)" for c
    using ids[OF that] by (simp add: n2_def n1_def)
  have msk: "mask (nd_pset n2) fd = mask (nd_pset n) fd" if "fd \<noteq> ?s" for fd
    using that a(4) by (simp add: n2 af pr.mk_add)
  have ps2: "ps_inv r (nd_pset n2)" using la by (simp add: n2 live_def Let_def)
  have ups: "up r (cn_tcp c) n2" if "c \<in> set (tp_connections n)" for c
  proof (rule up_other_pset[OF _ same[OF that] ps2 msk])
    show "up r (cn_tcp c) n" using inv that by (simp add: pub_inv_def)
    show "fd_of (cn_tcp c) n \<noteq> ?s" using fd[OF that] os(1) by metis
  qed
  have fds: "fd_of (cn_tcp c) n2 = fd_of (cn_tcp c) n" if "c \<in> set (tp_connections n)" for c
    using same[OF that] by (simp add: fd_of_def)
  have fdi: "fd_of i n2 = ?s" by (simp add: fd_of_def n2 af)
  have "inj_on (\<lambda>c. fd_of (cn_tcp c) n) (set (tp_connections n))" using inv by (simp add: pub_inv_def)
  then have "inj_on (\<lambda>c. fd_of (cn_tcp c) n2) (set (tp_connections n))" using fds by (simp cong: inj_on_cong)
  moreover have "fd_of (cn_tcp d) n2 \<noteq> fd_of i n2" if "d \<in> set (tp_connections n)" for d
    using fds[OF that] fd[OF that] os(1) fdi by metis
  ultimately have "inj_on (\<lambda>c. fd_of (cn_tcp c) n2) (set (tp_connections n2))"
    by (auto simp: cs dest: sym)
  moreover have "distinct (map cn_tcp (tp_connections n2))" using inv ids by (auto simp: pub_inv_def cs)
  ultimately have "pub_inv r n2" using ups ui by (auto simp: pub_inv_def cs)
  moreover have "awaiting r i n2"
    using ui af by (simp add: awaiting_def cs n2 Let_def)
  ultimately show ?thesis using acc on cs by blast
qed

section \<open>From subscribing to receiving\<close>

lemma joined_stream:
  assumes inv: "pub_inv r n" "awaiting r j n" "\<forall>c \<in> set (tp_connections n). can_compress c"
    and sub: "live rs s w2" "\<not> is_closed (conn w2)" "readmsg_cb (conn w2) = Some Sub_Receive" "\<not> reading (conn w2)"
      "rcvd w2 = []" "ts_opts w2 = opts" "sent w2 = enc_msg [opts_frame wro opts]"
    and codec: "rdo (wro opts) = Some opts" "length (wro opts) < 2 ^ 32"
    and opts: "0 < sint (opt_filter opts)" "compression opts \<in> {NONE, SNAPPY}"
    and rd: "node_reads j n v n1" "rcvd v = sent w2"
  shows "\<exists>f n2. last (upcalls v) = Received (Pub_Options j) [f] \<and> tp_onOptions rdo j [f] n1 = Inr n2
    \<and> (\<forall>compress uncompress ms n3 w3 in_flight.
         pub_run compress n2 ms n3 \<longrightarrow> sub_run uncompress w2 w3 \<longrightarrow> rcvd w3 @ in_flight = io_sent (the (nd_ios n3 j)) \<longrightarrow>
         (\<forall>m \<in> set ms. compression opts \<noteq> NONE \<longrightarrow>
            uncompress (compress (m_bytes m)) = Some (m_bytes m) \<and> length (compress (m_bytes m)) < 2 ^ 32) \<longrightarrow>
         (\<exists>l. delivered w3 = delivered w2 @ take l (nths ms {i. sint (opt_filter opts) dvd int i})
            \<and> (in_flight = [] \<and> send_msgs (io_conn (the (nd_ios n3 j))) = [] \<longrightarrow>
                 delivered w3 = delivered w2 @ nths ms {i. sint (opt_filter opts) dvd int i})))"
proof -
  obtain f c n2 where o: "upcalls v = io_upcalls (the (nd_ios n j)) @ [Received (Pub_Options j) [f]]"
    "tp_onOptions rdo j [f] n1 = Inr n2" "pub_inv r n2" "cn_tcp c = j" "cn_setup c" "cn_opts c = opts"
    "c \<in> set (tp_connections n2)" "\<forall>d \<in> set (tp_connections n2). d = c \<or> d \<in> set (tp_connections n)"
    "out_stream j n2 = []" "out_filter j n2 = (sint (opt_filter opts), sint (opt_filter opts) - 1)"
    using options_arrive[where rdo = rdo and opts = opts and wro = wro, OF inv(1,2) rd(1) _ codec(2,1) opts(1)] rd(2) sub(7) by auto
  have can: "\<forall>d \<in> set (tp_connections n2). can_compress d"
    using o(5,6,8) inv(3) opts(2) by (auto simp: can_compress_def)
  have ostr: "out_stream (cn_tcp c) n2 = []" "out_filter (cn_tcp c) n2 = (sint (opt_filter opts), sint (opt_filter opts) - 1)"
    using o(4,9,10) by simp_all
  have cmp: "compression (ts_opts w2) = compression (cn_opts c)" using sub(6) o(6) by simp
  have "\<exists>l. delivered w3 = delivered w2 @ take l (nths ms {i. sint (opt_filter opts) dvd int i})
      \<and> (in_flight = [] \<and> send_msgs (io_conn (the (nd_ios n3 j))) = [] \<longrightarrow>
           delivered w3 = delivered w2 @ nths ms {i. sint (opt_filter opts) dvd int i})"
    if run: "pub_run compress n2 ms n3" "sub_run uncompress w2 w3" "rcvd w3 @ in_flight = io_sent (the (nd_ios n3 j))"
      "\<forall>m \<in> set ms. compression opts \<noteq> NONE \<longrightarrow>
         uncompress (compress (m_bytes m)) = Some (m_bytes m) \<and> length (compress (m_bytes m)) < 2 ^ 32"
    for compress uncompress ms n3 w3 in_flight
    using stream_delivered[OF run(1) o(3) can o(7,5) ostr _ run(2) sub(1-5) cmp, of in_flight] run(3,4) o(4,6) by simp
  then show ?thesis using o(1-3) by (intro exI[of _ f] exI[of _ n2]) simp
qed

text \<open>
  C1: Subscribing works, from the first byte to the callback. A publisher listens and serves any
  number of subscribers; a new one connects and sends its options (any positive filter \<open>k\<close>, a
  compression the program knows). The publisher accepts and waits; once the options have arrived,
  \<open>onOptions\<close> sets the connection up without aborting. From then on, under any interleaving of
  publishing and writing, the subscriber's callback gets the messages published at the positions
  divisible by \<open>k\<close>, in order and byte for byte: the first of them at any moment, all of them once
  nothing is under way. In both directions no round fails or closes the connection, and the bytes
  may be cut in any way that avoids the two defects of short headers (\<open>short_empty_header\<close>,
  \<open>short_size\<close>).
\<close>

theorem subscribing_works:
  assumes pub: "pub_inv r n" "listening r n" "nd_ios n j = None" "\<forall>c \<in> set (tp_connections n). can_compress c"
    and oa: "mask (nd_pset n) (oa_socket oa) = None" "0 \<le> oa_socket oa" "oa_nonblock oa = 0"
    and sub: "ts_start wro oc i endpoint w = Inr w1" "ps_inv rs (pset w)" "0 \<le> oc_socket oc" "mask (pset w) (oc_socket oc) = None"
    and codec: "rdo (wro (ts_opts w)) = Some (ts_opts w)" "length (wro (ts_opts w)) < 2 ^ 32"
    and opts: "0 < sint (opt_filter (ts_opts w))" "compression (ts_opts w) \<in> {NONE, SNAPPY}"
    and sends: "send_run w1 es w2" "posted es = []" "send_msgs (conn w2) = []"
  shows "\<exists>n1 n2. node_accepts oa j n n1 \<and> tp_onAccept opts0 peer j n1 = Inr n2
    \<and> (\<forall>v n3. node_reads j n2 v n3 \<longrightarrow> rcvd v = sent w2 \<longrightarrow>
        (\<exists>f n4. last (upcalls v) = Received (Pub_Options j) [f] \<and> tp_onOptions rdo j [f] n3 = Inr n4
          \<and> (\<forall>compress uncompress ms n5 w3 in_flight.
               pub_run compress n4 ms n5 \<longrightarrow> sub_run uncompress w2 w3 \<longrightarrow>
               rcvd w3 @ in_flight = io_sent (the (nd_ios n5 j)) \<longrightarrow>
               (\<forall>m \<in> set ms. compression (ts_opts w) \<noteq> NONE \<longrightarrow>
                  uncompress (compress (m_bytes m)) = Some (m_bytes m) \<and> length (compress (m_bytes m)) < 2 ^ 32) \<longrightarrow>
               (\<exists>l. delivered w3 = delivered w @ take l (nths ms {i. sint (opt_filter (ts_opts w)) dvd int i})
                  \<and> (in_flight = [] \<and> send_msgs (io_conn (the (nd_ios n5 j))) = [] \<longrightarrow>
                       delivered w3 = delivered w @ nths ms {i. sint (opt_filter (ts_opts w)) dvd int i})))))"
proof -
  let ?c = "\<lparr>cn_tcp = j, cn_setup = False, cn_opts = opts0\<rparr>"
  obtain n1 n2 where n2: "node_accepts oa j n n1" "tp_onAccept opts0 peer j n1 = Inr n2" "pub_inv r n2" "awaiting r j n2"
    "tp_connections n2 = tp_connections n @ [?c]"
    using accepted_awaits[OF pub(1-3) oa, of opts0 peer] by blast
  have can: "\<forall>c \<in> set (tp_connections n2). can_compress c" using pub(4) n2(5) by (simp add: can_compress_def)
  have w1: "live rs (oc_socket oc) w1" "\<not> is_closed (conn w1)" "readmsg_cb (conn w1) = Some Sub_Receive" "\<not> reading (conn w1)"
    "rcvd w1 = []" "sent w1 = []" "pending (conn w1) = enc_msg [opts_frame wro (ts_opts w)]" "ts_opts w1 = ts_opts w"
    "delivered w1 = delivered w"
    using ts_start_result[OF sub codec(2)] by blast+
  have k: "live rs (oc_socket oc) w2" "quiet w1 w2" "rcvd w2 = []" "\<not> reading (conn w2)"
    using send_run_live[OF sends(1) w1(1,2)] w1 by simp_all
  have w2: "\<not> is_closed (conn w2)" "readmsg_cb (conn w2) = Some Sub_Receive" "ts_opts w2 = ts_opts w" "delivered w2 = delivered w"
    using k(2) w1 ts_fields[of w2 w1] by (simp_all add: quiet_def same_view_def)
  have st: "sent w2 = enc_msg [opts_frame wro (ts_opts w)]"
    using sent_one[OF sends(1) w1(1,2) sends(2,3)] w1(6,7) by simp
  show ?thesis
  proof (rule exI[of _ n1], rule exI[of _ n2], intro conjI n2(1,2) allI impI)
    fix v n3
    assume rd: "node_reads j n2 v n3" "rcvd v = sent w2"
    show "\<exists>f n4. last (upcalls v) = Received (Pub_Options j) [f] \<and> tp_onOptions rdo j [f] n3 = Inr n4
          \<and> (\<forall>compress uncompress ms n5 w3 in_flight.
               pub_run compress n4 ms n5 \<longrightarrow> sub_run uncompress w2 w3 \<longrightarrow>
               rcvd w3 @ in_flight = io_sent (the (nd_ios n5 j)) \<longrightarrow>
               (\<forall>m \<in> set ms. compression (ts_opts w) \<noteq> NONE \<longrightarrow>
                  uncompress (compress (m_bytes m)) = Some (m_bytes m) \<and> length (compress (m_bytes m)) < 2 ^ 32) \<longrightarrow>
               (\<exists>l. delivered w3 = delivered w @ take l (nths ms {i. sint (opt_filter (ts_opts w)) dvd int i})
                  \<and> (in_flight = [] \<and> send_msgs (io_conn (the (nd_ios n5 j))) = [] \<longrightarrow>
                       delivered w3 = delivered w @ nths ms {i. sint (opt_filter (ts_opts w)) dvd int i})))"
      using joined_stream[where rdo = rdo and wro = wro and opts = "ts_opts w", OF n2(3,4) can k(1) w2(1,2) k(4,3) w2(3) st codec opts rd] unfolding w2(4) .
  qed
qed

text \<open>An example: a publisher without subscribers, and a subscriber that wants every third message.\<close>

definition pub_server :: tcp_publish where
  "pub_server = \<lparr>nd_pset = idle_set,
     nd_ios = [0 \<mapsto> io_of \<lparr>conn = (new_tcp 0 True 0)\<lparr>is_server := True, sock := 8\<rparr>, pset = idle_set, sent = [], rcvd = [],
       closed_fds = [], sockopts = [], upcalls = []\<rparr>],
     tp_server = 0, tp_connections = []\<rparr>"

definition third_opts :: tcp_options where
  "third_opts = \<lparr>tcp_nodelay = True, compression = NONE, opt_filter = 3\<rparr>"

definition joining :: tcp_subscribe where
  "joining = \<lparr>conn = new_tcp 1 True 0, pset = idle_set, sent = [], rcvd = [], closed_fds = [], sockopts = [], upcalls = [],
     ts_tcp = False, ts_cb = True, ts_opts = third_opts, delivered = []\<rparr>"

definition under_way :: os_connect where
  "under_way = \<lparr>oc_socket = 9, oc_nonblock1 = 0, oc_host = Literal_V4, oc_ret = -1, oc_in_progress = True, oc_nonblock2 = 0\<rparr>"

lemmas joining_defs = ts_start_def connect_def under_way_def joining_def view_def setNonBlocking_def try_connect_def
  address_found_def initializeSocket_def cache_host_def set_host_def setKeepAlive_def s_use_keepalive_def setsockopt_def
  INVALID_SOCKET_def third_opts_def enableMessagePass_def setReadCallback_def setWriteCallback_def
  setDisconnectCallback_def setMsgCallback_def enableRead_def sendMessage_def

lemma example_joins:
  "\<exists>w1 w2. ts_start (\<lambda>_. [1, 0, 3]) under_way 1 ''10.0.0.1:4000'' joining = Inr w1
    \<and> send_run w1 [Writable (Send_Accepts 4), Writable (Send_Accepts 4), Writable (Send_Accepts 3)] w2
    \<and> send_msgs (conn w2) = [] \<and> sent w2 = [1, 0, 0, 0, 3, 0, 0, 0, 1, 0, 3]"
  apply (rule exI conjI send_run.writable send_run.finished
        | (simp add: step_defs joining_defs short_empty_header_def u32_bytes_def; fail))+
  done

lemma pub_server_ready:
  "pub_inv 3 pub_server" "listening 3 pub_server" "nd_ios pub_server 2 = None" "tp_connections pub_server = []"
  "mask (nd_pset pub_server) 9 = None"
proof -
  show "pub_inv 3 pub_server" "nd_ios pub_server 2 = None" "tp_connections pub_server = []"
    by (simp_all add: pub_inv_def pub_server_def)
  show "listening 3 pub_server"
    by (simp add: listening_def pub_server_def new_tcp_def synchronous_def)
  show "mask (nd_pset pub_server) 9 = None" by (simp add: pub_server_def mask_def idle_set_def)
qed

lemma weaken_last:
  assumes "\<exists>x y. A x \<and> B x y \<and> (\<forall>v z. P y v z \<longrightarrow> Q v \<longrightarrow> (\<exists>f u. R v f \<and> S z f u \<and> T x y v z f u))"
  shows "\<exists>x y. A x \<and> B x y \<and> (\<forall>v z. P y v z \<longrightarrow> Q v \<longrightarrow> (\<exists>f u. R v f \<and> S z f u))"
  using assms by blast

theorem subscribing_works_witness:
  "\<exists>w1 w2 n1 n2. ts_start (\<lambda>_. [1, 0, 3]) under_way 1 ''10.0.0.1:4000'' joining = Inr w1
    \<and> send_run w1 [Writable (Send_Accepts 4), Writable (Send_Accepts 4), Writable (Send_Accepts 3)] w2
    \<and> sent w2 = [1, 0, 0, 0, 3, 0, 0, 0, 1, 0, 3]
    \<and> node_accepts \<lparr>oa_socket = 9, oa_nonblock = 0, oa_peer = None\<rparr> 2 pub_server n1
    \<and> tp_onAccept plain_opts None 2 n1 = Inr n2
    \<and> (\<forall>v n3. node_reads 2 n2 v n3 \<longrightarrow> rcvd v = sent w2 \<longrightarrow>
         (\<exists>f n4. last (upcalls v) = Received (Pub_Options 2) [f] \<and> tp_onOptions short_opts 2 [f] n3 = Inr n4))"
proof -
  let ?wro = "\<lambda>_ :: tcp_options. [1, 0, 3] :: byte list" and ?oa = "\<lparr>oa_socket = 9, oa_nonblock = 0, oa_peer = None\<rparr> :: os_accept"
  obtain w1 w2 where w: "ts_start ?wro under_way 1 ''10.0.0.1:4000'' joining = Inr w1"
    "send_run w1 [Writable (Send_Accepts 4), Writable (Send_Accepts 4), Writable (Send_Accepts 3)] w2"
    "send_msgs (conn w2) = []" "sent w2 = [1, 0, 0, 0, 3, 0, 0, 0, 1, 0, 3]"
    using example_joins by blast
  have o: "ts_opts joining = third_opts" by (simp add: joining_def)
  have codec: "short_opts (?wro (ts_opts joining)) = Some (ts_opts joining)" "length (?wro (ts_opts joining)) < 2 ^ 32"
    "0 < sint (opt_filter (ts_opts joining))" "compression (ts_opts joining) \<in> {NONE, SNAPPY}"
    unfolding o by (simp_all add: third_opts_def NONE_def)
  have ps: "ps_inv 3 (pset joining)" "0 \<le> oc_socket under_way" "mask (pset joining) (oc_socket under_way) = None"
    by (simp_all add: joining_def under_way_def) (simp add: mask_def idle_set_def)
  have can: "\<forall>c \<in> set (tp_connections pub_server). can_compress c" by (simp add: pub_server_ready)
  have oa: "mask (nd_pset pub_server) (oa_socket ?oa) = None" "0 \<le> oa_socket ?oa" "oa_nonblock ?oa = 0"
    by (simp_all add: pub_server_ready)
  have po: "posted [Writable (Send_Accepts 4), Writable (Send_Accepts 4), Writable (Send_Accepts 3)] = []" by simp
  have "\<exists>n1 n2. node_accepts ?oa 2 pub_server n1 \<and> tp_onAccept plain_opts None 2 n1 = Inr n2
    \<and> (\<forall>v n3. node_reads 2 n2 v n3 \<longrightarrow> rcvd v = sent w2 \<longrightarrow>
       (\<exists>f n4. last (upcalls v) = Received (Pub_Options 2) [f] \<and> tp_onOptions short_opts 2 [f] n3 = Inr n4))"
    by (rule weaken_last, rule subscribing_works[where wro = ?wro and rdo = short_opts and oa = ?oa,
      OF pub_server_ready(1-3) can oa w(1) ps codec w(2) po w(3)])
  then show ?thesis using w(1,2,4) by blast
qed

end
