(* ===== verification/Blocking_Call.thy ===== *)
theory Blocking_Call
  imports Remote_Call
begin

text \<open>
  Models \<open>ServiceClient\<close> of \<open>src/src/service.hpp\<close>: a call that waits for its answer. Two threads
  share the client: the caller sends the request and then waits on a condition variable, the poll
  thread runs \<open>onResponse\<close>. Between sending and taking the lock the caller holds nothing, so an
  answer that is fast enough finds \<open>done_\<close> still true. The steps of both threads are interleaved
  freely; waking without a notification is allowed, as for \<open>boost::condition_variable\<close>.
\<close>

section \<open>The client\<close>

datatype sc_cb = On_Response

text \<open>Where the calling thread is: outside \<open>call\<close>, before the lock, or in \<open>cv_.wait\<close>.\<close>

datatype sc_pc = Outside | Before_Lock | In_Wait

text \<open>
  \<open>sc_req_rep\<close> says whether \<open>req_rep_\<close> points to the caller's object, \<open>sc_response\<close> is the response
  in that object, once it is written.
\<close>

record 'p sc = "sc_cb tw" +
  sc_pc :: sc_pc
  sc_done :: bool
  sc_req_rep :: bool
  sc_response :: "'p option"

definition sc_new :: "'p sc \<Rightarrow> 'p sc" where
  "sc_new w = w\<lparr>sc_pc := Outside, sc_done := True, sc_req_rep := False, sc_response := None\<rparr>"

text \<open>\<open>call\<close> up to the lock, the locked part up to the first \<open>wait\<close>, and what follows a wake-up.\<close>

definition sc_call_send :: "('q \<Rightarrow> byte list) \<Rightarrow> 'q \<Rightarrow> 'p sc \<Rightarrow> 'p sc res" where
  "sc_call_send wr q w =
     bindR (enableRead (enableMessagePass w)) (\<lambda>w1.
     bindR (sendMessage (wr q) (of_nat (length (wr q))) (setMsgCallback On_Response w1)) (\<lambda>w2.
       Inr (w2\<lparr>sc_pc := Before_Lock, sc_response := None\<rparr>)))"

definition sc_call_lock :: "'p sc \<Rightarrow> 'p sc" where
  "sc_call_lock w = w\<lparr>sc_req_rep := True, sc_done := False, sc_pc := In_Wait\<rparr>"

definition sc_call_wake :: "'p sc \<Rightarrow> 'p sc" where
  "sc_call_wake w = (if sc_done w then w\<lparr>sc_req_rep := False, sc_pc := Outside\<rparr> else w)"

definition sc_onResponse :: "(byte list \<Rightarrow> 'p option) \<Rightarrow> frame list \<Rightarrow> 'p sc \<Rightarrow> 'p sc res" where
  "sc_onResponse rd frames w =
     ensure (length frames = 1) Ros_Break
       (ensure (\<not> sc_done w) Ros_Break
         (case rd (payload (frames ! 0)) of
            None \<Rightarrow> Inl Stream_Overrun
          | Some p \<Rightarrow> ensure (sc_req_rep w) Null_Deref (Inr (w\<lparr>sc_response := Some p, sc_done := True\<rparr>))))"

definition sc_react :: "(byte list \<Rightarrow> 'p option) \<Rightarrow> 'p sc \<Rightarrow> 'p sc res" where
  "sc_react rd w =
     (case last (upcalls w) of
        Received On_Response frames \<Rightarrow> sc_onResponse rd frames w
      | _ \<Rightarrow> Inr w)"

text \<open>The steps of the two threads once the request was sent.\<close>

datatype sc_event = Caller_Locks | Caller_Wakes | Poll_Round os_update u32

fun sc_step :: "(byte list \<Rightarrow> 'p option) \<Rightarrow> sc_event \<Rightarrow> 'p sc \<Rightarrow> 'p sc res" where
  "sc_step rd Caller_Locks w = Inr (if sc_pc w = Before_Lock then sc_call_lock w else w)"
| "sc_step rd Caller_Wakes w = Inr (if sc_pc w = In_Wait then sc_call_wake w else w)"
| "sc_step rd (Poll_Round os ev) w = socketUpdate (sc_react rd) os ev w"

section \<open>Invariant\<close>

lemma sc_fields: "tw.more w' = tw.more w \<Longrightarrow> sc_pc w' = sc_pc w \<and> sc_done w' = sc_done w
    \<and> sc_req_rep w' = sc_req_rep w \<and> sc_response w' = sc_response w"
  by (cases w; cases w') simp

lemma live_sc [simp]:
  "live r s (sc_pc_update a w) = live r s w" "live r s (sc_done_update b w) = live r s w"
  "live r s (sc_req_rep_update c w) = live r s w" "live r s (sc_response_update d w) = live r s w"
  by (simp_all add: live_def Let_def in_step_def)

definition answered :: "(byte list \<Rightarrow> 'p option) \<Rightarrow> 'p \<Rightarrow> 'p sc \<Rightarrow> bool" where
  "answered rd p w \<longleftrightarrow>
     (\<exists>fs. Received On_Response fs \<in> set (upcalls w) \<and> length fs = 1 \<and> rd (payload (fs ! 0)) = Some p)"

definition sc_inv :: "(byte list \<Rightarrow> 'p option) \<Rightarrow> int \<Rightarrow> int \<Rightarrow> 'p sc \<Rightarrow> bool" where
  "sc_inv rd r s w \<longleftrightarrow> live r s w \<and> readmsg_cb (conn w) = Some On_Response
     \<and> (case sc_pc w of
          Before_Lock \<Rightarrow> sc_done w \<and> sc_response w = None
        | In_Wait \<Rightarrow> sc_req_rep w \<and> (sc_done w \<longleftrightarrow> sc_response w \<noteq> None)
        | Outside \<Rightarrow> sc_done w \<and> sc_response w \<noteq> None)
     \<and> (\<forall>p. sc_response w = Some p \<longrightarrow> answered rd p w)"

text \<open>Why a message ends the process.\<close>

definition answer_aborts :: "(byte list \<Rightarrow> 'p option) \<Rightarrow> frame list \<Rightarrow> abort \<Rightarrow> 'p sc \<Rightarrow> bool" where
  "answer_aborts rd frames e w \<longleftrightarrow> (length frames \<noteq> 1 \<and> e = Ros_Break) \<or> (sc_done w \<and> e = Ros_Break)
     \<or> (rd (payload (frames ! 0)) = None \<and> e = Stream_Overrun)"

lemma sc_onResponse_inv:
  assumes inv: "sc_inv rd r s w" and fs: "Received On_Response fs \<in> set (upcalls w)"
  shows "case sc_onResponse rd fs w of Inr w' \<Rightarrow> sc_inv rd r s w' | Inl e \<Rightarrow> answer_aborts rd fs e w"
proof (cases "length fs = 1 \<and> \<not> sc_done w")
  case False
  then show ?thesis by (auto simp: sc_onResponse_def answer_aborts_def ensure_def)
next
  case True
  then have pc: "sc_pc w = In_Wait" "sc_req_rep w" using inv by (auto simp: sc_inv_def split: sc_pc.splits)
  show ?thesis
  proof (cases "rd (payload (fs ! 0))")
    case None
    then show ?thesis using True by (simp add: sc_onResponse_def answer_aborts_def)
  next
    case (Some p)
    then have "answered rd p w" using True fs by (auto simp: answered_def)
    then show ?thesis using True Some pc inv by (simp add: sc_onResponse_def sc_inv_def answered_def)
  qed
qed

lemma sc_inv_view:
  assumes "sc_inv rd r s w" and "live r s v" and "same_view w v" and "upcalls v = upcalls w @ us"
  shows "sc_inv rd r s v"
  using assms sc_fields[of v w] by (auto simp: sc_inv_def same_view_def answered_def split: sc_pc.splits)

lemma sc_reaction_inv:
  assumes inv: "sc_inv rd r s w" and l: "live r s v" and io: "quiet w v \<or> handed w v \<or> shut w v"
  shows "case reaction (sc_react rd) w v of
      Inr w' \<Rightarrow> sc_inv rd r s w'
    | Inl e \<Rightarrow> \<exists>c fs. upcalls v = upcalls w @ [Received c fs] \<and> answer_aborts rd fs e w"
  using io
proof (elim disjE)
  assume q: "quiet w v"
  then have "sc_inv rd r s v" using sc_inv_view[OF inv l, of "[]"] by (simp add: quiet_def)
  then show ?thesis using q by (simp add: reaction_def quiet_def)
next
  assume h: "handed w v"
  then obtain fs where fs: "upcalls v = upcalls w @ [Received On_Response fs]"
    using inv by (auto simp: handed_def sc_inv_def)
  have v: "sc_inv rd r s v" using sc_inv_view[OF inv l _ fs] h by (simp add: handed_def)
  have "answer_aborts rd fs e v = answer_aborts rd fs e w" for e
    using h sc_fields[of v w] by (simp add: answer_aborts_def handed_def same_view_def)
  moreover have "reaction (sc_react rd) w v = sc_onResponse rd fs v" by (simp add: reaction_def sc_react_def fs)
  ultimately show ?thesis using sc_onResponse_inv[OF v, of fs] fs by (auto split: sum.splits)
next
  assume h: "shut w v"
  then have v: "sc_inv rd r s v" using sc_inv_view[OF inv l, of "disconnect_call (conn w)"] by (simp add: shut_def)
  moreover have "reaction (sc_react rd) w v = Inr v"
    using h by (auto simp: reaction_def sc_react_def shut_def disconnect_call_def split: option.splits)
  ultimately show ?thesis by simp
qed

interpretation bc: upper_layer "sc_react rd" r s "sc_inv rd r s" "answer_aborts rd" for rd r s
proof
  fix w v :: "'a sc"
  assume "sc_inv rd r s w" "live r s v" "quiet w v \<or> handed w v \<or> shut w v"
  then show "case reaction (sc_react rd) w v of Inr w' \<Rightarrow> sc_inv rd r s w'
    | Inl e \<Rightarrow> \<exists>c fs. upcalls v = upcalls w @ [Received c fs] \<and> answer_aborts rd fs e w"
    by (rule sc_reaction_inv)
qed (simp add: sc_inv_def)

lemma sc_step_inv:
  assumes inv: "sc_inv rd r s w"
  shows "case sc_step rd e w of
      Inr w' \<Rightarrow> sc_inv rd r s w'
    | Inl a \<Rightarrow> \<exists>os ev v c fs. e = Poll_Round os ev \<and> on_readable os w = Inr v
        \<and> upcalls v = upcalls w @ [Received c fs] \<and> answer_aborts rd fs a w"
proof (cases e)
  case (Poll_Round os ev)
  then show ?thesis using bc.round[OF inv, of os ev] by (auto split: sum.splits)
qed (use inv in \<open>auto simp: sc_inv_def answered_def sc_call_lock_def sc_call_wake_def split: sc_pc.splits\<close>)

lemma sc_run_inv:
  assumes "sc_inv rd r s w"
  shows "case foldR (sc_step rd) es w of
      Inr w' \<Rightarrow> sc_inv rd r s w'
    | Inl a \<Rightarrow> \<exists>es1 os ev es2 u v c fs. es = es1 @ Poll_Round os ev # es2 \<and> foldR (sc_step rd) es1 w = Inr u
        \<and> on_readable os u = Inr v \<and> upcalls v = upcalls u @ [Received c fs] \<and> answer_aborts rd fs a u"
  using assms
proof (induction es arbitrary: w)
  case (Cons e es)
  show ?case
  proof (cases "sc_step rd e w")
    case (Inl a)
    then obtain os ev v c fs where "e = Poll_Round os ev" "on_readable os w = Inr v"
      "upcalls v = upcalls w @ [Received c fs]" "answer_aborts rd fs a w"
      using sc_step_inv[OF Cons.prems, of e] by auto
    then show ?thesis using Inl by (auto intro!: exI[of _ "[]"])
  next
    case (Inr w1)
    then have "sc_inv rd r s w1" using sc_step_inv[OF Cons.prems, of e] by simp
    note IH = Cons.IH[OF this]
    show ?thesis
    proof (cases "foldR (sc_step rd) es w1")
      case (Inl a)
      then obtain es1 os ev es2 u v c fs where d: "es = es1 @ Poll_Round os ev # es2" "foldR (sc_step rd) es1 w1 = Inr u"
        "on_readable os u = Inr v" "upcalls v = upcalls u @ [Received c fs]" "answer_aborts rd fs a u"
        using IH by auto
      have A: "foldR (sc_step rd) (e # es) w = Inl a" using Inr Inl by simp
      have B: "e # es = (e # es1) @ Poll_Round os ev # es2 \<and> foldR (sc_step rd) (e # es1) w = Inr u
          \<and> on_readable os u = Inr v \<and> upcalls v = upcalls u @ [Received c fs] \<and> answer_aborts rd fs a u"
        using d Inr by simp
      show ?thesis unfolding A sum.case by (intro exI) (rule B)
    next
      case (Inr w2)
      then show ?thesis using IH \<open>sc_step rd e w = Inr w1\<close> by simp
    qed
  qed
qed simp

section \<open>A call\<close>

lemma sc_call_send_result:
  assumes fr: "Establish.fresh r s w" and new: "sc_done w" "filter_num (conn w) = 1" and sz: "length (wr q) < 2 ^ 32"
  shows "\<exists>w'. sc_call_send wr q w = Inr w' \<and> sc_inv rd r s w' \<and> \<not> is_closed (conn w') \<and> \<not> reading (conn w')
    \<and> sc_pc w' = Before_Lock \<and> sent w' = sent w \<and> rcvd w' = rcvd w
    \<and> pending (conn w') = enc_msg [\<lparr>f_data = wr q, f_size = of_nat (length (wr q))\<rparr>]"
proof -
  define a where "a = armed On_Response None w"
  let ?f = "[\<lparr>f_data = wr q, f_size = of_nat (length (wr q))\<rparr>]"
  have la: "live r s a" unfolding a_def by (rule armed_live[OF fr])
  have opn: "\<not> is_closed (conn a)" "send_msgs (conn a) = []" "\<not> reading (conn a)" "filter_num (conn a) = 1"
    using fr new by (simp_all add: a_def fresh_def Let_def)
  have ok: "sendable ?f" by (simp add: sendable_def frame_ok_def unat_of_nat_u32[OF sz])
  obtain b where b: "sendFrames ?f a = Inr b" "live r s b" using sendFrames_live[OF la ok] by blast
  have qb: "quiet a b" using sendFrames_io[OF b(1)] .
  have st: "sent b = sent a" "pending (conn b) = enc_msg ?f"
    using sendFrames_step[OF b(1) ok] opn by (simp_all add: pending_def)
  have rd: "rcvd b = rcvd a" "reading (conn b) = reading (conn a)"
    using b(1) by (auto simp: sendFrames_def Let_def res_simps dest!: switch_result(3) split: if_splits)
  let ?w' = "b\<lparr>sc_pc := Before_Lock, sc_response := None\<rparr>"
  have "bindR (enableRead (enableMessagePass w)) (\<lambda>w1. Inr (setMsgCallback On_Response w1)) = Inr a"
    unfolding a_def by (rule setup_armed(2)[OF fr])
  then have "sc_call_send wr q w = Inr ?w'"
    using b(1) by (cases "enableRead (enableMessagePass w)") (simp_all add: sc_call_send_def sendMessage_def)
  moreover have "sc_done b" "readmsg_cb (conn b) = Some On_Response" "\<not> is_closed (conn b)"
    using qb new(1) opn(1) sc_fields[of b w] by (simp_all add: quiet_def same_view_def a_def)
  ultimately show ?thesis
    using b(2) st rd opn(3) by (intro exI[of _ ?w']) (simp add: sc_inv_def a_def)
qed

text \<open>A client whose answer arrives: the message handed on is the response.\<close>

lemma sc_answer_arrives:
  assumes run: "recv_run w w'" and inv: "sc_inv rd r s w" and opn: "\<not> is_closed (conn w)" "\<not> reading (conn w)"
    and got: "rcvd w' = rcvd w @ enc_msg [\<lparr>f_data = wr p, f_size = of_nat (length (wr p))\<rparr>]" and sz: "length (wr p) < 2 ^ 32"
  shows "\<exists>f. sc_react rd w' = sc_onResponse rd [f] w' \<and> payload f = wr p \<and> tw.more w' = tw.more w"
proof -
  let ?f = "[\<lparr>f_data = wr p, f_size = of_nat (length (wr p))\<rparr>]"
  have l: "live r s w" "readmsg_cb (conn w) = Some On_Response" using inv by (simp_all add: sc_inv_def)
  have "wire_ok ?f" by (simp add: wire_ok_def frame_ok_def unat_of_nat_u32[OF sz])
  then obtain fs where fs: "upcalls w' = upcalls w @ [Received On_Response fs]" "map wire fs = map wire ?f"
    using one_message[OF run l(1) opn l(2) got] by blast
  then obtain f where "fs = [f]" "payload f = wr p" using payload_full[OF sz] by (auto simp: wire_def)
  moreover have "tw.more w' = tw.more w" using recv_run_keeps[OF run l(1) opn(1)] by (simp add: same_view_def)
  ultimately show ?thesis using fs(1) by (intro exI[of _ f]) (simp add: sc_react_def)
qed

section \<open>An example\<close>

definition sc_client :: "byte list sc" where
  "sc_client = sc_new \<lparr>conn = (new_tcp 1 True 0)\<lparr>sock := 7\<rparr>, pset = idle_set, sent = [], rcvd = [], closed_fds = [],
     sockopts = [], upcalls = [], sc_pc = Outside, sc_done = True, sc_req_rep = False, sc_response = None\<rparr>"

lemma sc_client_fresh: "Establish.fresh 3 7 sc_client" "sc_done sc_client" "filter_num (conn sc_client) = 1" "rcvd sc_client = []"
  by (rule new_fresh[where i = 1]) (simp_all add: sc_client_def sc_new_def new_tcp_def)

lemmas client_defs = read_defs step_defs sc_client_def sc_new_def idle_set_def sc_call_send_def enableRead_def
  enableMessagePass_def setReadCallback_def setWriteCallback_def setMsgCallback_def sendMessage_def

lemma example_early_answer:
  "\<exists>w1 w3. sc_call_send id [9] sc_client = Inr w1 \<and> recv_run w1 w3 \<and> rcvd w3 = [1, 0, 0, 0, 1, 0, 0, 0, 5]"
  apply (rule exI, rule exI, rule conjI)
   apply (simp add: client_defs; fail)
  apply (rule conjI)
   apply (rule recv_run.round[where r = "Recv_Data [5]"])
      apply (rule recv_run.round[where r = "Recv_Data [1, 0, 0, 0]"])
         apply (rule recv_run.round[where r = "Recv_Data [1, 0, 0, 0]"])
            apply (rule recv_run.start)
           apply (simp add: client_defs short_size_def current_def; fail)+
  done

section \<open>Properties\<close>

text \<open>
  C19: A call that returns has its answer. From a client that has sent its request, under any
  interleaving of the caller and the poll thread, any events and any spurious wake-ups: when the
  caller has left \<open>call\<close>, the response in its object is what the serialization reads from a
  one-frame message that arrived; while it waits without one, it keeps waiting. The process only
  ends when a message is read that has not one frame, cannot be read, or comes when no call waits
  for one.
\<close>

theorem blocking_call_answers:
  assumes fr: "Establish.fresh r s w" and new: "sc_done w" "filter_num (conn w) = 1" and sz: "length (wr q) < 2 ^ 32"
  shows "\<exists>w1. sc_call_send wr q w = Inr w1 \<and> (\<forall>es. case foldR (sc_step rd) es w1 of
      Inr w' \<Rightarrow> (sc_pc w' = Outside \<longrightarrow> (\<exists>p. sc_response w' = Some p \<and> answered rd p w'))
        \<and> (sc_pc w' = In_Wait \<and> sc_response w' = None \<longrightarrow> sc_call_wake w' = w')
    | Inl a \<Rightarrow> \<exists>es1 os ev es2 u v c fs. es = es1 @ Poll_Round os ev # es2 \<and> foldR (sc_step rd) es1 w1 = Inr u
        \<and> on_readable os u = Inr v \<and> upcalls v = upcalls u @ [Received c fs] \<and> answer_aborts rd fs a u)"
proof -
  obtain w1 where w1: "sc_call_send wr q w = Inr w1" "sc_inv rd r s w1"
    using sc_call_send_result[where wr = wr and q = q and rd = rd, OF fr new sz] by blast
  have "case foldR (sc_step rd) es w1 of
      Inr w' \<Rightarrow> (sc_pc w' = Outside \<longrightarrow> (\<exists>p. sc_response w' = Some p \<and> answered rd p w'))
        \<and> (sc_pc w' = In_Wait \<and> sc_response w' = None \<longrightarrow> sc_call_wake w' = w')
    | Inl a \<Rightarrow> \<exists>es1 os ev es2 u v c fs. es = es1 @ Poll_Round os ev # es2 \<and> foldR (sc_step rd) es1 w1 = Inr u
        \<and> on_readable os u = Inr v \<and> upcalls v = upcalls u @ [Received c fs] \<and> answer_aborts rd fs a u" for es
  proof (cases "foldR (sc_step rd) es w1")
    case (Inl a)
    then show ?thesis using sc_run_inv[OF w1(2), of es] by simp
  next
    case (Inr w')
    then have "sc_inv rd r s w'" using sc_run_inv[OF w1(2), of es] by simp
    then show ?thesis using Inr by (auto simp: sc_inv_def sc_call_wake_def split: sc_pc.splits)
  qed
  then show ?thesis using w1(1) by blast
qed

theorem blocking_call_answers_witness:
  "\<exists>w1 w'. sc_call_send id [9] sc_client = Inr w1 \<and> foldR (sc_step Some) [Caller_Locks, Caller_Wakes] w1 = Inr w'
    \<and> sc_pc w' = In_Wait \<and> sc_call_wake w' = w'"
proof -
  obtain w1 where w1: "sc_call_send id [9] sc_client = Inr w1" "sc_inv Some 3 7 w1" "sc_pc w1 = Before_Lock"
    using sc_call_send_result[where wr = id and q = "[9]" and rd = Some, OF sc_client_fresh(1-3)] by auto
  define w' where "w' = projr (foldR (sc_step Some) [Caller_Locks, Caller_Wakes] w1)"
  have w': "foldR (sc_step Some) [Caller_Locks, Caller_Wakes] w1 = Inr w'" "sc_pc w' = In_Wait" "sc_response w' = None"
    using w1(2,3) by (simp_all add: w'_def sc_call_lock_def sc_call_wake_def sc_inv_def)
  have "length (id [9 :: byte]) < 2 ^ 32" by simp
  from blocking_call_answers[where wr = id and q = "[9]" and rd = Some, OF sc_client_fresh(1-3) this]
  obtain v1 where v1: "sc_call_send id [9] sc_client = Inr v1"
    "\<forall>es. case foldR (sc_step Some) es v1 of
      Inr w' \<Rightarrow> (sc_pc w' = Outside \<longrightarrow> (\<exists>p. sc_response w' = Some p \<and> answered Some p w'))
        \<and> (sc_pc w' = In_Wait \<and> sc_response w' = None \<longrightarrow> sc_call_wake w' = w')
    | Inl a \<Rightarrow> \<exists>es1 os ev es2 u v c fs. es = es1 @ Poll_Round os ev # es2 \<and> foldR (sc_step Some) es1 v1 = Inr u
        \<and> on_readable os u = Inr v \<and> upcalls v = upcalls u @ [Received c fs] \<and> answer_aborts Some fs a u"
    by (elim exE conjE) (rule that)
  have "v1 = w1" using v1(1) w1(1) by simp
  have "sc_call_wake w' = w'"
    using v1(2)[rule_format, of "[Caller_Locks, Caller_Wakes]"] w'(2,3)
    unfolding \<open>v1 = w1\<close> w'(1) sum.case by blast
  then show ?thesis using w1(1) w'(1,2) by blast
qed

text \<open>
  C40: An answer can come too early. The caller sends its request before it takes the lock and
  clears \<open>done_\<close>. If the answer is read in between, \<open>onResponse\<close> finds \<open>done_\<close> true and ends the
  process; if the caller is in its wait by then, the same answer ends the call, with the response.
\<close>

theorem early_answer_aborts:
  assumes fr: "Establish.fresh r s w" and new: "sc_done w" "filter_num (conn w) = 1" "rcvd w = []"
    and sz: "length (wr q) < 2 ^ 32" "length (wrp p) < 2 ^ 32" and codec: "rd (wrp p) = Some p"
    and call: "sc_call_send wr q w = Inr w1" and request: "send_run w1 es w2" "posted es = []"
    and answer: "rcvd w3 = enc_msg [\<lparr>f_data = wrp p, f_size = of_nat (length (wrp p))\<rparr>]"
  shows "(recv_run w2 w3 \<longrightarrow> sc_react rd w3 = Inl Ros_Break)
    \<and> (recv_run (sc_call_lock w2) w3 \<longrightarrow>
         (\<exists>w4. sc_react rd w3 = Inr w4 \<and> sc_pc (sc_call_wake w4) = Outside \<and> sc_response (sc_call_wake w4) = Some p))"
proof -
  have w1: "sc_inv rd r s w1" "\<not> is_closed (conn w1)" "\<not> reading (conn w1)" "sc_pc w1 = Before_Lock" "rcvd w1 = []"
    using sc_call_send_result[where wr = wr and q = q and rd = rd, OF fr new(1,2) sz(1)] call new(3) by auto
  have "live r s w1" using w1(1) by (simp add: sc_inv_def)
  note q = send_run_live[OF request(1) this w1(2)]
  have w2: "sc_inv rd r s w2" "\<not> is_closed (conn w2)" "\<not> reading (conn w2)" "sc_pc w2 = Before_Lock" "sc_done w2" "rcvd w2 = []"
    using sc_inv_view[OF w1(1), of w2 "[]"] q w1 sc_fields[of w2 w1] by (auto simp: quiet_def same_view_def sc_inv_def)
  have "sc_react rd w3 = Inl Ros_Break" if run: "recv_run w2 w3"
  proof -
    obtain f where f: "sc_react rd w3 = sc_onResponse rd [f] w3" "tw.more w3 = tw.more w2"
      using sc_answer_arrives[where wr = wrp and p = p, OF run w2(1-3) _ sz(2)] answer w2(6) by auto
    then show ?thesis using sc_fields[OF f(2)] w2(5) by (simp add: sc_onResponse_def)
  qed
  moreover have "\<exists>w4. sc_react rd w3 = Inr w4 \<and> sc_pc (sc_call_wake w4) = Outside \<and> sc_response (sc_call_wake w4) = Some p"
    if run: "recv_run (sc_call_lock w2) w3"
  proof -
    have l: "sc_inv rd r s (sc_call_lock w2)" "\<not> is_closed (conn (sc_call_lock w2))" "\<not> reading (conn (sc_call_lock w2))"
      using w2 by (simp_all add: sc_call_lock_def sc_inv_def)
    have "rcvd (sc_call_lock w2) = []" using w2(6) by (simp add: sc_call_lock_def)
    then obtain f where f: "sc_react rd w3 = sc_onResponse rd [f] w3" "payload f = wrp p" "tw.more w3 = tw.more (sc_call_lock w2)"
      using sc_answer_arrives[where wr = wrp and p = p, OF run l _ sz(2)] answer by auto
    then show ?thesis using sc_fields[OF f(3)] codec by (simp add: sc_onResponse_def sc_call_lock_def sc_call_wake_def)
  qed
  ultimately show ?thesis by blast
qed

theorem early_answer_aborts_witness:
  "\<exists>w1 w3. sc_call_send id [9] sc_client = Inr w1 \<and> recv_run w1 w3 \<and> rcvd w3 = [1, 0, 0, 0, 1, 0, 0, 0, 5]
    \<and> sc_react Some w3 = Inl Ros_Break"
proof -
  obtain w1 w3 where w: "sc_call_send id [9] sc_client = Inr w1" "recv_run w1 w3" "rcvd w3 = [1, 0, 0, 0, 1, 0, 0, 0, 5]"
    using example_early_answer by blast
  have sz: "length (id [9 :: byte]) < 2 ^ 32" "length (id [5 :: byte]) < 2 ^ 32" by simp_all
  have rd: "Some (id [5 :: byte]) = Some [5]" by simp
  have "rcvd w3 = enc_msg [\<lparr>f_data = id [5], f_size = of_nat (length (id [5 :: byte]))\<rparr>]"
    by (simp add: w(3) enc_msg_def enc_frame_def payload_def u32_bytes_def)
  from early_answer_aborts[where wr = id and q = "[9]" and wrp = id and p = "[5]" and rd = Some,
      OF sc_client_fresh sz rd w(1) send_run.finished _ this]
  have "sc_react Some w3 = Inl Ros_Break" using w(2) by simp
  then show ?thesis using w by blast
qed

end
