(* ===== verification/Poll_Manager.thy ===== *)
theory Poll_Manager
  imports Poll_Set
begin

text \<open>
  Models \<open>src/src/poll_manager.cpp\<close>: the thread that keeps calling \<open>PollSet::update\<close>. The thread
  and the callers of \<open>shutdown\<close>, \<open>addPollThreadListener\<close> and \<open>removePollThreadListener\<close> are
  interleaved step by step; a signal and an update are one step each, the tests of
  \<open>shutting_down_\<close> stand between them. Listeners may do anything to the manager (\<open>slot\<close>), among
  it shut it down. Not modelled: \<open>join\<close> on a manager that was never started, and \<open>start\<close> twice.
\<close>

section \<open>State and operations\<close>

datatype thread_pc = At_Loop | After_Signal | Finished

record ('h, 'w) poll_manager =
  pm_world :: "'h poll_set \<times> 'w"
  shutting_down :: bool
  pm_thread :: thread_pc
  listeners :: "nat list"

definition pm_start :: "('h, 'w) poll_manager \<Rightarrow> ('h, 'w) poll_manager" where
  "pm_start p = p\<lparr>shutting_down := False, pm_thread := At_Loop\<rparr>"

definition addPollThreadListener :: "nat \<Rightarrow> ('h, 'w) poll_manager \<Rightarrow> ('h, 'w) poll_manager" where
  "addPollThreadListener n p = p\<lparr>listeners := listeners p @ [n]\<rparr>"

definition removePollThreadListener :: "nat \<Rightarrow> ('h, 'w) poll_manager \<Rightarrow> ('h, 'w) poll_manager" where
  "removePollThreadListener n p = p\<lparr>listeners := removeAll n (listeners p)\<rparr>"

text \<open>
  \<open>shutdown\<close> sets the flag, joins the thread unless it is that thread, and then disconnects the
  listeners: another thread does it in two steps with the wait between them.
\<close>

definition request_shutdown :: "('h, 'w) poll_manager \<Rightarrow> ('h, 'w) poll_manager" where
  "request_shutdown p = p\<lparr>shutting_down := True\<rparr>"

definition joined :: "('h, 'w) poll_manager \<Rightarrow> bool" where
  "joined p \<longleftrightarrow> pm_thread p = Finished"

definition end_shutdown :: "('h, 'w) poll_manager \<Rightarrow> ('h, 'w) poll_manager" where
  "end_shutdown p = p\<lparr>listeners := []\<rparr>"

definition own_shutdown :: "('h, 'w) poll_manager \<Rightarrow> ('h, 'w) poll_manager" where
  "own_shutdown p = end_shutdown (request_shutdown p)"

text \<open>A listener that was disconnected while the signal runs is not called any more.\<close>

definition poll_signal ::
  "(nat \<Rightarrow> ('h, 'w) poll_manager \<Rightarrow> ('h, 'w) poll_manager res) \<Rightarrow> ('h, 'w) poll_manager
   \<Rightarrow> ('h, 'w) poll_manager res" where
  "poll_signal slot p = foldR (\<lambda>n q. if n \<in> set (listeners q) then slot n q else Inr q) (listeners p) p"

text \<open>\<open>threadFunc\<close>, from one test of the flag to the next; \<open>os\<close> is what \<open>poll\<close> answers.\<close>

definition threadFunc ::
  "('h \<Rightarrow> u32 \<Rightarrow> 'h poll_set \<times> 'w \<Rightarrow> ('h poll_set \<times> 'w) res)
   \<Rightarrow> (nat \<Rightarrow> ('h, 'w) poll_manager \<Rightarrow> ('h, 'w) poll_manager res) \<Rightarrow> os_poll
   \<Rightarrow> ('h, 'w) poll_manager \<Rightarrow> ('h, 'w) poll_manager res" where
  "threadFunc disp slot os p =
     (case pm_thread p of
        At_Loop \<Rightarrow>
          if shutting_down p then Inr (p\<lparr>pm_thread := Finished\<rparr>)
          else bindR (poll_signal slot p) (\<lambda>q. Inr (q\<lparr>pm_thread := After_Signal\<rparr>))
      | After_Signal \<Rightarrow>
          if shutting_down p then Inr (p\<lparr>pm_thread := Finished\<rparr>)
          else bindR (update disp os (pm_world p)) (\<lambda>w. Inr (p\<lparr>pm_world := w, pm_thread := At_Loop\<rparr>))
      | Finished \<Rightarrow> Inr p)"

section \<open>Interleaving\<close>

datatype pm_event = Thread os_poll | Request_Shutdown | End_Shutdown | Add_Listener nat | Remove_Listener nat

text \<open>\<open>End_Shutdown\<close> happens only once the thread was joined.\<close>

fun pm_step ::
  "('h \<Rightarrow> u32 \<Rightarrow> 'h poll_set \<times> 'w \<Rightarrow> ('h poll_set \<times> 'w) res)
   \<Rightarrow> (nat \<Rightarrow> ('h, 'w) poll_manager \<Rightarrow> ('h, 'w) poll_manager res) \<Rightarrow> pm_event
   \<Rightarrow> ('h, 'w) poll_manager \<Rightarrow> ('h, 'w) poll_manager res" where
  "pm_step disp slot (Thread os) p = threadFunc disp slot os p"
| "pm_step disp slot Request_Shutdown p = Inr (request_shutdown p)"
| "pm_step disp slot End_Shutdown p = Inr (if joined p then end_shutdown p else p)"
| "pm_step disp slot (Add_Listener n) p = Inr (addPollThreadListener n p)"
| "pm_step disp slot (Remove_Listener n) p = Inr (removePollThreadListener n p)"

fun is_thread :: "pm_event \<Rightarrow> bool" where
  "is_thread (Thread _) = True"
| "is_thread _ = False"

lemma stopping_step:
  assumes "shutting_down p"
  shows "\<exists>p'. pm_step disp slot e p = Inr p' \<and> shutting_down p' \<and> pm_world p' = pm_world p
    \<and> (pm_thread p' = Finished \<longleftrightarrow> is_thread e \<or> pm_thread p = Finished)"
  using assms
  by (cases e) (auto simp: threadFunc_def request_shutdown_def end_shutdown_def addPollThreadListener_def
      removePollThreadListener_def split: thread_pc.split)

lemma stopping_run:
  assumes "shutting_down p"
  shows "\<exists>p'. foldR (pm_step disp slot) es p = Inr p' \<and> shutting_down p' \<and> pm_world p' = pm_world p
    \<and> (pm_thread p' = Finished \<longleftrightarrow> (\<exists>e \<in> set es. is_thread e) \<or> pm_thread p = Finished)"
  using assms
proof (induction es arbitrary: p)
  case (Cons e es)
  obtain p1 where p1: "pm_step disp slot e p = Inr p1" "shutting_down p1" "pm_world p1 = pm_world p"
    "pm_thread p1 = Finished \<longleftrightarrow> is_thread e \<or> pm_thread p = Finished"
    using stopping_step[OF Cons.prems, of disp slot e] by blast
  then show ?case using Cons.IH[OF p1(2)] by auto
qed simp

text \<open>
  C20: Shutting down ends the poll thread. From any state of a started manager in which
  \<open>shutting_down_\<close> is set (by another thread between any two steps, or by a listener during the
  signal), and whatever other threads do from then on, nothing aborts any more, the thread
  finishes with its very next step, so that \<open>join\<close> returns, and the poll set is not touched
  again. As long as the flag is not set the thread goes on: it never finishes, every second step
  of it is one \<open>update\<close>, and only a listener or that \<open>update\<close> can end the process.
\<close>

theorem poll_thread_stops:
  shows "(shutting_down p \<longrightarrow> (\<exists>p'. foldR (pm_step disp slot) es p = Inr p' \<and> pm_world p' = pm_world p
      \<and> (joined p' \<longleftrightarrow> (\<exists>e \<in> set es. is_thread e) \<or> joined p)))
    \<and> (\<not> shutting_down p \<and> \<not> joined p \<longrightarrow>
        (case threadFunc disp slot os p of Inr p' \<Rightarrow> \<not> joined p'
            \<and> (pm_thread p = After_Signal \<longrightarrow> update disp os (pm_world p) = Inr (pm_world p'))
         | Inl e \<Rightarrow> poll_signal slot p = Inl e \<or> update disp os (pm_world p) = Inl e))"
proof -
  have "case threadFunc disp slot os p of Inr p' \<Rightarrow> \<not> joined p'
            \<and> (pm_thread p = After_Signal \<longrightarrow> update disp os (pm_world p) = Inr (pm_world p'))
         | Inl e \<Rightarrow> poll_signal slot p = Inl e \<or> update disp os (pm_world p) = Inl e"
    if "\<not> shutting_down p" "\<not> joined p"
    using that by (auto simp: threadFunc_def joined_def res_simps bindR_def split: thread_pc.split sum.split)
  then show ?thesis using stopping_run[of p disp slot es] by (auto simp: joined_def)
qed

theorem poll_thread_stops_witness:
  "\<forall>p. \<exists>p'. foldR (pm_step (\<lambda>h ev s. Inr s) (\<lambda>n q. Inr q))
      [Remove_Listener 3, Thread (Poll_Revents []), End_Shutdown]
      (request_shutdown (addPollThreadListener 3 (pm_start \<lparr>pm_world = (p :: unit poll_set, ()),
         shutting_down = True, pm_thread = Finished, listeners = []\<rparr>))) = Inr p'
    \<and> joined p' \<and> pm_world p' = (p, ())"
proof
  fix p
  let ?p = "request_shutdown (addPollThreadListener 3 (pm_start \<lparr>pm_world = (p :: unit poll_set, ()),
         shutting_down = True, pm_thread = Finished, listeners = []\<rparr>))"
  have "shutting_down ?p" "pm_world ?p = (p, ())"
    by (simp_all add: request_shutdown_def addPollThreadListener_def pm_start_def)
  then show "\<exists>p'. foldR (pm_step (\<lambda>h ev s. Inr s) (\<lambda>n q. Inr q))
      [Remove_Listener 3, Thread (Poll_Revents []), End_Shutdown] ?p = Inr p' \<and> joined p' \<and> pm_world p' = (p, ())"
    using poll_thread_stops[of ?p "\<lambda>h ev s. Inr s" "\<lambda>n q. Inr q"
      "[Remove_Listener 3, Thread (Poll_Revents []), End_Shutdown]" "Poll_Revents []"] by auto
qed

end
