(* ===== verification/Pubsub_ZMQ.thy ===== *)
theory Pubsub_ZMQ
  imports Core "HOL-Library.Sublist"
begin

text \<open>
  Models \<open>src/src/pubsub_zmq.hpp\<close>: publishing and subscribing over ZeroMQ, each with a thread of
  its own. The library is not part of the program: what it answers is an input of each step, and
  what it was given to send is recorded. Of the binding \<open>zmq.hpp\<close> only the three functions used
  matter: an error is an exception, except that \<open>EAGAIN\<close> of \<open>send\<close> and \<open>recv\<close> is \<open>false\<close>.
\<close>

section \<open>The binding\<close>

datatype zmq_answer = Zmq_Done "byte list" | Zmq_Again | Zmq_Fails

text \<open>\<open>socket_t::recv\<close> gives the part that was received, \<open>None\<close> if there is none.\<close>

definition zmq_recv :: "zmq_answer \<Rightarrow> byte list option res" where
  "zmq_recv a = (case a of Zmq_Done bs \<Rightarrow> Inr (Some bs) | Zmq_Again \<Rightarrow> Inr None | Zmq_Fails \<Rightarrow> Inl Zmq_Error)"

text \<open>\<open>socket_t::send\<close>: a part that was accepted is appended to what is sent.\<close>

definition zmq_send :: "zmq_answer \<Rightarrow> 'a \<Rightarrow> 'a list \<Rightarrow> (bool \<times> 'a list) res" where
  "zmq_send a part out =
     (case a of Zmq_Done _ \<Rightarrow> Inr (True, out @ [part]) | Zmq_Again \<Rightarrow> Inr (False, out) | Zmq_Fails \<Rightarrow> Inl Zmq_Error)"

definition zmq_poll :: "int \<Rightarrow> int res" where
  "zmq_poll rc = ensure (0 \<le> rc) Zmq_Error (Inr rc)"

section \<open>Publishing\<close>

text \<open>
  A part is its bytes and whether more parts follow (\<open>ZMQ_SNDMORE\<close>). \<open>pz_bound\<close> is the address the
  socket was told to bind to, once it is.
\<close>

datatype pz_thread = Not_Started | Created | Looping | Ended

record publish_zmq =
  pz_thread :: pz_thread
  pz_endpoint :: string
  pz_shutdown :: bool
  pz_queue :: "msg mqueue"
  pz_bound :: "string option"
  pz_sent :: "(byte list \<times> bool) list"

definition new_publish_zmq :: "nat \<Rightarrow> publish_zmq" where
  "new_publish_zmq queue_size = \<lparr>pz_thread = Not_Started, pz_endpoint = [], pz_shutdown = False,
     pz_queue = new_mqueue queue_size, pz_bound = None, pz_sent = []\<rparr>"

definition pz_publish :: "byte list \<Rightarrow> msg \<Rightarrow> publish_zmq \<Rightarrow> publish_zmq" where
  "pz_publish junk m p = p\<lparr>pz_queue := push (Copy junk m) (pz_queue p)\<rparr>"

definition zmq_protocol :: string where "zmq_protocol = ''zmqros''"

text \<open>\<open>start\<close> creates the thread first and stores the endpoint afterwards; both are steps.\<close>

definition pz_create_thread :: "publish_zmq \<Rightarrow> publish_zmq" where
  "pz_create_thread p = p\<lparr>pz_thread := Created\<rparr>"

definition pz_set_endpoint :: "string \<Rightarrow> publish_zmq \<Rightarrow> publish_zmq" where
  "pz_set_endpoint endpoint p = p\<lparr>pz_endpoint := endpoint\<rparr>"

text \<open>
  \<open>run\<close> up to its loop: bind to the endpoint, then read back the real one into 80 characters.
  \<open>None\<close> as an answer is an error of the library.
\<close>

definition pz_bind :: "(string \<Rightarrow> string option) \<Rightarrow> publish_zmq \<Rightarrow> publish_zmq res" where
  "pz_bind os p =
     (case os (pz_endpoint p) of
        None \<Rightarrow> Inl Zmq_Error
      | Some real \<Rightarrow> ensure (length real < 80) Zmq_Error
          (Inr (p\<lparr>pz_bound := Some (pz_endpoint p), pz_endpoint := real, pz_thread := Looping\<rparr>)))"

definition zmq_topic :: "byte list" where
  "zmq_topic = map of_char ''pubsub_zmq''"

text \<open>
  One turn of the loop; the results of \<open>send\<close> are not looked at. A thread that has not bound its
  socket yet, or has left the loop, does nothing.
\<close>

definition pz_turn :: "msg wait list \<Rightarrow> zmq_answer \<Rightarrow> zmq_answer \<Rightarrow> publish_zmq \<Rightarrow> publish_zmq res" where
  "pz_turn ws a1 a2 p =
     (if pz_thread p \<noteq> Looping then Inr p
      else if pz_shutdown p then Inr (p\<lparr>pz_thread := Ended\<rparr>)
      else
        let (r, q) = pop ws (pz_queue p); p1 = p\<lparr>pz_queue := q\<rparr> in
        case r of
          Got m \<Rightarrow>
            bindR (zmq_send a1 (zmq_topic, True) (pz_sent p1)) (\<lambda>(_, out).
            bindR (zmq_send a2 (take (unat (m_sz m)) (m_bytes m), False) out) (\<lambda>(_, out').
              Inr (p1\<lparr>pz_sent := out'\<rparr>)))
        | _ \<Rightarrow> Inr p1)"

definition pz_request_shutdown :: "publish_zmq \<Rightarrow> publish_zmq" where
  "pz_request_shutdown p = p\<lparr>pz_shutdown := True\<rparr>"

text \<open>\<open>ZMQPubFactory\<close>: what \<open>CreatePubTransport\<close> makes and gives to \<open>start\<close>.\<close>

definition zmq_factory_endpoint :: string where
  "zmq_factory_endpoint = ''tcp://127.0.0.1:0''"

definition zmq_CreatePubTransport :: publish_zmq where
  "zmq_CreatePubTransport = new_publish_zmq 100"

section \<open>Subscribing\<close>

record subscribe_zmq =
  sz_endpoint :: string
  sz_shutdown :: bool
  sz_thread :: pz_thread
  sz_cb :: bool
  sz_delivered :: "msg list"

definition new_subscribe_zmq :: subscribe_zmq where
  "new_subscribe_zmq = \<lparr>sz_endpoint = [], sz_shutdown = False, sz_thread = Not_Started, sz_cb = False, sz_delivered = []\<rparr>"

definition sz_onReceive :: "subscribe_zmq \<Rightarrow> subscribe_zmq" where
  "sz_onReceive w = w\<lparr>sz_cb := True\<rparr>"

definition sz_start :: "string \<Rightarrow> subscribe_zmq \<Rightarrow> subscribe_zmq" where
  "sz_start endpoint w = w\<lparr>sz_endpoint := endpoint, sz_thread := Created\<rparr>"

text \<open>\<open>run\<close> up to its loop: whether the socket could be made, set up and connected.\<close>

definition sz_connect :: "bool \<Rightarrow> subscribe_zmq \<Rightarrow> subscribe_zmq res" where
  "sz_connect ok w = ensure ok Zmq_Error (Inr (w\<lparr>sz_thread := Looping\<rparr>))"

text \<open>
  What the library answers in one turn: \<open>poll\<close>, the first part and whether more follows, the second
  part and whether more follows. The topic is copied into 100 characters and terminated.
\<close>

record zmq_turn =
  zt_poll :: int
  zt_topic :: zmq_answer
  zt_more :: int
  zt_data :: zmq_answer
  zt_more2 :: int

definition sz_turn :: "zmq_turn \<Rightarrow> subscribe_zmq \<Rightarrow> subscribe_zmq res" where
  "sz_turn os w =
     (if sz_thread w \<noteq> Looping then Inr w
      else if sz_shutdown w then Inr (w\<lparr>sz_thread := Ended\<rparr>)
      else bindR (zmq_poll (zt_poll os)) (\<lambda>rc.
        if rc = 0 then Inr w
        else bindR (zmq_recv (zt_topic os)) (\<lambda>t. case t of
            None \<Rightarrow> Inr w
          | Some topic \<Rightarrow> ensure (length topic < 100) Buffer_Overflow
              (if zt_more os \<noteq> 1 then Inr w
               else bindR (zmq_recv (zt_data os)) (\<lambda>d. case d of
                   None \<Rightarrow> Inr w
                 | Some bs \<Rightarrow>
                     if zt_more2 os \<noteq> 0 then Inr (w\<lparr>sz_thread := Ended\<rparr>)
                     else ensure (sz_cb w) Bad_Call
                       (Inr (w\<lparr>sz_delivered := sz_delivered w @
                          [fill bs (new_msg [] (of_nat (length bs)))]\<rparr>)))))))"

definition sz_request_shutdown :: "subscribe_zmq \<Rightarrow> subscribe_zmq" where
  "sz_request_shutdown w = w\<lparr>sz_shutdown := True\<rparr>"

section \<open>What is sent\<close>

text \<open>
  Publishing, the rest of \<open>start\<close>, the thread from its beginning and the request to shut down,
  interleaved.
\<close>

datatype pz_event = Publish "byte list" msg | Turn "msg wait list" zmq_answer zmq_answer
  | Store_Endpoint string | Bind "string \<Rightarrow> string option" | Request_End

fun pz_step :: "pz_event \<Rightarrow> publish_zmq \<Rightarrow> publish_zmq res" where
  "pz_step (Publish junk m) p = Inr (pz_publish junk m p)"
| "pz_step (Turn ws a1 a2) p = pz_turn ws a1 a2 p"
| "pz_step (Store_Endpoint endpoint) p = Inr (pz_set_endpoint endpoint p)"
| "pz_step (Bind os) p = (if pz_thread p = Created then pz_bind os p else Inr p)"
| "pz_step Request_End p = Inr (pz_request_shutdown p)"

text \<open>What came into the queue, also by other threads while \<open>pop\<close> waited.\<close>

fun pz_in :: "pz_event \<Rightarrow> publish_zmq \<Rightarrow> msg list" where
  "pz_in (Publish junk m) p = [Copy junk m]"
| "pz_in (Turn ws a1 a2) p =
     (if pz_thread p \<noteq> Looping \<or> pz_shutdown p then [] else pop_ins ws (pz_queue p))"
| "pz_in _ p = []"

fun pz_ins :: "pz_event list \<Rightarrow> publish_zmq \<Rightarrow> msg list" where
  "pz_ins [] p = []"
| "pz_ins (e # es) p = pz_in e p @ (case pz_step e p of Inr p' \<Rightarrow> pz_ins es p' | Inl _ \<Rightarrow> [])"

text \<open>The library takes whole messages: both parts or neither.\<close>

fun whole :: "pz_event \<Rightarrow> bool" where
  "whole (Turn _ a1 a2) = ((\<exists>b. a1 = Zmq_Done b) \<longleftrightarrow> (\<exists>b. a2 = Zmq_Done b))"
| "whole _ = True"

definition two_parts :: "msg \<Rightarrow> (byte list \<times> bool) list" where
  "two_parts m = [(zmq_topic, True), (take (unat (m_sz m)) (m_bytes m), False)]"

lemma subseq_shuffle: "zs \<in> shuffles xs ys \<Longrightarrow> subseq xs zs"
proof (induction xs ys arbitrary: zs rule: shuffles.induct)
  case (3 x xs y ys)
  then show ?case by (auto simp: subseq_Cons')
qed auto

lemma moved_subseq: "moved q ins out q' \<Longrightarrow> subseq (out @ mq_queue q') (mq_queue q @ ins)"
proof -
  assume "moved q ins out q'"
  then obtain gone fr where g: "mq_queue q @ ins = gone @ mq_queue q'" "gone \<in> shuffles out fr" by (auto simp: moved_def)
  have "subseq out gone" by (rule subseq_shuffle[OF g(2)])
  then show ?thesis unfolding g(1) by (rule list_emb_append_mono) simp
qed

text \<open>
  A run of the thread: the messages taken from the queue, those of them the library accepted, and
  what became of the queue.
\<close>

lemma pz_turn_sends:
  assumes ret: "pz_turn ws a1 a2 p = Inr p'" and w: "whole (Turn ws a1 a2)" and run: "\<not> pz_shutdown p" "pz_thread p = Looping"
    and got: "pop ws (pz_queue p) = (Got m, q)"
  shows "\<exists>ms. (ms = [m] \<or> ms = []) \<and> pz_sent p' = pz_sent p @ concat (map two_parts ms)
    \<and> pz_queue p' = q"
proof (cases a1)
  case (Zmq_Done b)
  then obtain b' where "a2 = Zmq_Done b'" using w by auto
  then show ?thesis using ret run got Zmq_Done
    by (intro exI[of _ "[m]"]) (auto simp: pz_turn_def zmq_send_def two_parts_def)
next
  case Zmq_Again
  then have "a2 = Zmq_Again" using ret run got w by (cases a2) (auto simp: pz_turn_def zmq_send_def)
  then show ?thesis using ret run got Zmq_Again
    by (intro exI[of _ "[]"]) (auto simp: pz_turn_def zmq_send_def)
next
  case Zmq_Fails
  then show ?thesis using ret run got by (simp add: pz_turn_def zmq_send_def)
qed

lemma pz_turn_result:
  assumes "pz_turn ws a1 a2 p = Inr p'" and "whole (Turn ws a1 a2)" and "\<not> pz_shutdown p" "pz_thread p = Looping"
  shows "\<exists>ms out. pz_sent p' = pz_sent p @ concat (map two_parts ms) \<and> subseq ms out
    \<and> moved (pz_queue p) (pop_ins ws (pz_queue p)) out (pz_queue p')"
proof -
  let ?r = "fst (pop ws (pz_queue p))" and ?q = "snd (pop ws (pz_queue p))"
  have mv: "moved (pz_queue p) (pop_ins ws (pz_queue p)) (case ?r of Got x \<Rightarrow> [x] | _ \<Rightarrow> []) ?q" by (rule moved_pop)
  show ?thesis
  proof (cases ?r)
    case (Got m)
    then have "pop ws (pz_queue p) = (Got m, ?q)" by (cases "pop ws (pz_queue p)") simp
    from pz_turn_sends[OF assms this] obtain ms where "ms = [m] \<or> ms = []"
      "pz_sent p' = pz_sent p @ concat (map two_parts ms)" "pz_queue p' = ?q"
      by blast
    then show ?thesis using mv Got by (intro exI[of _ ms] exI[of _ "[m]"]) auto
  next
    case Null
    then have "p' = p\<lparr>pz_queue := ?q\<rparr>" using assms by (cases "pop ws (pz_queue p)") (simp add: pz_turn_def)
    then show ?thesis using mv Null by (intro exI[of _ "[]"]) simp
  next
    case Waiting
    then have "p' = p\<lparr>pz_queue := ?q\<rparr>" using assms by (cases "pop ws (pz_queue p)") (simp add: pz_turn_def)
    then show ?thesis using mv Waiting by (intro exI[of _ "[]"]) simp
  qed
qed

lemma pz_step_result:
  assumes ret: "pz_step e p = Inr p'" and w: "whole e"
  shows "\<exists>ms out. pz_sent p' = pz_sent p @ concat (map two_parts ms) \<and> subseq ms out
    \<and> moved (pz_queue p) (pz_in e p) out (pz_queue p')"
proof (cases "\<exists>ws a1 a2. e = Turn ws a1 a2 \<and> \<not> pz_shutdown p \<and> pz_thread p = Looping")
  case True
  then show ?thesis using pz_turn_result[of _ _ _ p p'] ret w by auto
next
  case False
  then have "pz_sent p' = pz_sent p \<and> moved (pz_queue p) (pz_in e p) [] (pz_queue p')"
    using ret by (cases e) (auto simp: pz_publish_def moved_push moved_refl pz_turn_def pz_set_endpoint_def pz_bind_def
        pz_request_shutdown_def ensure_def split: if_splits option.splits)
  then show ?thesis by (intro exI[of _ "[]"]) simp
qed

lemma pz_run_result:
  assumes "foldR pz_step es p = Inr p'" and "list_all whole es"
  shows "\<exists>ms out. pz_sent p' = pz_sent p @ concat (map two_parts ms) \<and> subseq ms out
    \<and> moved (pz_queue p) (pz_ins es p) out (pz_queue p')"
  using assms
proof (induction es arbitrary: p)
  case Nil
  then show ?case by (intro exI[of _ "[]"]) (simp add: moved_refl)
next
  case (Cons e es)
  obtain p1 where p1: "pz_step e p = Inr p1" "foldR pz_step es p1 = Inr p'"
    using Cons.prems(1) by (auto simp: res_simps)
  obtain ms out where IH: "pz_sent p' = pz_sent p1 @ concat (map two_parts ms)" "subseq ms out"
    "moved (pz_queue p1) (pz_ins es p1) out (pz_queue p')"
    using Cons.IH[OF p1(2)] Cons.prems(2) by auto
  obtain ms1 out1 where t: "pz_sent p1 = pz_sent p @ concat (map two_parts ms1)" "subseq ms1 out1"
    "moved (pz_queue p) (pz_in e p) out1 (pz_queue p1)"
    using pz_step_result[OF p1(1)] Cons.prems(2) by auto
  have "moved (pz_queue p) (pz_in e p @ pz_ins es p1) (out1 @ out) (pz_queue p')"
    by (rule moved_trans[OF t(3) IH(3)])
  moreover have "subseq (ms1 @ ms) (out1 @ out)" by (rule list_emb_append_mono[OF t(2) IH(2)])
  ultimately show ?case using t(1) IH(1) p1(1) by (intro exI[of _ "ms1 @ ms"] exI[of _ "out1 @ out"]) simp
qed

section \<open>What is received\<close>

text \<open>A turn in which a message arrives whole, and one in which nothing does.\<close>

fun turn_of :: "msg option \<Rightarrow> zmq_turn" where
  "turn_of None = \<lparr>zt_poll = 0, zt_topic = Zmq_Again, zt_more = 0, zt_data = Zmq_Again, zt_more2 = 0\<rparr>"
| "turn_of (Some m) = \<lparr>zt_poll = 1, zt_topic = Zmq_Done (fst (two_parts m ! 0)), zt_more = 1,
     zt_data = Zmq_Done (fst (two_parts m ! 1)), zt_more2 = 0\<rparr>"

fun arrived :: "msg option list \<Rightarrow> msg list" where
  "arrived [] = []"
| "arrived (None # ks) = arrived ks"
| "arrived (Some m # ks) = m # arrived ks"

lemma length_zmq_topic [simp]: "length zmq_topic = 10"
  by (simp add: zmq_topic_def)

lemma sz_run_result:
  assumes "sz_thread w = Looping" and "\<not> sz_shutdown w" and "sz_cb w" and "\<forall>m \<in> set (arrived ks). msg_ok m"
  shows "\<exists>w'. foldR sz_turn (map turn_of ks) w = Inr w' \<and> sz_delivered w' = sz_delivered w @ arrived ks
    \<and> sz_thread w' = Looping"
  using assms
proof (induction ks arbitrary: w)
  case (Cons k ks)
  show ?case
  proof (cases k)
    case None
    then have "sz_turn (turn_of k) w = Inr w" using Cons.prems by (simp add: sz_turn_def zmq_poll_def)
    then show ?thesis using Cons None by simp
  next
    case (Some m)
    have m: "msg_ok m" using Cons.prems(4) Some by simp
    then have "fill (m_bytes m) (new_msg [] (of_nat (length (m_bytes m)))) = m"
      by (cases m) (simp add: fill_def new_msg_def msg_ok_def)
    then have "sz_turn (turn_of k) w = Inr (w\<lparr>sz_delivered := sz_delivered w @ [m]\<rparr>)"
      using Cons.prems Some m by (simp add: sz_turn_def zmq_poll_def zmq_recv_def two_parts_def msg_ok_def)
    then show ?thesis using Cons.IH[of "w\<lparr>sz_delivered := sz_delivered w @ [m]\<rparr>"] Cons.prems Some by simp
  qed
qed simp

section \<open>Properties\<close>

text \<open>
  C22: What arrives over ZeroMQ was published, in order. Let messages be published while the thread
  of the publisher starts, runs and ends, whatever its queue drops and whichever messages the library
  refuses; the library takes both parts of a message or neither. Then it is given whole messages only, and they
  are some of the published ones, in order. Whatever of these messages the library then delivers,
  in order and whole, with any number of idle turns in between, the callback of the subscriber is
  given exactly these messages, byte for byte, and its thread goes on.
\<close>

theorem zmq_delivers:
  assumes "foldR pz_step es p = Inr p'" and "list_all whole es" and "pz_sent p = []" and "mq_queue (pz_queue p) = []"
    and "\<forall>m \<in> set (pz_ins es p). msg_ok m"
  shows "\<exists>ms. pz_sent p' = concat (map two_parts ms) \<and> subseq ms (pz_ins es p)
    \<and> (\<forall>ks w. subseq (arrived ks) ms \<and> sz_thread w = Looping \<and> \<not> sz_shutdown w \<and> sz_cb w \<longrightarrow>
         (\<exists>w'. foldR sz_turn (map turn_of ks) w = Inr w' \<and> sz_delivered w' = sz_delivered w @ arrived ks
            \<and> sz_thread w' = Looping))"
proof -
  obtain ms out where r: "pz_sent p' = concat (map two_parts ms)" "subseq ms out"
    "moved (pz_queue p) (pz_ins es p) out (pz_queue p')"
    using pz_run_result[OF assms(1,2)] assms(3) by auto
  have "subseq out (out @ mq_queue (pz_queue p'))" by (rule list_emb_prefix) simp
  then have "subseq out (pz_ins es p)" using moved_subseq[OF r(3)] assms(4) subseq_order.trans by fastforce
  then have s: "subseq ms (pz_ins es p)" using r(2) subseq_order.trans by blast
  have ok: "\<forall>m \<in> set (arrived ks). msg_ok m" if "subseq (arrived ks) ms" for ks
    using assms(5) list_emb_set[OF subseq_order.trans[OF that s]] by metis
  show ?thesis
    by (intro exI[of _ ms] conjI r(1) s allI impI) (use sz_run_result ok in blast)
qed

text \<open>An example: one message is published, taken and accepted; another one is still queued.\<close>

definition zmq_node :: publish_zmq where
  "zmq_node = (new_publish_zmq 100)\<lparr>pz_thread := Looping\<rparr>"

definition byte_msg :: "byte \<Rightarrow> msg" where
  "byte_msg b = \<lparr>m_sz = 1, m_bytes = [b]\<rparr>"

lemma zmq_example:
  "\<exists>p'. foldR pz_step [Publish [] (byte_msg 7), Publish [] (byte_msg 8), Turn [] (Zmq_Done []) (Zmq_Done [])] zmq_node = Inr p'
    \<and> pz_sent p' = two_parts (byte_msg 7)"
  "pz_ins [Publish [] (byte_msg 7), Publish [] (byte_msg 8), Turn [] (Zmq_Done []) (Zmq_Done [])] zmq_node
    = [byte_msg 7, byte_msg 8]"
proof -
  have ok: "msg_ok (byte_msg b)" for b by (simp add: byte_msg_def msg_ok_def)
  then show "\<exists>p'. foldR pz_step [Publish [] (byte_msg 7), Publish [] (byte_msg 8), Turn [] (Zmq_Done []) (Zmq_Done [])] zmq_node = Inr p'
    \<and> pz_sent p' = two_parts (byte_msg 7)"
    by (simp add: zmq_node_def new_publish_zmq_def new_mqueue_def pz_publish_def pz_turn_def push_def Copy_id
        zmq_send_def two_parts_def Let_def)
  show "pz_ins [Publish [] (byte_msg 7), Publish [] (byte_msg 8), Turn [] (Zmq_Done []) (Zmq_Done [])] zmq_node
    = [byte_msg 7, byte_msg 8]"
    using ok by (simp add: zmq_node_def new_publish_zmq_def Copy_id split: sum.split)
qed

theorem zmq_delivers_witness:
  "\<exists>p' ms. foldR pz_step [Publish [] (byte_msg 7), Publish [] (byte_msg 8), Turn [] (Zmq_Done []) (Zmq_Done [])] zmq_node = Inr p'
    \<and> pz_sent p' = concat (map two_parts ms) \<and> subseq ms [byte_msg 7, byte_msg 8] \<and> pz_sent p' = two_parts (byte_msg 7)"
proof -
  let ?es = "[Publish [] (byte_msg 7), Publish [] (byte_msg 8), Turn [] (Zmq_Done []) (Zmq_Done [])]"
  obtain p' where p': "foldR pz_step ?es zmq_node = Inr p'" "pz_sent p' = two_parts (byte_msg 7)"
    using zmq_example(1) by blast
  have "list_all whole ?es" "pz_sent zmq_node = []" "mq_queue (pz_queue zmq_node) = []"
    "\<forall>m \<in> set (pz_ins ?es zmq_node). msg_ok m"
    unfolding zmq_example(2) by (simp_all add: zmq_node_def new_publish_zmq_def new_mqueue_def byte_msg_def msg_ok_def)
  from zmq_delivers[OF p'(1) this] obtain ms where "pz_sent p' = concat (map two_parts ms)"
    "subseq ms [byte_msg 7, byte_msg 8]" unfolding zmq_example(2) by blast
  then show ?thesis using p' by metis
qed

text \<open>
  The endpoint of a ZeroMQ publisher depends on a race. \<open>start\<close> creates the thread before it
  stores the endpoint, and the real endpoint is only known once the thread has bound its socket.
  What \<open>endpoint()\<close> gives after \<open>start\<close>, and so what a publication offers, is the real endpoint only
  if the thread binds after the store; if it has not run yet, or if it ran before the store, it
  is the unresolved one, in the latter case for good, and the socket was bound to the empty
  address.
\<close>

theorem zmq_endpoint_race:
  assumes "pz_endpoint p = []" and "os endpoint = Some real" and "length real < 80"
  shows "pz_endpoint (pz_set_endpoint endpoint (pz_create_thread p)) = endpoint
    \<and> (\<exists>p'. pz_bind os (pz_set_endpoint endpoint (pz_create_thread p)) = Inr p'
         \<and> pz_endpoint p' = real \<and> pz_bound p' = Some endpoint)
    \<and> (case pz_bind os (pz_create_thread p) of
         Inl e \<Rightarrow> e = Zmq_Error
       | Inr p' \<Rightarrow> pz_bound p' = Some [] \<and> pz_endpoint (pz_set_endpoint endpoint p') = endpoint)"
  using assms by (auto simp: pz_set_endpoint_def pz_create_thread_def pz_bind_def ensure_def split: option.splits)

theorem zmq_endpoint_race_witness:
  "pz_endpoint (pz_set_endpoint zmq_factory_endpoint (pz_create_thread zmq_CreatePubTransport)) = ''tcp://127.0.0.1:0''
    \<and> pz_bind (\<lambda>a. if a = [] then None else Some ''tcp://127.0.0.1:4000'') (pz_create_thread zmq_CreatePubTransport) = Inl Zmq_Error"
proof -
  let ?os = "\<lambda>a :: string. if a = [] then None else Some ''tcp://127.0.0.1:4000''"
  have "pz_endpoint (new_publish_zmq 100) = []" "?os ''tcp://127.0.0.1:0'' = Some ''tcp://127.0.0.1:4000''"
    "length ''tcp://127.0.0.1:4000'' < 80" by (simp_all add: zmq_CreatePubTransport_def zmq_factory_endpoint_def new_publish_zmq_def)
  from zmq_endpoint_race[where os = ?os, OF this]
  show ?thesis by (auto simp: pz_bind_def pz_create_thread_def zmq_CreatePubTransport_def zmq_factory_endpoint_def new_publish_zmq_def)
qed

text \<open>
  The subscriber asks for every topic (the length given with \<open>ZMQ_SUBSCRIBE\<close> is 0) and copies the
  first part of a message into 100 characters without looking at its size: a peer that sends 100
  bytes or more writes past them.
\<close>

lemma zmq_topic_overflows:
  assumes "sz_thread w = Looping" and "\<not> sz_shutdown w" and "0 < zt_poll os" and "zt_topic os = Zmq_Done topic"
  shows "sz_turn os w = Inl Buffer_Overflow \<longleftrightarrow> 100 \<le> length topic"
  using assms by (auto simp: sz_turn_def zmq_poll_def zmq_recv_def ensure_def split: option.splits zmq_answer.splits)

end
