(* ===== verification/Signal_Pair.thy ===== *)
theory Signal_Pair
  imports Poll_Set
begin

text \<open>
  Models the low-level wrappers of \<open>src/src/io.cpp\<close> and \<open>io.h\<close> on both platforms: the error of the
  last call, switching a descriptor to non-blocking, closing it, making and closing the signal
  pair, and reading and writing it. A table of descriptors records which are open and which of them
  do not block; the answers of the system calls are arguments.

  The lemmas show what \<open>create_signal_pair\<close> leaves open on each of its returns, and that the byte
  counter by which \<open>Poll_Set\<close> models the pipe is exact: over every history of signals and drains the
  real, non-blocking pipe holds that many bytes. The locale \<open>wake_up\<close> states when a signal is
  pending; the pipe and the counter are both instances of it.
\<close>

section \<open>The error of the last call\<close>

datatype platform = Posix | Windows

record last_errors =
  errno :: int
  wsa_error :: int

text \<open>The values of Linux and of \<open>winsock2.h\<close>.\<close>

definition EAGAIN :: int where "EAGAIN = 11"
definition EWOULDBLOCK :: int where "EWOULDBLOCK = 11"
definition WSAEWOULDBLOCK :: int where "WSAEWOULDBLOCK = 10035"

fun last_socket_error :: "platform \<Rightarrow> last_errors \<Rightarrow> int" where
  "last_socket_error Windows e = wsa_error e"
| "last_socket_error Posix e = errno e"

fun last_socket_error_is_would_block :: "platform \<Rightarrow> last_errors \<Rightarrow> bool" where
  "last_socket_error_is_would_block Windows e = (wsa_error e = WSAEWOULDBLOCK)"
| "last_socket_error_is_would_block Posix e = (errno e = EAGAIN \<or> errno e = EWOULDBLOCK)"

section \<open>Descriptors\<close>

text \<open>
  \<open>'d\<close> is \<open>socket_fd_t\<close>: an \<open>int\<close> on POSIX systems, a \<open>SOCKET\<close> (\<open>socket\<close> below) on Windows. A new
  descriptor blocks. Closing one that is not open fails and changes nothing.
\<close>

record 'd fd_table =
  fd_open :: "'d set"
  fd_nonblock :: "'d set"

definition table_ok :: "'d fd_table \<Rightarrow> bool" where
  "table_ok t = (fd_nonblock t \<subseteq> fd_open t)"

definition opened :: "'d \<Rightarrow> 'd fd_table \<Rightarrow> 'd fd_table" where
  "opened d t = t\<lparr>fd_open := insert d (fd_open t), fd_nonblock := fd_nonblock t - {d}\<rparr>"

definition closed :: "'d \<Rightarrow> 'd fd_table \<Rightarrow> 'd fd_table" where
  "closed d t = t\<lparr>fd_open := fd_open t - {d}, fd_nonblock := fd_nonblock t - {d}\<rparr>"

text \<open>What \<open>fcntl(d, F_SETFL, O_NONBLOCK)\<close> or \<open>ioctlsocket(d, FIONBIO, 1)\<close> answers.\<close>

datatype sys_answer = Sys_Ok | Sys_Error int

fun nonblock_call :: "sys_answer \<Rightarrow> 'd \<Rightarrow> 'd fd_table \<Rightarrow> int \<times> 'd fd_table" where
  "nonblock_call Sys_Ok d t = (0, t\<lparr>fd_nonblock := insert d (fd_nonblock t)\<rparr>)"
| "nonblock_call (Sys_Error e) d t = (-1, t)"

definition set_non_blocking :: "sys_answer \<Rightarrow> 'd \<Rightarrow> 'd fd_table \<Rightarrow> int \<times> 'd fd_table" where
  "set_non_blocking a d t =
     (let (ret, t') = nonblock_call a d t
      in if ret \<noteq> 0 then (case a of Sys_Error e \<Rightarrow> e | Sys_Ok \<Rightarrow> 0, t') else (0, t'))"

definition close_socket :: "'d \<Rightarrow> 'd fd_table \<Rightarrow> int \<times> 'd fd_table" where
  "close_socket d t = (if d \<in> fd_open t then (0, closed d t) else (-1, t))"

lemma set_non_blocking_simps [simp]:
  "set_non_blocking Sys_Ok d t = (0, t\<lparr>fd_nonblock := insert d (fd_nonblock t)\<rparr>)"
  "set_non_blocking (Sys_Error e) d t = (e, t)"
  by (simp_all add: set_non_blocking_def)

section \<open>The signal pair\<close>

text \<open>
  On POSIX systems the pair is a pipe: \<open>p\<close> is what \<open>pipe\<close> gives, \<open>f0\<close> and \<open>f1\<close> what the two \<open>fcntl\<close>
  answer. The result is the returned number, the array and the table. The two error returns after
  \<open>pipe\<close> close nothing.
\<close>

definition create_signal_pair ::
  "(int \<times> int) option \<Rightarrow> sys_answer \<Rightarrow> sys_answer \<Rightarrow> int fd_table
   \<Rightarrow> int \<times> (int \<times> int) \<times> int fd_table" where
  "create_signal_pair p f0 f1 t =
     (case p of
        None \<Rightarrow> (-1, (-1, -1), t)
      | Some (r, w) \<Rightarrow>
          let (e0, t1) = nonblock_call f0 r (opened w (opened r t))
          in if e0 = -1 then (-1, (r, w), t1)
             else let (e1, t2) = nonblock_call f1 w t1
                  in if e1 = -1 then (-1, (r, w), t2) else (0, (r, w), t2))"

definition close_signal_pair :: "'d \<times> 'd \<Rightarrow> 'd fd_table \<Rightarrow> 'd fd_table" where
  "close_signal_pair pair t = snd (close_socket (snd pair) (snd (close_socket (fst pair) t)))"

text \<open>
  On Windows it is a pair of sockets connected over the loopback interface. The answers, in the
  order of the calls; a failed call that should give a socket gives \<open>INVALID_SOCKET\<close>.
\<close>

type_synonym socket = "64 word"

definition NO_SOCKET :: socket where "NO_SOCKET = -1"

record pair_answers =
  a_listener :: socket
  a_setsockopt :: bool
  a_bind :: bool
  a_getsockname :: bool
  a_listen :: bool
  a_first :: socket
  a_connect :: bool
  a_accepted :: socket
  a_nb0 :: sys_answer
  a_nb1 :: sys_answer

definition got_socket :: "socket \<Rightarrow> socket fd_table \<Rightarrow> socket fd_table" where
  "got_socket s t = (if s = NO_SOCKET then t else opened s t)"

definition closesocket :: "socket \<Rightarrow> socket fd_table \<Rightarrow> socket fd_table" where
  "closesocket s t = snd (close_socket s t)"

definition win_create_signal_pair ::
  "pair_answers \<Rightarrow> socket fd_table \<Rightarrow> int \<times> (socket \<times> socket) \<times> socket fd_table" where
  "win_create_signal_pair a t =
     (let l = a_listener a; t1 = got_socket l t
      in if l = NO_SOCKET then (-1, (NO_SOCKET, NO_SOCKET), t1)
         else if \<not> a_setsockopt a then (-1, (NO_SOCKET, NO_SOCKET), closesocket l t1)
         else if \<not> a_bind a then (-1, (NO_SOCKET, NO_SOCKET), closesocket l t1)
         else if \<not> a_getsockname a then (-1, (NO_SOCKET, NO_SOCKET), closesocket l t1)
         else if \<not> a_listen a then (-1, (NO_SOCKET, NO_SOCKET), closesocket l t1)
         else
         let s0 = a_first a; t2 = got_socket s0 t1
         in if s0 = NO_SOCKET then (-1, (s0, NO_SOCKET), closesocket s0 (closesocket l t2))
            else if \<not> a_connect a then (-1, (s0, NO_SOCKET), closesocket s0 (closesocket l t2))
            else
            let s1 = a_accepted a; t3 = got_socket s1 t2
            in if s1 = NO_SOCKET
               then (-1, (s0, s1), closesocket s1 (closesocket s0 (closesocket l t3)))
               else
               let (e0, t4) = set_non_blocking (a_nb0 a) s0 t3
               in if e0 \<noteq> 0
                  then (-1, (s0, s1), closesocket s1 (closesocket s0 (closesocket l t4)))
                  else
                  let (e1, t5) = set_non_blocking (a_nb1 a) s1 t4
                  in if e1 \<noteq> 0
                     then (-1, (s0, s1), closesocket s1 (closesocket s0 (closesocket l t5)))
                     else (0, (s0, s1), closesocket l t5))"

section \<open>What the pair leaves open\<close>

lemma close_nonblock:
  "table_ok t \<Longrightarrow> d \<notin> fd_open t \<Longrightarrow> fd_nonblock t - {d} = fd_nonblock t"
  by (auto simp: table_ok_def)

lemma snd_close_socket: "table_ok t \<Longrightarrow> snd (close_socket d t) = closed d t"
  by (auto simp: close_socket_def closed_def close_nonblock)

lemma table_ok_ops [simp]:
  "table_ok t \<Longrightarrow> table_ok (opened d t)"
  "table_ok t \<Longrightarrow> table_ok (closed d t)"
  "table_ok (t\<lparr>fd_nonblock := insert d N\<rparr>) \<longleftrightarrow> d \<in> fd_open t \<and> N \<subseteq> fd_open t"
  by (auto simp: table_ok_def opened_def closed_def)

text \<open>
  The laws of the system calls: a new descriptor is not one that is open already, and the error of
  a call that failed is not 0.
\<close>

definition fresh_pipe :: "(int \<times> int) option \<Rightarrow> int fd_table \<Rightarrow> bool" where
  "fresh_pipe p t =
     (case p of None \<Rightarrow> True
      | Some (r, w) \<Rightarrow> r \<noteq> w \<and> r \<notin> fd_open t \<and> w \<notin> fd_open t)"

fun real_error :: "sys_answer \<Rightarrow> bool" where
  "real_error Sys_Ok = True"
| "real_error (Sys_Error e) = (e \<noteq> 0)"

definition fresh_sockets :: "pair_answers \<Rightarrow> socket fd_table \<Rightarrow> bool" where
  "fresh_sockets a t =
     (NO_SOCKET \<notin> fd_open t \<and> a_listener a \<notin> fd_open t
      \<and> a_first a \<notin> fd_open t \<and> a_accepted a \<notin> fd_open t
      \<and> (a_first a = NO_SOCKET \<or> a_first a \<noteq> a_listener a)
      \<and> (a_accepted a = NO_SOCKET \<or> a_accepted a \<noteq> a_listener a \<and> a_accepted a \<noteq> a_first a)
      \<and> real_error (a_nb0 a) \<and> real_error (a_nb1 a))"

definition all_succeed :: "pair_answers \<Rightarrow> bool" where
  "all_succeed a =
     (a_listener a \<noteq> NO_SOCKET \<and> a_setsockopt a \<and> a_bind a \<and> a_getsockname a \<and> a_listen a
      \<and> a_first a \<noteq> NO_SOCKET \<and> a_connect a \<and> a_accepted a \<noteq> NO_SOCKET
      \<and> a_nb0 a = Sys_Ok \<and> a_nb1 a = Sys_Ok)"

text \<open>A usable pair: two new descriptors, open, neither of which blocks.\<close>

definition usable_pair :: "'d \<times> 'd \<Rightarrow> 'd fd_table \<Rightarrow> 'd fd_table \<Rightarrow> bool" where
  "usable_pair pair t t' =
     (fst pair \<noteq> snd pair \<and> fst pair \<notin> fd_open t \<and> snd pair \<notin> fd_open t
      \<and> t' = \<lparr>fd_open = insert (fst pair) (insert (snd pair) (fd_open t)),
               fd_nonblock = insert (fst pair) (insert (snd pair) (fd_nonblock t))\<rparr>)"

lemma usable_pair_closes:
  assumes "table_ok t" and "usable_pair pair t t'"
  shows "close_signal_pair pair t' = t"
proof -
  have "fst pair \<notin> fd_nonblock t" "snd pair \<notin> fd_nonblock t"
    using assms by (auto simp: table_ok_def usable_pair_def)
  then show ?thesis using assms(2)
    by (cases t) (auto simp: usable_pair_def close_signal_pair_def close_socket_def closed_def)
qed

lemma create_pair_ok:
  assumes "table_ok t" and "fresh_pipe (Some (r, w)) t"
  shows "create_signal_pair (Some (r, w)) f0 f1 t =
    (if f0 = Sys_Ok \<and> f1 = Sys_Ok then 0 else -1, (r, w),
     \<lparr>fd_open = insert r (insert w (fd_open t)),
      fd_nonblock = (if f0 = Sys_Ok then insert r {} else {})
                    \<union> (if f0 = Sys_Ok \<and> f1 = Sys_Ok then insert w {} else {}) \<union> fd_nonblock t\<rparr>)"
proof -
  have nb: "r \<notin> fd_nonblock t" "w \<notin> fd_nonblock t"
    using assms by (auto simp: table_ok_def fresh_pipe_def)
  show ?thesis using assms nb
    by (cases f0; cases f1; cases t)
       (auto simp: create_signal_pair_def opened_def fresh_pipe_def)
qed

lemma closesocket_got:
  assumes "table_ok t" and "s \<notin> fd_open t"
  shows "closesocket s (got_socket s t) = t"
  using assms by (cases t)
    (auto simp: closesocket_def got_socket_def close_socket_def opened_def closed_def table_ok_def)

text \<open>Closing what was opened, in any state in between, gives the table back.\<close>

lemma socket_calls [simp]:
  "d \<in> fd_open t \<Longrightarrow> closesocket d t = closed d t"
  "closesocket NO_SOCKET (t\<lparr>fd_nonblock := N\<rparr>) = (if NO_SOCKET \<in> fd_open t
     then closed NO_SOCKET (t\<lparr>fd_nonblock := N\<rparr>) else t\<lparr>fd_nonblock := N\<rparr>)"
  "NO_SOCKET \<notin> fd_open t \<Longrightarrow> closesocket NO_SOCKET t = t"
  "s \<noteq> NO_SOCKET \<Longrightarrow> got_socket s t = opened s t"
  "got_socket NO_SOCKET t = t"
  "fd_open (opened d t) = insert d (fd_open t)"
  "fd_open (closed d t) = fd_open t - {d}"
  "fd_nonblock (opened d t) = fd_nonblock t - {d}"
  "fd_nonblock (closed d t) = fd_nonblock t - {d}"
  by (auto simp: closesocket_def close_socket_def got_socket_def opened_def closed_def)

lemma fd_table_eqI:
  "fd_open (t::'d fd_table) = fd_open t' \<Longrightarrow> fd_nonblock t = fd_nonblock t' \<Longrightarrow> t = t'"
  by (cases t; cases t') simp

lemma win_pair_succeeds:
  assumes "table_ok t" and "fresh_sockets a t" and "all_succeed a"
  shows "\<exists>t'. win_create_signal_pair a t = (0, (a_first a, a_accepted a), t')
           \<and> usable_pair (a_first a, a_accepted a) t t'"
proof -
  have l: "a_listener a \<notin> fd_nonblock t"
    using assms(1,2) by (auto simp: table_ok_def fresh_sockets_def)
  show ?thesis using assms l
    by (auto simp: win_create_signal_pair_def all_succeed_def fresh_sockets_def usable_pair_def Let_def
        intro!: fd_table_eqI)
qed

lemma win_pair_fails:
  assumes "table_ok t" and "fresh_sockets a t" and "\<not> all_succeed a"
  shows "\<exists>pair. win_create_signal_pair a t = (-1, pair, t)"
proof -
  have nb: "a_listener a \<notin> fd_nonblock t" "a_first a \<notin> fd_nonblock t"
      "a_accepted a \<notin> fd_nonblock t" "NO_SOCKET \<notin> fd_nonblock t"
    using assms(1,2) by (auto simp: table_ok_def fresh_sockets_def)
  consider "a_listener a = NO_SOCKET"
    | "a_listener a \<noteq> NO_SOCKET" "\<not> (a_setsockopt a \<and> a_bind a \<and> a_getsockname a \<and> a_listen a)"
    | "a_listener a \<noteq> NO_SOCKET" "a_setsockopt a" "a_bind a" "a_getsockname a" "a_listen a"
      "a_first a = NO_SOCKET \<or> \<not> a_connect a"
    | "a_listener a \<noteq> NO_SOCKET" "a_setsockopt a" "a_bind a" "a_getsockname a" "a_listen a"
      "a_first a \<noteq> NO_SOCKET" "a_connect a" "a_accepted a = NO_SOCKET"
    | "a_listener a \<noteq> NO_SOCKET" "a_setsockopt a" "a_bind a" "a_getsockname a" "a_listen a"
      "a_first a \<noteq> NO_SOCKET" "a_connect a" "a_accepted a \<noteq> NO_SOCKET"
      "a_nb0 a \<noteq> Sys_Ok \<or> a_nb1 a \<noteq> Sys_Ok"
    using assms(3) by (auto simp: all_succeed_def)
  then show ?thesis
  proof cases
    case 5
    then show ?thesis using assms(2) nb
      by (cases "a_nb0 a"; cases "a_nb1 a")
         (auto simp: win_create_signal_pair_def fresh_sockets_def Let_def intro!: fd_table_eqI)
  qed (use assms(2) nb in \<open>auto simp: win_create_signal_pair_def fresh_sockets_def Let_def
        intro!: fd_table_eqI\<close>)
qed

section \<open>Reading and writing the pair\<close>

text \<open>
  The pipe: the bytes in it, how many it takes, and whether its ends block. A write of at most
  \<open>PIPE_BUF\<close> bytes, the only kind there is here, happens as a whole or not at all. The result is
  what the call returns, \<open>None\<close> if it blocks.
\<close>

record signal_pipe =
  sp_data :: "byte list"
  sp_capacity :: nat
  sp_nonblock :: bool

definition pair_pipe :: "nat \<Rightarrow> int \<times> int \<Rightarrow> int fd_table \<Rightarrow> signal_pipe" where
  "pair_pipe cap pair t =
     \<lparr>sp_data = [], sp_capacity = cap,
      sp_nonblock = (fst pair \<in> fd_nonblock t \<and> snd pair \<in> fd_nonblock t)\<rparr>"

definition write_signal :: "byte list \<Rightarrow> signal_pipe \<Rightarrow> (int \<times> signal_pipe) option" where
  "write_signal buf p =
     (if length (sp_data p) + length buf \<le> sp_capacity p
      then Some (int (length buf), p\<lparr>sp_data := sp_data p @ buf\<rparr>)
      else if sp_nonblock p then Some (-1, p) else None)"

definition read_signal :: "nat \<Rightarrow> signal_pipe \<Rightarrow> (int \<times> byte list \<times> signal_pipe) option" where
  "read_signal n p =
     (if sp_data p = [] then if sp_nonblock p then Some (-1, [], p) else None
      else Some (int (length (take n (sp_data p))), take n (sp_data p),
                 p\<lparr>sp_data := drop n (sp_data p)\<rparr>))"

text \<open>
  \<open>PollSet::signal\<close> and \<open>PollSet::onLocalPipeEvents\<close> on this pipe; \<open>got_lock\<close> tells whether
  \<open>signal_mutex_\<close> was free.
\<close>

definition pipe_signal :: "bool \<Rightarrow> signal_pipe \<Rightarrow> signal_pipe option" where
  "pipe_signal got_lock p =
     (if got_lock then map_option snd (write_signal [0] p) else Some p)"

function pipe_drain :: "signal_pipe \<Rightarrow> signal_pipe option" where
  "pipe_drain p =
     (case read_signal 1 p of
        None \<Rightarrow> None
      | Some (k, b, p') \<Rightarrow> if k > 0 then pipe_drain p' else Some p')"
  by auto
termination
  by (relation "measure (length \<circ> sp_data)") (auto simp: read_signal_def split: if_splits)

declare pipe_drain.simps [simp del]

definition pipe_onLocalPipeEvents :: "u32 \<Rightarrow> signal_pipe \<Rightarrow> signal_pipe option" where
  "pipe_onLocalPipeEvents events p =
     (if events AND POLLIN \<noteq> 0 then pipe_drain p else Some p)"

text \<open>A drain ends exactly if the pipe does not block, and then nothing is left.\<close>

lemma pipe_drain_eq:
  "pipe_drain p = (if sp_nonblock p then Some (p\<lparr>sp_data := []\<rparr>) else None)"
proof (induction p rule: pipe_drain.induct)
  case (1 p)
  show ?case
  proof (cases "sp_data p")
    case Nil
    then have "p\<lparr>sp_data := []\<rparr> = p" by (cases p) simp
    then show ?thesis using Nil by (simp add: pipe_drain.simps[of p] read_signal_def)
  next
    case (Cons b bs)
    define q where "q = p\<lparr>sp_data := bs\<rparr>"
    have r: "read_signal 1 p = Some (1, [b], q)"
      using Cons by (simp add: read_signal_def q_def)
    have "pipe_drain p = pipe_drain q" by (subst pipe_drain.simps) (simp add: r[unfolded One_nat_def])
    also have "\<dots> = (if sp_nonblock q then Some (q\<lparr>sp_data := []\<rparr>) else None)"
      by (rule 1[OF r refl refl]) simp
    finally show ?thesis by (simp add: q_def)
  qed
qed

section \<open>Signals and drains over a history\<close>

datatype pipe_op = Raise bool | Handle u32

fun pipe_step :: "pipe_op \<Rightarrow> signal_pipe \<Rightarrow> signal_pipe option" where
  "pipe_step (Raise got_lock) p = pipe_signal got_lock p"
| "pipe_step (Handle events) p = pipe_onLocalPipeEvents events p"

fun pipe_run :: "pipe_op list \<Rightarrow> signal_pipe \<Rightarrow> signal_pipe option" where
  "pipe_run [] p = Some p"
| "pipe_run (e # es) p = (case pipe_step e p of None \<Rightarrow> None | Some q \<Rightarrow> pipe_run es q)"

text \<open>The same history on the poll set, whose pipe is a number.\<close>

fun set_step :: "pipe_op \<Rightarrow> 'h poll_set \<Rightarrow> 'h poll_set" where
  "set_step (Raise got_lock) s = (if got_lock then signal s else s)"
| "set_step (Handle events) s = onLocalPipeEvents events s"

text \<open>
  Whether a signal is pending, from the history alone: the last signal that got the lock came after
  the last drain. A call that finds the lock taken leaves things as they are. If the holder has
  written its byte but not yet released the lock, and the poll thread has drained it meanwhile, such a
  call is lost: \<open>[Raise True, Handle POLLIN, Raise False]\<close> leaves nothing pending.
\<close>

fun wake_after :: "pipe_op \<Rightarrow> bool \<Rightarrow> bool" where
  "wake_after (Raise got_lock) b = (b \<or> got_lock)"
| "wake_after (Handle events) b = (b \<and> events AND POLLIN = 0)"

locale wake_up =
  fixes step :: "pipe_op \<Rightarrow> 's \<Rightarrow> 's"
    and pending :: "'s \<Rightarrow> bool"
    and fit :: "'s \<Rightarrow> bool"
  assumes fit_step: "fit s \<Longrightarrow> fit (step e s)"
    and pending_step: "fit s \<Longrightarrow> pending (step e s) = wake_after e (pending s)"
begin

lemma pending_run: "fit s \<Longrightarrow> pending (fold step es s) = fold wake_after es (pending s)"
  by (induction es arbitrary: s) (simp_all add: fit_step pending_step)

lemma signalled:
  assumes "fit s" and "\<forall>e \<in> set es. \<exists>b. e = Raise b"
  shows "pending (fold step (Raise True # es) s)"
proof -
  have "fold wake_after es True" using assms(2) by (induction es) auto
  then show ?thesis using pending_run[OF assms(1), of "Raise True # es"] by simp
qed

end

definition set_fit :: "'h poll_set \<Rightarrow> bool" where
  "set_fit s = (pipe_bytes s \<le> pipe_capacity s \<and> 0 < pipe_capacity s)"

definition pipe_fit :: "signal_pipe \<Rightarrow> bool" where
  "pipe_fit p = (length (sp_data p) \<le> sp_capacity p \<and> 0 < sp_capacity p \<and> sp_nonblock p)"

definition pipe_next :: "pipe_op \<Rightarrow> signal_pipe \<Rightarrow> signal_pipe" where
  "pipe_next e p = (case pipe_step e p of None \<Rightarrow> p | Some q \<Rightarrow> q)"

lemma pipe_step_fit:
  assumes "pipe_fit p"
  shows "pipe_step e p = Some (pipe_next e p)"
  using assms by (cases e)
    (auto simp: pipe_next_def pipe_fit_def pipe_signal_def write_signal_def pipe_drain_eq
      pipe_onLocalPipeEvents_def)

lemma drain_0 [simp]: "drain n = 0"
  by (induction n) simp_all

interpretation set_wake: wake_up set_step "\<lambda>s. pipe_bytes s > 0" set_fit
proof
  fix s :: "'h poll_set" and e assume "set_fit s"
  then show "set_fit (set_step e s)" "(pipe_bytes (set_step e s) > 0) = wake_after e (pipe_bytes s > 0)"
    by (cases e; simp add: set_fit_def signal_def onLocalPipeEvents_def)+
qed

interpretation pipe_wake: wake_up pipe_next "\<lambda>p. sp_data p \<noteq> []" pipe_fit
proof
  fix p :: signal_pipe and e assume "pipe_fit p"
  then show "pipe_fit (pipe_next e p)" "(sp_data (pipe_next e p) \<noteq> []) = wake_after e (sp_data p \<noteq> [])"
    by (cases e; auto simp: pipe_fit_def pipe_next_def pipe_signal_def write_signal_def pipe_drain_eq
        pipe_onLocalPipeEvents_def)+
qed

lemma pipe_run_fit:
  "pipe_fit p \<Longrightarrow> pipe_run es p = Some (fold pipe_next es p)"
  by (induction es arbitrary: p) (simp_all add: pipe_step_fit pipe_wake.fit_step)

text \<open>The simulation: the counter of the poll set is the length of the pipe.\<close>

definition pipe_rel :: "signal_pipe \<Rightarrow> 'h poll_set \<Rightarrow> bool" where
  "pipe_rel p s = (pipe_bytes s = length (sp_data p) \<and> pipe_capacity s = sp_capacity p)"

lemma pipe_rel_step:
  assumes "pipe_fit p" and "pipe_rel p s"
  shows "pipe_rel (pipe_next e p) (set_step e s)"
  using assms by (cases e)
    (auto simp: pipe_fit_def pipe_rel_def pipe_next_def pipe_signal_def write_signal_def pipe_drain_eq
      pipe_onLocalPipeEvents_def signal_def onLocalPipeEvents_def)

lemma pipe_rel_run:
  "pipe_fit p \<Longrightarrow> pipe_rel p s \<Longrightarrow> pipe_rel (fold pipe_next es p) (fold set_step es s)"
  by (induction es arbitrary: p s) (simp_all add: pipe_rel_step pipe_wake.fit_step)

section \<open>The properties\<close>

text \<open>
  C30: on a POSIX system \<open>create_signal_pair\<close> returns 0 exactly if all its calls succeed. Then the pair
  consists of two new, open, non-blocking descriptors, and \<open>close_signal_pair\<close> gives the table of
  descriptors back as it was. Otherwise it returns -1, and what \<open>pipe\<close> opened stays open: an error
  of \<open>fcntl\<close> leaks both ends.
\<close>

theorem signal_pair_posix:
  assumes "table_ok t" and "fresh_pipe p t" and "create_signal_pair p f0 f1 t = (ret, pair, t')"
  shows "if p \<noteq> None \<and> f0 = Sys_Ok \<and> f1 = Sys_Ok
         then ret = 0 \<and> p = Some pair \<and> usable_pair pair t t' \<and> close_signal_pair pair t' = t
         else ret = -1
              \<and> fd_open t' = fd_open t \<union> (case p of None \<Rightarrow> {} | Some (r, w) \<Rightarrow> {r, w})"
proof (cases p)
  case None
  then show ?thesis using assms(3) by (simp add: create_signal_pair_def)
next
  case (Some rw)
  obtain r w where rw: "rw = (r, w)" by (cases rw)
  have ok: "fresh_pipe (Some (r, w)) t" using assms(2) Some rw by simp
  note c = assms(3)[unfolded Some rw create_pair_ok[OF assms(1) ok], symmetric]
  show ?thesis
  proof (cases "f0 = Sys_Ok \<and> f1 = Sys_Ok")
    case True
    have "usable_pair pair t t'" using c ok True by (simp add: usable_pair_def fresh_pipe_def insert_commute)
    then show ?thesis using c Some rw True usable_pair_closes[OF assms(1)] by simp
  next
    case False
    then show ?thesis using c Some rw by (auto simp only: prod.inject) auto
  qed
qed

definition std_fds :: "int fd_table" where
  "std_fds = \<lparr>fd_open = {0, 1, 2}, fd_nonblock = {}\<rparr>"

lemma signal_pair_posix_witness:
  "let (ret, pair, t) = create_signal_pair (Some (3, 4)) Sys_Ok (Sys_Error 9) std_fds
   in ret = -1 \<and> fd_open t = {0, 1, 2} \<union> {3, 4}"
proof -
  have ok: "table_ok std_fds" "fresh_pipe (Some (3, 4)) std_fds"
    by (simp_all add: table_ok_def fresh_pipe_def std_fds_def)
  obtain ret pair t where c: "create_signal_pair (Some (3, 4)) Sys_Ok (Sys_Error 9) std_fds = (ret, pair, t)"
    by (cases "create_signal_pair (Some (3, 4)) Sys_Ok (Sys_Error 9) std_fds")
  show ?thesis using signal_pair_posix[OF ok c] by (simp add: c) (simp add: std_fds_def)
qed

text \<open>
  C31: on Windows \<open>create_signal_pair\<close> is all or nothing, whichever of its eleven calls fails. It returns
  0 exactly if all succeed, with two new, open, non-blocking sockets and the listener closed;
  otherwise it returns -1 and the table of sockets is as before.
\<close>

theorem signal_pair_windows:
  assumes "table_ok t" and "fresh_sockets a t"
  shows "if all_succeed a
         then \<exists>t'. win_create_signal_pair a t = (0, (a_first a, a_accepted a), t')
                \<and> usable_pair (a_first a, a_accepted a) t t'
                \<and> close_signal_pair (a_first a, a_accepted a) t' = t
         else \<exists>pair. win_create_signal_pair a t = (-1, pair, t)"
  using win_pair_succeeds[OF assms] win_pair_fails[OF assms] usable_pair_closes[OF assms(1)]
  by auto

definition sample_answers :: "pair_answers" where
  "sample_answers =
     \<lparr>a_listener = 8, a_setsockopt = True, a_bind = True, a_getsockname = True, a_listen = True,
      a_first = 12, a_connect = True, a_accepted = 16, a_nb0 = Sys_Ok, a_nb1 = Sys_Error 10038\<rparr>"

lemma signal_pair_windows_witness:
  "\<exists>pair. win_create_signal_pair sample_answers \<lparr>fd_open = {4}, fd_nonblock = {4}\<rparr>
     = (-1, pair, \<lparr>fd_open = {4}, fd_nonblock = {4}\<rparr>)"
  using signal_pair_windows[of "\<lparr>fd_open = {4}, fd_nonblock = {4}\<rparr>" sample_answers]
  by (simp add: table_ok_def fresh_sockets_def sample_answers_def all_succeed_def NO_SOCKET_def)

text \<open>
  C17: the pair that \<open>create_signal_pair\<close> made carries the signals of a poll set as \<open>Poll_Set\<close> models
  them. After the two signals of the constructor and any history of signals and drains no read or
  write has blocked, the pipe holds as many bytes as the poll set counts, and it has something to
  read, so that \<open>poll\<close> returns, exactly if the last signal came after the last drain. A signal is a
  call of \<open>PollSet::signal\<close> that gets the lock (\<open>Raise True\<close>); one that does not (\<open>Raise False\<close>) writes
  nothing, and the pair then wakes \<open>poll\<close> only if the byte of the lock's holder is still there.
\<close>

theorem signal_pipe_refines:
  assumes "table_ok t" and "fresh_pipe p t" and "create_signal_pair p f0 f1 t = (0, pair, t')"
    and "0 < cap" and "new_poll_set (Some pair) cap = Inr s"
  shows "\<exists>q. pipe_run (Raise True # Raise True # es) (pair_pipe cap pair t') = Some q
           \<and> pipe_bytes (fold set_step es s) = length (sp_data q)
           \<and> (sp_data q \<noteq> []) = fold wake_after es True"
proof -
  obtain r w where pair: "pair = (r, w)" by (cases pair)
  have p: "p = Some (r, w)" "f0 = Sys_Ok" "f1 = Sys_Ok"
    using assms(1-3) pair create_pair_ok[of t] by (auto simp: create_signal_pair_def
        split: option.splits prod.splits if_splits elim!: nonblock_call.elims)
  have fit: "pipe_fit (pair_pipe cap pair t')"
    using assms pair p create_pair_ok[of t r w f0 f1] by (auto simp: pipe_fit_def pair_pipe_def)
  let ?q = "fold pipe_next [Raise True, Raise True] (pair_pipe cap pair t')"
  have rel: "pipe_rel ?q s" using assms(4,5) pair
    by (auto simp: pipe_rel_def pair_pipe_def new_poll_set_def addSocket_def addEvents_def signal_def
        pipe_next_def pipe_signal_def write_signal_def fit split: option.splits)
  have fit': "pipe_fit ?q" using fit by (simp add: pipe_wake.fit_step)
  have "pipe_run (Raise True # Raise True # es) (pair_pipe cap pair t') = Some (fold pipe_next es ?q)"
    using pipe_run_fit[OF fit, of "Raise True # Raise True # es"] by simp
  moreover have "pipe_rel (fold pipe_next es ?q) (fold set_step es s)"
    by (rule pipe_rel_run[OF fit' rel])
  moreover have "(sp_data (fold pipe_next es ?q) \<noteq> []) = fold wake_after es True"
    using pipe_wake.pending_run[OF fit, of "Raise True # Raise True # es"] by simp
  ultimately show ?thesis by (auto simp: pipe_rel_def)
qed

lemma signal_pipe_refines_witness:
  "\<exists>q. pipe_run [Raise True, Raise True, Handle POLLIN, Raise True]
         (pair_pipe 16 (3, 4) (snd (snd (create_signal_pair (Some (3, 4)) Sys_Ok Sys_Ok std_fds)))) = Some q
       \<and> length (sp_data q) = 1"
proof -
  have ok: "table_ok std_fds" "fresh_pipe (Some (3, 4)) std_fds"
    by (simp_all add: table_ok_def fresh_pipe_def std_fds_def)
  obtain ret pair t where c: "create_signal_pair (Some (3, 4)) Sys_Ok Sys_Ok std_fds = (ret, pair, t)"
    by (cases "create_signal_pair (Some (3, 4)) Sys_Ok Sys_Ok std_fds")
  then have eq: "ret = 0" "pair = (3, 4)" using create_pair_ok[OF ok, of Sys_Ok Sys_Ok] by simp_all
  obtain s :: "nat poll_set" where s: "new_poll_set (Some pair) 16 = Inr s" "pipe_bytes s = 2" "pipe_capacity s = 16"
    by (simp add: eq new_poll_set_def addSocket_def addEvents_def signal_def)
  have "pipe_bytes (fold set_step [Handle POLLIN, Raise True] s) = 1"
    using s by (simp add: signal_def onLocalPipeEvents_def POLLIN_def)
  with signal_pipe_refines[OF ok c[unfolded eq(1)] _ s(1), of "[Handle POLLIN, Raise True]"]
  show ?thesis by (auto simp: c eq(2))
qed

end
