(* ===== verification/Win_Poll.thy ===== *)
theory Win_Poll
  imports Signal_Pair
begin

text \<open>
  Models the Windows branch of \<open>poll_sockets\<close> in \<open>src/src/io.cpp\<close>, which emulates \<open>poll\<close> by \<open>select\<close>
  with the event bits of \<open>io.h\<close>. What \<open>select\<close> finds and what a peek with \<open>recv\<close> answers are
  arguments; the sets that \<open>select\<close> gets hold at most \<open>FD_SETSIZE\<close> sockets and \<open>FD_SET\<close> ignores the rest.

  The lemmas show that for up to 64 sockets the emulation computes what a reference definition of
  \<open>poll\<close> says, and that of more it only ever sees the first 64 that ask for each kind of event.
\<close>

section \<open>Types and event bits\<close>

record win_pollfd =
  wp_fd :: socket
  wp_events :: u16
  wp_revents :: u16

definition W_RDNORM :: u16 where "W_RDNORM = 0x100"
definition W_RDBAND :: u16 where "W_RDBAND = 0x200"
definition W_IN :: u16 where "W_IN = W_RDNORM OR W_RDBAND"
definition W_PRI :: u16 where "W_PRI = 0x400"
definition W_WRNORM :: u16 where "W_WRNORM = 0x10"
definition W_OUT :: u16 where "W_OUT = W_WRNORM"
definition W_WRBAND :: u16 where "W_WRBAND = 0x20"
definition W_HUP :: u16 where "W_HUP = 0x2"
definition W_NVAL :: u16 where "W_NVAL = 0x4"

lemmas win_bits = W_RDNORM_def W_RDBAND_def W_IN_def W_PRI_def W_WRNORM_def W_OUT_def W_WRBAND_def
  W_HUP_def W_NVAL_def

text \<open>The events that put a socket into each of the three sets.\<close>

definition READ_MASK :: u16 where "READ_MASK = W_IN OR W_RDNORM"
definition WRITE_MASK :: u16 where "WRITE_MASK = W_OUT OR W_WRNORM OR W_WRBAND"
definition EXCEPT_MASK :: u16 where "EXCEPT_MASK = W_PRI OR W_RDBAND"
definition ANY_MASK :: u16 where
  "ANY_MASK = W_IN OR W_OUT OR W_PRI OR W_RDNORM OR W_RDBAND OR W_WRNORM OR W_WRBAND"

lemmas win_masks = READ_MASK_def WRITE_MASK_def EXCEPT_MASK_def ANY_MASK_def

definition EFAULT :: int where "EFAULT = 14"
definition EINVAL :: int where "EINVAL = 22"

text \<open>\<open>WSAESHUTDOWN\<close>, \<open>WSAECONNRESET\<close>, \<open>WSAECONNABORTED\<close> and \<open>WSAENETRESET\<close>.\<close>

definition hangup_codes :: "int list" where
  "hangup_codes = [10058, 10054, 10053, 10052]"

section \<open>The sets handed to select\<close>

definition FD_SETSIZE :: nat where "FD_SETSIZE = 64"

definition fd_set_add :: "socket \<Rightarrow> socket list \<Rightarrow> socket list" where
  "fd_set_add s S = (if s \<in> set S \<or> length S \<ge> FD_SETSIZE then S else S @ [s])"

record poll_sets =
  ps_read :: "socket list"
  ps_write :: "socket list"
  ps_except :: "socket list"
  ps_max :: socket
  ps_rc :: int

definition collect_fd :: "win_pollfd \<Rightarrow> poll_sets \<Rightarrow> poll_sets" where
  "collect_fd u s =
     (if wp_fd u = NO_SOCKET then s
      else let
        s1 = (if wp_events u AND READ_MASK \<noteq> 0
              then s\<lparr>ps_read := fd_set_add (wp_fd u) (ps_read s)\<rparr> else s);
        s2 = (if wp_events u AND WRITE_MASK \<noteq> 0
              then s1\<lparr>ps_write := fd_set_add (wp_fd u) (ps_write s1)\<rparr> else s1);
        s3 = (if wp_events u AND EXCEPT_MASK \<noteq> 0
              then s2\<lparr>ps_except := fd_set_add (wp_fd u) (ps_except s2)\<rparr> else s2)
      in if wp_fd u > ps_max s3 \<and> wp_events u AND ANY_MASK \<noteq> 0
         then s3\<lparr>ps_max := wp_fd u, ps_rc := 0\<rparr> else s3)"

definition collect_fds :: "win_pollfd list \<Rightarrow> poll_sets" where
  "collect_fds us = fold collect_fd us
     \<lparr>ps_read = [], ps_write = [], ps_except = [], ps_max = 0, ps_rc = -1\<rparr>"

section \<open>The call\<close>

text \<open>Seconds and microseconds; \<open>None\<close> waits for ever.\<close>

definition select_timeout :: "int \<Rightarrow> (int \<times> int) option" where
  "select_timeout timeout =
     (if timeout < 0 then None
      else if timeout = 0 then Some (0, 0)
      else Some (timeout div 1000, (timeout mod 1000) * 1000))"

text \<open>
  \<open>select\<close> fails with an error, or takes from each set the sockets that are not ready and returns how
  many are left. \<open>recv\<close> with \<open>MSG_PEEK\<close> gives a number of bytes or fails; as all of Winsock it reports
  the error by \<open>WSAGetLastError\<close> and leaves \<open>errno\<close> alone.
\<close>

datatype os_select = Select_Error int
  | Select_Ready "socket \<Rightarrow> bool" "socket \<Rightarrow> bool" "socket \<Rightarrow> bool"

datatype os_peek = Peek_Data nat | Peek_Error int

text \<open>
  One iteration of the second loop: the entry, the error state, and whether it is counted. \<open>R\<close>, \<open>W\<close>, \<open>X\<close>
  are the sets that \<open>select\<close> left.
\<close>

definition peek_error :: "os_peek \<Rightarrow> last_errors \<Rightarrow> last_errors" where
  "peek_error a e = (case a of Peek_Data n \<Rightarrow> e | Peek_Error c \<Rightarrow> e\<lparr>wsa_error := c\<rparr>)"

definition scan_fd ::
  "(socket \<Rightarrow> os_peek) \<Rightarrow> socket list \<Rightarrow> socket list \<Rightarrow> socket list \<Rightarrow> win_pollfd \<Rightarrow> last_errors
   \<Rightarrow> win_pollfd \<times> last_errors \<times> int" where
  "scan_fd peek R W X u e =
     (if wp_fd u \<noteq> NO_SOCKET then let
        v0 = 0;
        (v1, e1) = (if wp_fd u \<in> set R then let
             save_errno = errno e; ans = peek (wp_fd u); e' = peek_error ans e;
             hung = ((\<exists>c. ans = Peek_Error c) \<and> errno e' \<in> set hangup_codes)
           in (if hung then v0 OR W_HUP else v0 OR (wp_events u AND READ_MASK),
               e'\<lparr>errno := save_errno\<rparr>)
           else (v0, e));
        v2 = (if wp_fd u \<in> set W then v1 OR (wp_events u AND WRITE_MASK) else v1);
        v3 = (if wp_fd u \<in> set X then v2 OR (wp_events u AND EXCEPT_MASK) else v2)
      in (u\<lparr>wp_revents := v3\<rparr>, e1, if v3 AND NOT W_HUP \<noteq> 0 then 1 else 0)
      else (u\<lparr>wp_revents := W_NVAL\<rparr>, e, 0))"

fun scan_fds ::
  "(socket \<Rightarrow> os_peek) \<Rightarrow> socket list \<Rightarrow> socket list \<Rightarrow> socket list \<Rightarrow> win_pollfd list \<Rightarrow> last_errors
   \<Rightarrow> int \<times> win_pollfd list \<times> last_errors" where
  "scan_fds peek R W X [] e = (0, [], e)"
| "scan_fds peek R W X (u # us) e =
     (let (u', e1, k) = scan_fd peek R W X u e;
          (n, us', e2) = scan_fds peek R W X us e1
      in (k + n, u' # us', e2))"

definition win_poll_sockets ::
  "((int \<times> int) option \<Rightarrow> os_select) \<Rightarrow> (socket \<Rightarrow> os_peek) \<Rightarrow> int \<Rightarrow> win_pollfd list option
   \<Rightarrow> last_errors \<Rightarrow> int \<times> win_pollfd list option \<times> last_errors" where
  "win_poll_sockets sel peek timeout fds e =
     (case fds of
        None \<Rightarrow> (-1, None, e\<lparr>errno := EFAULT\<rparr>)
      | Some us \<Rightarrow>
          let s = collect_fds us
          in if ps_rc s = -1 then (-1, Some us, e\<lparr>errno := EINVAL\<rparr>)
             else case sel (select_timeout timeout) of
               Select_Error c \<Rightarrow> (-1, Some us, e\<lparr>wsa_error := c\<rparr>)
             | Select_Ready r w x \<Rightarrow>
                 let R = filter r (ps_read s); W = filter w (ps_write s); X = filter x (ps_except s)
                 in if length R + length W + length X = 0 then (0, Some us, e)
                    else let (n, us', e') = scan_fds peek R W X us e in (n, Some us', e'))"

section \<open>The sets hold what was asked for\<close>

definition asks :: "u16 \<Rightarrow> win_pollfd \<Rightarrow> bool" where
  "asks m u = (wp_fd u \<noteq> NO_SOCKET \<and> wp_events u AND m \<noteq> 0)"

fun add_fds :: "u16 \<Rightarrow> win_pollfd list \<Rightarrow> socket list \<Rightarrow> socket list" where
  "add_fds m [] S = S"
| "add_fds m (u # us) S = add_fds m us (if asks m u then fd_set_add (wp_fd u) S else S)"

lemma collect_sets:
  "ps_read (fold collect_fd us s) = add_fds READ_MASK us (ps_read s)"
  "ps_write (fold collect_fd us s) = add_fds WRITE_MASK us (ps_write s)"
  "ps_except (fold collect_fd us s) = add_fds EXCEPT_MASK us (ps_except s)"
  by (induction us arbitrary: s) (simp_all add: collect_fd_def asks_def Let_def)

lemma collect_rc:
  "ps_rc (fold collect_fd us s) =
     (if ps_rc s = -1 \<and> ps_max s = 0
      then if \<exists>u \<in> set us. asks ANY_MASK u \<and> wp_fd u \<noteq> 0 then 0 else -1
      else ps_rc (fold collect_fd us s))"
proof (induction us arbitrary: s)
  case (Cons u us)
  have keep: "ps_rc t = 0 \<Longrightarrow> ps_rc (fold collect_fd vs t) = 0" for vs and t :: poll_sets
    by (induction vs arbitrary: t) (simp_all add: collect_fd_def Let_def)
  show ?case
  proof (cases "asks ANY_MASK u \<and> wp_fd u \<noteq> 0")
    case True
    then have "ps_max s = 0 \<Longrightarrow> ps_rc (collect_fd u s) = 0"
      by (simp add: collect_fd_def asks_def Let_def word_neq_0_conv)
    then show ?thesis using True keep by auto
  next
    case False
    then have "ps_max s = 0 \<Longrightarrow> ps_rc (collect_fd u s) = ps_rc s \<and> ps_max (collect_fd u s) = 0"
      by (auto simp: collect_fd_def asks_def Let_def)
    then show ?thesis using Cons.IH[of "collect_fd u s"] False by auto
  qed
qed simp

lemma length_fd_set_add: "length (fd_set_add s S) \<le> Suc (length S)"
  by (simp add: fd_set_add_def)

lemma add_fds_set:
  "length S + length us \<le> FD_SETSIZE
   \<Longrightarrow> set (add_fds m us S) = set S \<union> wp_fd ` {u \<in> set us. asks m u}"
proof (induction us arbitrary: S)
  case (Cons u us)
  have "length (fd_set_add (wp_fd u) S) + length us \<le> FD_SETSIZE"
    using Cons.prems length_fd_set_add[of "wp_fd u" S] by simp
  then show ?case using Cons by (auto simp: fd_set_add_def)
qed auto

section \<open>A reference definition of poll\<close>

text \<open>
  The received events of an entry when \<open>r\<close>, \<open>w\<close> and \<open>x\<close> say which sockets are readable, writable and
  have an exceptional condition: those that were asked for, each class by itself.
\<close>

definition poll_revents ::
  "(socket \<Rightarrow> bool) \<Rightarrow> (socket \<Rightarrow> bool) \<Rightarrow> (socket \<Rightarrow> bool) \<Rightarrow> win_pollfd \<Rightarrow> u16" where
  "poll_revents r w x u =
     (if wp_fd u = NO_SOCKET then W_NVAL
      else (if r (wp_fd u) then wp_events u AND READ_MASK else 0)
           OR (if w (wp_fd u) then wp_events u AND WRITE_MASK else 0)
           OR (if x (wp_fd u) then wp_events u AND EXCEPT_MASK else 0))"

definition ref_poll ::
  "(socket \<Rightarrow> bool) \<Rightarrow> (socket \<Rightarrow> bool) \<Rightarrow> (socket \<Rightarrow> bool) \<Rightarrow> win_pollfd list
   \<Rightarrow> int \<times> win_pollfd list" where
  "ref_poll r w x us =
     (let us' = map (\<lambda>u. u\<lparr>wp_revents := poll_revents r w x u\<rparr>) us
      in (int (length (filter (\<lambda>u. wp_fd u \<noteq> NO_SOCKET \<and> wp_revents u \<noteq> 0) us')), us'))"

lemma and_not_disjoint: "(a::u16) AND b = 0 \<Longrightarrow> a AND NOT b = a"
  by (metis and.right_neutral bit.compl_zero bit.conj_disj_distrib bit.disj_cancel_right or.left_neutral)

lemma word_or_zero: "(a::u16) OR b = 0 \<longleftrightarrow> a = 0 \<and> b = 0"
  by (rule or_eq_0_iff)

lemma and_hup: "(wp_events u AND READ_MASK) AND W_HUP = 0" "(wp_events u AND WRITE_MASK) AND W_HUP = 0"
    "(wp_events u AND EXCEPT_MASK) AND W_HUP = 0"
  by (simp_all add: and.assoc win_masks win_bits)

lemma revents_no_hup:
  "wp_fd u \<noteq> NO_SOCKET \<Longrightarrow> poll_revents r w x u AND NOT W_HUP = poll_revents r w x u"
  by (rule and_not_disjoint) (simp add: poll_revents_def bit.conj_disj_distrib2 and_hup)

text \<open>
  The sets agree with an entry: they hold its socket if it is ready, unless the entry did not ask.
\<close>

definition agree :: "(socket \<Rightarrow> bool) \<Rightarrow> socket list \<Rightarrow> u16 \<Rightarrow> win_pollfd \<Rightarrow> bool" where
  "agree r R m u =
     (wp_fd u = NO_SOCKET \<or>
      (if wp_fd u \<in> set R then wp_events u AND m else 0) = (if r (wp_fd u) then wp_events u AND m else 0))"

lemma scan_fd_ref:
  assumes "agree r R READ_MASK u" and "agree w W WRITE_MASK u" and "agree x X EXCEPT_MASK u"
    and "errno e \<notin> set hangup_codes"
  shows "\<exists>e'. errno e' = errno e \<and> scan_fd peek R W X u e =
    (u\<lparr>wp_revents := poll_revents r w x u\<rparr>, e',
     if wp_fd u \<noteq> NO_SOCKET \<and> poll_revents r w x u \<noteq> 0 then 1 else 0)"
proof (cases "wp_fd u = NO_SOCKET")
  case True
  then show ?thesis by (simp add: scan_fd_def poll_revents_def)
next
  case False
  define e' where "e' = (if wp_fd u \<in> set R then (peek_error (peek (wp_fd u)) e)\<lparr>errno := errno e\<rparr> else e)"
  have "errno (peek_error a e) = errno e" for a by (cases a) (simp_all add: peek_error_def)
  moreover have "poll_revents r w x u =
      (if wp_fd u \<in> set R then wp_events u AND READ_MASK else 0)
      OR (if wp_fd u \<in> set W then wp_events u AND WRITE_MASK else 0)
      OR (if wp_fd u \<in> set X then wp_events u AND EXCEPT_MASK else 0)"
    using assms(1-3) False by (simp add: agree_def poll_revents_def)
  ultimately have "scan_fd peek R W X u e = (u\<lparr>wp_revents := poll_revents r w x u\<rparr>, e',
       if poll_revents r w x u AND NOT W_HUP \<noteq> 0 then 1 else 0)"
    using assms(4) False by (simp add: scan_fd_def Let_def e'_def or.assoc)
  then show ?thesis using revents_no_hup[OF False] False e'_def by simp
qed

lemma scan_fds_ref:
  assumes "\<forall>u \<in> set us. agree r R READ_MASK u \<and> agree w W WRITE_MASK u \<and> agree x X EXCEPT_MASK u"
    and "errno e \<notin> set hangup_codes"
  shows "\<exists>e'. errno e' = errno e
           \<and> scan_fds peek R W X us e = (fst (ref_poll r w x us), snd (ref_poll r w x us), e')"
  using assms
proof (induction us arbitrary: e)
  case (Cons u us)
  obtain e1 where e1: "errno e1 = errno e"
    "scan_fd peek R W X u e = (u\<lparr>wp_revents := poll_revents r w x u\<rparr>, e1,
       if wp_fd u \<noteq> NO_SOCKET \<and> poll_revents r w x u \<noteq> 0 then 1 else 0)"
    using scan_fd_ref[of r R u w W x X e peek] Cons.prems by auto
  obtain e2 where e2: "errno e2 = errno e1"
    "scan_fds peek R W X us e1 = (fst (ref_poll r w x us), snd (ref_poll r w x us), e2)"
    using Cons.IH[of e1] Cons.prems e1(1) by auto
  show ?case using e1 e2 by (simp add: ref_poll_def Let_def)
qed (simp add: ref_poll_def)

section \<open>The emulation is poll, for up to 64 sockets\<close>

lemma collect_agrees:
  assumes "length us \<le> FD_SETSIZE" and "u \<in> set us"
  shows "agree r (filter r (add_fds m us [])) m u"
proof -
  have s: "set (add_fds m us []) = wp_fd ` {u \<in> set us. asks m u}"
    using add_fds_set[of "[]" us m] assms(1) by simp
  show ?thesis
  proof (cases "asks m u")
    case True
    then have "wp_fd u \<in> set (add_fds m us [])" using s assms(2) by blast
    then show ?thesis by (simp add: agree_def)
  next
    case False
    then show ?thesis by (auto simp: agree_def asks_def)
  qed
qed

text \<open>\<open>select\<close> finds something ready exactly if some entry has an event.\<close>

lemma ready_iff:
  assumes "length us \<le> FD_SETSIZE"
  shows "filter r (add_fds m us []) = [] \<longleftrightarrow> (\<forall>u \<in> set us. asks m u \<longrightarrow> \<not> r (wp_fd u))"
  using add_fds_set[of "[]" us m] assms by (auto simp: filter_empty_conv)

lemma ref_poll_0:
  "fst (ref_poll r w x us) = 0 \<longleftrightarrow>
     (\<forall>u \<in> set us. asks READ_MASK u \<longrightarrow> \<not> r (wp_fd u)) \<and> (\<forall>u \<in> set us. asks WRITE_MASK u \<longrightarrow> \<not> w (wp_fd u))
     \<and> (\<forall>u \<in> set us. asks EXCEPT_MASK u \<longrightarrow> \<not> x (wp_fd u))"
proof -
  have "wp_fd u \<noteq> NO_SOCKET \<Longrightarrow> poll_revents r w x u = 0 \<longleftrightarrow>
      (asks READ_MASK u \<longrightarrow> \<not> r (wp_fd u)) \<and> (asks WRITE_MASK u \<longrightarrow> \<not> w (wp_fd u))
      \<and> (asks EXCEPT_MASK u \<longrightarrow> \<not> x (wp_fd u))" for u
    by (simp add: poll_revents_def asks_def word_or_zero)
  then show ?thesis
    by (simp add: ref_poll_def Let_def filter_empty_conv) (auto simp: asks_def)
qed

text \<open>Both properties: if the sets agree with some reference on all entries, so does the call.\<close>

lemma poll_via_ref:
  fixes r w x us
  defines "R \<equiv> filter r (add_fds READ_MASK us [])" and "W \<equiv> filter w (add_fds WRITE_MASK us [])"
    and "X \<equiv> filter x (add_fds EXCEPT_MASK us [])"
  assumes "\<exists>u \<in> set us. asks ANY_MASK u \<and> wp_fd u \<noteq> 0"
    and "sel (select_timeout timeout) = Select_Ready r w x" and "errno e \<notin> set hangup_codes"
    and agree: "\<forall>u \<in> set us. agree p R READ_MASK u \<and> agree q W WRITE_MASK u \<and> agree y X EXCEPT_MASK u"
    and zero: "R = [] \<and> W = [] \<and> X = [] \<longleftrightarrow> fst (ref_poll p q y us) = 0"
  shows "\<exists>e'. errno e' = errno e \<and> win_poll_sockets sel peek timeout (Some us) e =
           (fst (ref_poll p q y us),
            Some (if fst (ref_poll p q y us) = 0 then us else snd (ref_poll p q y us)), e')"
proof -
  have rc: "ps_rc (collect_fds us) = 0"
    using assms(4) by (simp add: collect_fds_def collect_rc)
  have sets: "filter r (ps_read (collect_fds us)) = R" "filter w (ps_write (collect_fds us)) = W"
    "filter x (ps_except (collect_fds us)) = X"
    by (simp_all add: collect_fds_def collect_sets R_def W_def X_def)
  obtain e' where e': "errno e' = errno e"
    "scan_fds peek R W X us e = (fst (ref_poll p q y us), snd (ref_poll p q y us), e')"
    using scan_fds_ref[OF agree] assms(6) by blast
  show ?thesis
  proof (cases "R = [] \<and> W = [] \<and> X = []")
    case True
    then show ?thesis using zero rc assms(5) by (simp add: win_poll_sockets_def sets)
  next
    case False
    then have "win_poll_sockets sel peek timeout (Some us) e =
        (fst (ref_poll p q y us), Some (snd (ref_poll p q y us)), e')"
      unfolding win_poll_sockets_def option.case Let_def sets rc assms(5) os_select.case e'(2)
      by auto
    then show ?thesis using False zero e'(1) by auto
  qed
qed

text \<open>
  C18: for at most 64 entries, at least one of which asks for something, the Windows emulation is the
  reference \<open>poll\<close>: it returns the number of entries with events and fills in exactly the events that
  were asked for and are ready; if there are none it returns 0 and leaves the array alone. The
  error number is kept, however \<open>recv\<close> answers the peek: a reset connection shows as readable.
\<close>

theorem win_poll_is_poll:
  assumes "length us \<le> FD_SETSIZE" and "\<exists>u \<in> set us. asks ANY_MASK u \<and> wp_fd u \<noteq> 0"
    and "sel (select_timeout timeout) = Select_Ready r w x" and "errno e \<notin> set hangup_codes"
  shows "\<exists>e'. errno e' = errno e \<and> win_poll_sockets sel peek timeout (Some us) e =
           (fst (ref_poll r w x us),
            Some (if fst (ref_poll r w x us) = 0 then us else snd (ref_poll r w x us)), e')"
  by (rule poll_via_ref[where sel = sel and timeout = timeout, OF assms(2-4)])
     (use collect_agrees[OF assms(1)] ready_iff[OF assms(1)] in \<open>simp_all add: ref_poll_0\<close>)

definition sample_fds :: "win_pollfd list" where
  "sample_fds =
     [\<lparr>wp_fd = 8, wp_events = W_IN OR W_OUT, wp_revents = 0\<rparr>,
      \<lparr>wp_fd = NO_SOCKET, wp_events = W_IN, wp_revents = 0\<rparr>,
      \<lparr>wp_fd = 12, wp_events = W_IN, wp_revents = 0\<rparr>]"

lemma win_poll_is_poll_witness:
  "\<exists>e'. win_poll_sockets (\<lambda>t. Select_Ready (\<lambda>s. s = 8) (\<lambda>s. False) (\<lambda>s. s = 12))
          (\<lambda>s. Peek_Error 10054) 100 (Some sample_fds) \<lparr>errno = 0, wsa_error = 0\<rparr> =
     (2, Some [\<lparr>wp_fd = 8, wp_events = W_IN OR W_OUT, wp_revents = W_IN\<rparr>,
               \<lparr>wp_fd = NO_SOCKET, wp_events = W_IN, wp_revents = W_NVAL\<rparr>,
               \<lparr>wp_fd = 12, wp_events = W_IN, wp_revents = W_RDBAND\<rparr>], e')"
proof -
  have "ref_poll (\<lambda>s. s = 8) (\<lambda>s. False) (\<lambda>s. s = 12) sample_fds =
     (2, [\<lparr>wp_fd = 8, wp_events = W_IN OR W_OUT, wp_revents = W_IN\<rparr>,
          \<lparr>wp_fd = NO_SOCKET, wp_events = W_IN, wp_revents = W_NVAL\<rparr>,
          \<lparr>wp_fd = 12, wp_events = W_IN, wp_revents = W_RDBAND\<rparr>])"
    by (simp add: ref_poll_def sample_fds_def poll_revents_def NO_SOCKET_def win_masks win_bits)
  then show ?thesis
    using win_poll_is_poll[of sample_fds "\<lambda>t. Select_Ready (\<lambda>s. s = 8) (\<lambda>s. False) (\<lambda>s. s = 12)" 100
      "\<lambda>s. s = 8" "\<lambda>s. False" "\<lambda>s. s = 12" "\<lparr>errno = 0, wsa_error = 0\<rparr>" "\<lambda>s. Peek_Error 10054"]
    by (auto simp: FD_SETSIZE_def sample_fds_def asks_def hangup_codes_def NO_SOCKET_def win_masks win_bits)
qed

section \<open>Only the first 64 sockets of each kind are seen\<close>

text \<open>The sockets of an array that ask for one of the events \<open>m\<close>, in its order.\<close>

definition asking :: "u16 \<Rightarrow> win_pollfd list \<Rightarrow> socket list" where
  "asking m us = map wp_fd (filter (asks m) us)"

lemma add_fds_asking:
  "distinct (S @ asking m us) \<Longrightarrow> length S \<le> FD_SETSIZE
   \<Longrightarrow> add_fds m us S = take FD_SETSIZE (S @ asking m us)"
proof (induction us arbitrary: S)
  case (Cons u us)
  then show ?case
    by (cases "length S < FD_SETSIZE"; cases "asks m u") (auto simp: asking_def fd_set_add_def take_Cons')
qed (simp add: asking_def)

lemma distinct_asking: "distinct (map wp_fd us) \<Longrightarrow> distinct (asking m us)"
  by (simp add: asking_def distinct_map inj_on_def)

lemma none_seen:
  "filter p (take n (asking m us)) = []
   \<longleftrightarrow> (\<forall>u \<in> set us. asks m u \<longrightarrow> \<not> (p (wp_fd u) \<and> wp_fd u \<in> set (take n (asking m us))))"
proof
  assume no: "\<forall>u \<in> set us. asks m u \<longrightarrow> \<not> (p (wp_fd u) \<and> wp_fd u \<in> set (take n (asking m us)))"
  have "\<not> p s" if s: "s \<in> set (take n (asking m us))" for s
  proof -
    obtain u where "u \<in> set us" "asks m u" "wp_fd u = s"
      using in_set_takeD[OF s] by (auto simp: asking_def)
    then show ?thesis using no s by blast
  qed
  then show "filter p (take n (asking m us)) = []" by (simp add: filter_empty_conv)
qed (auto simp: filter_empty_conv)

text \<open>
  C32: each set for \<open>select\<close> holds 64 sockets. For an array of any length, with different sockets, at
  least one of which (other than socket 0) asks for something, and when \<open>select\<close> does not fail and no
  hang-up code is left in \<open>errno\<close>, the emulation is a \<open>poll\<close> for which a socket can only be
  readable if it is among the first 64 of the array that ask for input, only writable if it is among
  the first 64 that ask for output, and only exceptional if it is among the first 64 that ask for that:
  the later ones of each kind, those with the largest numbers as \<open>PollSet\<close> fills the array, are never
  reported for it, whatever arrives there.
\<close>

theorem win_poll_first_64:
  fixes us
  defines "seen \<equiv> \<lambda>m s. s \<in> set (take FD_SETSIZE (asking m us))"
  assumes "distinct (map wp_fd us)" and "\<exists>u \<in> set us. asks ANY_MASK u \<and> wp_fd u \<noteq> 0"
    and "sel (select_timeout timeout) = Select_Ready r w x" and "errno e \<notin> set hangup_codes"
  shows "\<exists>e'. win_poll_sockets sel peek timeout (Some us) e =
           (let (n, us') = ref_poll (\<lambda>s. r s \<and> seen READ_MASK s) (\<lambda>s. w s \<and> seen WRITE_MASK s)
              (\<lambda>s. x s \<and> seen EXCEPT_MASK s) us
            in (n, Some (if n = 0 then us else us'), e'))"
proof -
  let ?r = "\<lambda>s. r s \<and> seen READ_MASK s" and ?w = "\<lambda>s. w s \<and> seen WRITE_MASK s"
    and ?x = "\<lambda>s. x s \<and> seen EXCEPT_MASK s"
  have sets: "add_fds m us [] = take FD_SETSIZE (asking m us)" for m
    using add_fds_asking[of "[]" m us] distinct_asking[OF assms(2)] by simp
  have agree: "agree (\<lambda>s. p s \<and> seen m s) (filter p (take FD_SETSIZE (asking m us))) m u" for p m u
    by (simp add: agree_def seen_def)
  have zero: "filter r (take FD_SETSIZE (asking READ_MASK us)) = []
      \<and> filter w (take FD_SETSIZE (asking WRITE_MASK us)) = []
      \<and> filter x (take FD_SETSIZE (asking EXCEPT_MASK us)) = [] \<longleftrightarrow> fst (ref_poll ?r ?w ?x us) = 0"
    unfolding ref_poll_0 none_seen seen_def by blast
  have "\<exists>e'. errno e' = errno e \<and> win_poll_sockets sel peek timeout (Some us) e =
     (fst (ref_poll ?r ?w ?x us),
      Some (if fst (ref_poll ?r ?w ?x us) = 0 then us else snd (ref_poll ?r ?w ?x us)), e')"
    by (rule poll_via_ref[where sel = sel and timeout = timeout, OF assms(3-5)])
       (use agree zero in \<open>simp_all add: sets\<close>)
  then show ?thesis by (auto simp: case_prod_beta Let_def)
qed

definition many_fds :: "win_pollfd list" where
  "many_fds = map (\<lambda>n. \<lparr>wp_fd = of_nat n, wp_events = W_IN, wp_revents = 0\<rparr>) [1..<66]"

lemma small_socket: "n < 66 \<Longrightarrow> unat (of_nat n :: socket) = n"
  by (simp add: unat_of_nat take_bit_nat_def)

text \<open>Of 65 sockets only the last one is readable: 0 sockets are reported.\<close>

lemma win_poll_first_64_witness:
  "\<exists>e'. win_poll_sockets (\<lambda>t. Select_Ready (\<lambda>s. s = 65) (\<lambda>s. False) (\<lambda>s. False)) (\<lambda>s. Peek_Data 1)
     (-1) (Some many_fds) \<lparr>errno = 0, wsa_error = 0\<rparr> = (0, Some many_fds, e')"
proof -
  have fds: "map wp_fd many_fds = map of_nat [1..<66]" by (simp add: many_fds_def)
  have inj: "(of_nat m :: socket) = of_nat n \<longleftrightarrow> m = n" if "m < 66" "n < 66" for m n
    using small_socket[OF that(1)] small_socket[OF that(2)] by metis
  have d: "distinct (map wp_fd many_fds)"
    unfolding fds by (simp add: distinct_map inj_on_def inj del: upt_rec_numeral)
  have "unat NO_SOCKET = 2 ^ 64 - 1" by (simp add: NO_SOCKET_def unsigned_minus_1_eq_mask mask_eq_exp_minus_1)
  then have valid: "of_nat n \<noteq> NO_SOCKET" if "n < 66" for n
    using small_socket[OF that] that by auto
  have v: "\<forall>u \<in> set many_fds. wp_fd u \<noteq> NO_SOCKET \<and> wp_events u = W_IN"
    using valid by (auto simp: many_fds_def simp del: upt_rec_numeral)
  have masks: "W_IN AND READ_MASK \<noteq> 0" "W_IN AND ANY_MASK \<noteq> 0"
    by (simp_all add: win_masks win_bits)
  have nz: "\<exists>u \<in> set many_fds. asks ANY_MASK u \<and> wp_fd u \<noteq> 0"
    by (rule bexI[of _ "\<lparr>wp_fd = of_nat 1, wp_events = W_IN, wp_revents = 0\<rparr>"])
       (use valid[of 1] masks in \<open>auto simp: many_fds_def asks_def intro!: image_eqI[of _ _ 1] simp del: upt_rec_numeral\<close>)
  have ask: "asking READ_MASK many_fds = map wp_fd many_fds"
    using v masks by (simp add: asking_def asks_def filter_id_conv)
  have "(65::socket) \<notin> of_nat ` {1..<65}"
    using inj[of 65] by (auto simp: image_iff)
  then have "(65::socket) \<notin> set (take FD_SETSIZE (asking READ_MASK many_fds))"
    unfolding ask fds take_map FD_SETSIZE_def by (simp add: take_upt del: upt_rec_numeral)
  then have "fst (ref_poll (\<lambda>s. s = 65 \<and> s \<in> set (take FD_SETSIZE (asking READ_MASK many_fds)))
      (\<lambda>s. False \<and> s \<in> set (take FD_SETSIZE (asking WRITE_MASK many_fds)))
      (\<lambda>s. False \<and> s \<in> set (take FD_SETSIZE (asking EXCEPT_MASK many_fds))) many_fds) = 0"
    unfolding ref_poll_0 by auto
  then show ?thesis
    using win_poll_first_64[OF d nz,
      of "\<lambda>t. Select_Ready (\<lambda>s. s = 65) (\<lambda>s. False) (\<lambda>s. False)" "-1" "\<lambda>s. s = 65"
         "\<lambda>s. False" "\<lambda>s. False" "\<lparr>errno = 0, wsa_error = 0\<rparr>" "\<lambda>s. Peek_Data 1"]
    by (simp add: hangup_codes_def case_prod_beta Let_def)
qed

end
