(* ===== verification/Programs.thy ===== *)
theory Programs
  imports Registration
begin

text \<open>
  Models two of the example programs: \<open>src/src/register_sub.cpp\<close>, whose main thread waits until its
  callback has counted enough messages, and the arguments and the request of \<open>call_remap.cpp\<close>.

  The two threads of \<open>register_sub\<close> are an inductive step relation over every interleaving; the
  lemmas show, by rule induction, that no wake-up is lost although the counter is changed without the lock.
\<close>

section \<open>The counting subscriber\<close>

text \<open>
  Where the main thread is: before it locks, at the test of the loop with the lock, past the test
  and about to wait, still with the lock, in \<open>cv.wait\<close> without it, woken up and about to lock again, and
  past the block. Where the callback is: not
  running, past the increment, about to lock, and with the lock.
\<close>

datatype main_pc = Before_Lock | Testing | Entering | Waiting | Woken | Past
datatype cb_pc = Not_Called | Counted | Locking | Notifying

record receiver =
  n_msg :: "64 word"
  n_received :: "64 word"
  rx_main :: main_pc
  rx_cb :: cb_pc

text \<open>\<open>main\<close> up to the lock: \<open>Inl\<close> is the value returned for a wrong number of arguments.\<close>

definition receiver_main :: "string list \<Rightarrow> int + receiver" where
  "receiver_main argv =
     (if length argv \<noteq> 2 then Inl 1
      else Inr \<lparr>n_msg = word_of_int (atoi (argv ! 1)), n_received = 0,
                rx_main = Before_Lock, rx_cb = Not_Called\<rparr>)"

text \<open>A message arrives: the callback starts and counts it.\<close>

definition receiver_callback :: "receiver \<Rightarrow> receiver" where
  "receiver_callback s = s\<lparr>n_received := n_received s + 1, rx_cb := Counted\<rparr>"

text \<open>The next step of a running callback; at a lock that is taken it stays.\<close>

definition callback_step :: "receiver \<Rightarrow> receiver" where
  "callback_step s =
     (case rx_cb s of
        Not_Called \<Rightarrow> s
      | Counted \<Rightarrow> s\<lparr>rx_cb := if n_msg s \<le> n_received s then Locking else Not_Called\<rparr>
      | Locking \<Rightarrow> if rx_main s \<in> {Testing, Entering} then s else s\<lparr>rx_cb := Notifying\<rparr>
      | Notifying \<Rightarrow> s\<lparr>rx_main := if rx_main s = Waiting then Woken else rx_main s,
                        rx_cb := Not_Called\<rparr>)"

definition main_step :: "receiver \<Rightarrow> receiver" where
  "main_step s =
     (case rx_main s of
        Before_Lock \<Rightarrow> if rx_cb s = Notifying then s else s\<lparr>rx_main := Testing\<rparr>
      | Testing \<Rightarrow> s\<lparr>rx_main := if n_received s < n_msg s then Entering else Past\<rparr>
      | Entering \<Rightarrow> s\<lparr>rx_main := Waiting\<rparr>
      | Waiting \<Rightarrow> s
      | Woken \<Rightarrow> if rx_cb s = Notifying then s else s\<lparr>rx_main := Testing\<rparr>
      | Past \<Rightarrow> s)"

text \<open>
  Every interleaving, with the spurious wake-ups a condition variable allows. \<open>rx_reach s0 k s\<close>: from
  \<open>s0\<close> the two threads come to \<open>s\<close>, and \<open>k\<close> messages arrived.
\<close>

inductive rx_reach :: "receiver \<Rightarrow> nat \<Rightarrow> receiver \<Rightarrow> bool" for s0 :: receiver where
  rx_start: "rx_reach s0 0 s0"
| rx_message: "rx_reach s0 k s \<Longrightarrow> rx_cb s = Not_Called \<Longrightarrow> rx_reach s0 (Suc k) (receiver_callback s)"
| rx_callback: "rx_reach s0 k s \<Longrightarrow> rx_reach s0 k (callback_step s)"
| rx_main: "rx_reach s0 k s \<Longrightarrow> rx_reach s0 k (main_step s)"
| rx_spurious: "rx_reach s0 k s \<Longrightarrow> rx_main s = Waiting \<Longrightarrow> rx_reach s0 k (s\<lparr>rx_main := Woken\<rparr>)"

text \<open>
  The invariant that depends only on the state: the lock is held by one thread; who waits although
  enough has arrived will be notified by a callback that is on its way.
\<close>

definition rx_inv :: "receiver \<Rightarrow> bool" where
  "rx_inv s =
     (\<not> (rx_cb s = Notifying \<and> rx_main s \<in> {Testing, Entering})
      \<and> (rx_cb s \<in> {Locking, Notifying} \<longrightarrow> n_msg s \<le> n_received s)
      \<and> (rx_main s \<in> {Entering, Waiting} \<and> n_msg s \<le> n_received s \<longrightarrow> rx_cb s \<noteq> Not_Called)
      \<and> (rx_main s = Past \<longrightarrow> n_msg s \<le> n_received s))"

lemma step_inv:
  "rx_inv s \<Longrightarrow> rx_inv (callback_step s)" "rx_inv s \<Longrightarrow> rx_inv (main_step s)"
  "rx_inv s \<Longrightarrow> rx_main s = Waiting \<Longrightarrow> rx_inv (s\<lparr>rx_main := Woken\<rparr>)"
  "rx_inv s \<Longrightarrow> rx_cb s = Not_Called \<Longrightarrow> n_received s < n_received s + 1 \<Longrightarrow> rx_inv (receiver_callback s)"
  by (auto simp: rx_inv_def callback_step_def main_step_def receiver_callback_def not_less
      split: main_pc.splits cb_pc.splits if_splits)

lemma step_counts [simp]:
  "n_msg (callback_step s) = n_msg s" "n_received (callback_step s) = n_received s"
  "n_msg (main_step s) = n_msg s" "n_received (main_step s) = n_received s"
  by (simp_all add: callback_step_def main_step_def split: main_pc.splits cb_pc.splits)

lemma count_up:
  assumes "Suc k < 2 ^ 64"
  shows "(of_nat k :: 64 word) < of_nat k + 1"
proof -
  have "(of_nat k :: 64 word) < of_nat (Suc k)"
    using assms by (simp only: word_less_nat_alt unat_of_nat) (simp add: take_bit_nat_def)
  then show ?thesis by (simp add: add.commute)
qed

lemma reach_inv:
  assumes "rx_reach s0 k s" and "receiver_main argv = Inr s0" and "k < 2 ^ 64"
  shows "rx_inv s \<and> n_msg s = n_msg s0 \<and> n_received s = of_nat k"
  using assms
proof (induction rule: rx_reach.induct)
  case rx_start
  then show ?case by (auto simp: receiver_main_def rx_inv_def split: if_splits)
next
  case (rx_message k s)
  then have "rx_inv s \<and> n_msg s = n_msg s0 \<and> n_received s = of_nat k" by simp
  then show ?case using rx_message.hyps(2) rx_message.prems(2) step_inv(4)[of s] count_up[of k]
    by (simp add: receiver_callback_def add.commute)
qed (simp_all add: step_inv)

text \<open>With enough messages a step of the main thread, three of the callback and two more of the main thread end the wait.\<close>

lemma callback_thrice:
  assumes "rx_inv s" and "n_msg s \<le> n_received s" and "rx_main s \<noteq> Entering"
  shows "rx_main ((callback_step ^^ 3) s) \<in> {Testing, Past}
    \<or> rx_main ((callback_step ^^ 3) s) \<in> {Before_Lock, Woken} \<and> rx_cb ((callback_step ^^ 3) s) = Not_Called"
  using assms
  by (cases "rx_main s"; cases "rx_cb s") (simp_all add: numeral_3_eq_3 callback_step_def rx_inv_def)

lemma counts_after:
  "n_msg ((callback_step ^^ n) s) = n_msg s \<and> n_received ((callback_step ^^ n) s) = n_received s"
  by (induction n) simp_all

lemma main_twice:
  assumes "n_msg s \<le> n_received s"
    and "rx_main s \<in> {Testing, Past} \<or> rx_main s \<in> {Before_Lock, Woken} \<and> rx_cb s = Not_Called"
  shows "rx_main ((main_step ^^ 2) s) = Past"
  using assms by (cases "rx_main s") (simp_all add: numeral_2_eq_2 main_step_def not_less)

lemma main_not_entering: "n_msg s \<le> n_received s \<Longrightarrow> rx_main (main_step s) \<noteq> Entering"
  by (cases "rx_main s") (simp_all add: main_step_def not_less)

lemma wait_ends:
  assumes "rx_inv s" and "n_msg s \<le> n_received s"
  shows "rx_main ((main_step ^^ 2) ((callback_step ^^ 3) (main_step s))) = Past"
proof (rule main_twice)
  show "n_msg ((callback_step ^^ 3) (main_step s)) \<le> n_received ((callback_step ^^ 3) (main_step s))"
    using assms(2) by (simp add: counts_after)
qed (rule callback_thrice, use assms in \<open>simp_all add: step_inv main_not_entering\<close>)

text \<open>
  C21: the main thread of \<open>register_sub\<close> waits for exactly the number of messages it was given. Under
  every interleaving with the callback, spurious wake-ups included, it never gets past the wait with
  fewer; and from every state with enough, a step of the main thread, three of the callback and two
  of the main thread bring it past: no wake-up is lost.
\<close>

theorem receiver_finishes:
  assumes "receiver_main argv = Inr s0" and "rx_reach s0 k s" and "k < 2 ^ 64"
  shows "(rx_main s = Past \<longrightarrow> unat (n_msg s0) \<le> k)
    \<and> (unat (n_msg s0) \<le> k \<longrightarrow> rx_main ((main_step ^^ 2) ((callback_step ^^ 3) (main_step s))) = Past)"
proof -
  have inv: "rx_inv s" "n_msg s = n_msg s0" "n_received s = of_nat k"
    using reach_inv[OF assms(2,1,3)] by simp_all
  have k: "unat (of_nat k :: 64 word) = k"
    using assms(3) by (simp add: unat_of_nat take_bit_nat_def)
  then have le: "n_msg s \<le> n_received s \<longleftrightarrow> unat (n_msg s0) \<le> k"
    by (simp add: inv word_le_nat_alt)
  have "rx_main ((main_step ^^ 2) ((callback_step ^^ 3) (main_step s))) = Past" if "n_msg s \<le> n_received s"
    by (rule wait_ends[OF inv(1) that])
  then show ?thesis using inv(1) le by (auto simp: rx_inv_def)
qed

text \<open>One message of one: it is counted after the main thread found none, and before it waits.\<close>

lemma receiver_finishes_witness:
  "\<exists>s0 s. receiver_main [''register_sub'', ''1''] = Inr s0 \<and> rx_reach s0 1 s \<and> rx_main s = Entering
     \<and> rx_main ((main_step ^^ 2) ((callback_step ^^ 3) (main_step s))) = Past"
proof -
  define s0 where "s0 = \<lparr>n_msg = 1, n_received = 0, rx_main = Before_Lock, rx_cb = Not_Called\<rparr>"
  have start: "receiver_main [''register_sub'', ''1''] = Inr s0"
    by (simp add: receiver_main_def s0_def) code_simp
  let ?s = "receiver_callback (main_step (main_step s0))"
  have "rx_reach s0 (Suc 0) ?s"
    by (intro rx_message rx_main rx_start) (simp add: s0_def main_step_def)
  then have reach: "rx_reach s0 1 ?s" by simp
  have "rx_main ?s = Entering" by (simp add: s0_def main_step_def receiver_callback_def)
  moreover have "rx_main ((main_step ^^ 2) ((callback_step ^^ 3) (main_step ?s))) = Past"
    using receiver_finishes[OF start reach] by (simp add: s0_def)
  ultimately show ?thesis using start reach by blast
qed

section \<open>The remapping tool\<close>

text \<open>
  The arguments of \<open>call_remap\<close>: the address and port it connects to, the method it calls and the two
  lists of its request. The address is split at the first colon as in \<open>contactPublishers\<close>.
\<close>

definition call_remap_main :: "string list \<Rightarrow> (string \<times> int \<times> string \<times> string list \<times> string list) res" where
  "call_remap_main argv =
     ensure (length argv = 4) Ros_Break
       (Inr (node_address (argv ! 1), endpoint_port (argv ! 1), ''setRemappings'', [argv ! 2], [argv ! 3]))"

text \<open>Given the URI of a node it reaches that node, and leaves it with this one rule only.\<close>

lemma call_remap_replaces:
  assumes "0 \<le> port"
  shows "call_remap_main [prog, node_uri port, from_name, to_name] =
      Inr (''127.0.0.1'', port, ''setRemappings'', [from_name], [to_name])"
    and "setRemappings [from_name] [to_name] t = refreshRemaps (t\<lparr>remaps := [(from_name, to_name)]\<rparr>)"
  using assms by (simp_all add: call_remap_main_def node_uri_parsed setRemappings_def)

end
