(* ===== verification/Spec2Isabelle.thy ===== *)
theory Spec2Isabelle
  imports Node_Services Subscribing Blocking_Call Poll_Manager Pubsub_ZMQ Win_Poll Programs
begin

text \<open>
  A model of \<open>ros2_proto\<close>, a prototype of a publish/subscribe middleware in C++ (\<open>src/src\<close>), and
  proofs of what makes it correct.

  \<^bold>\<open>The program.\<close> One poll thread (\<open>PollManager\<close>) calls \<open>PollSet::update\<close> for ever; it waits on all
  sockets of the process and calls the function registered for each. \<open>TransportTCP\<close> owns one socket
  and passes messages, vectors of frames, over it in pieces. On top of it, \<open>service.hpp\<close> makes and
  serves remote calls, and \<open>pubsub_tcp.hpp\<close> publishes to any number of subscribers;
  \<open>pubsub_zmq.hpp\<close> does so over ZeroMQ with threads of its own. \<open>TopicManager\<close> holds the
  publications and subscriptions of a node and its renaming rules, \<open>MasterRegistration\<close> tells the
  \<open>Master\<close> about them by remote calls and asks the publishers it names for their URIs.

  \<^bold>\<open>The theories\<close>, each with the sources it models:

    \<^item> \<open>Prelude\<close>: results (\<open>abort + 'a\<close>), loops over them (\<open>foldR\<close>), four-byte numbers, \<open>std::map\<close> as an
      ordered association list, decimal printing, and the locales \<open>guarded_system\<close> and \<open>safe_system\<close>:
      a step function with an invariant, and what then holds of every run.
    \<^item> \<open>Poll_Set\<close> (\<open>poll_set.cpp\<close>, \<open>poll_set.h\<close>, \<open>poll_sockets\<close> of \<open>io.cpp\<close>); \<open>Poll_Manager\<close>
      (\<open>poll_manager.cpp\<close>). The locale \<open>event_registry\<close> is what the transport relies on.
    \<^item> \<open>Signal_Pair\<close> and \<open>Win_Poll\<close> (\<open>io.cpp\<close>, \<open>io.h\<close>): the signal pair on both platforms, the real pipe
      behind the byte counter of \<open>Poll_Set\<close> (locale \<open>wake_up\<close>), and the emulation of \<open>poll\<close> by \<open>select\<close>.
    \<^item> \<open>Transport_TCP\<close> (sockets), \<open>Messages\<close> (message passing), \<open>Connection\<close> (connecting, accepting,
      dispatching events), all of \<open>transport_tcp.cpp\<close>; \<open>Conn_Header\<close> (\<open>header.cpp\<close>).
    \<^item> \<open>Framing\<close>, \<open>Sending\<close>, \<open>Receiving\<close>, \<open>Channel\<close>: the wire format as a specification, and what the
      transports do to it over whole histories.
    \<^item> \<open>Establish\<close>: how a new connection becomes an established one, and the locale \<open>upper_layer\<close>, the
      contract between a transport and the layer whose functions it calls.
    \<^item> \<open>Services\<close>, \<open>Blocking_Call\<close>, \<open>Remote_Call\<close> (\<open>service.hpp\<close>).
    \<^item> \<open>Core\<close> (\<open>core.hpp\<close>), \<open>Pubsub\<close> (\<open>pubsub.hpp\<close>), \<open>Pubsub_TCP\<close> and \<open>Topic_Stream\<close>
      (\<open>pubsub_tcp.hpp\<close>), \<open>Pubsub_ZMQ\<close> (\<open>pubsub_zmq.hpp\<close> and what it uses of \<open>zmq.hpp\<close>).
    \<^item> \<open>Topic_Manager\<close> (\<open>topic_manager.cpp\<close>), \<open>Master\<close> (\<open>master.cpp\<close>), \<open>Registration\<close>
      (\<open>registration.hpp\<close>).
    \<^item> \<open>Subscribing\<close>: how a subscriber joins a publisher over TCP; \<open>Node_Services\<close>: the methods that
      \<open>Master::start\<close> and \<open>TopicManager::init\<close> bind, and what a call of each does over TCP. \<open>Programs\<close>: the wait of \<open>register_sub.cpp\<close> and the
      request of \<open>call_remap.cpp\<close>.

  \<^bold>\<open>How the code is modelled.\<close> A class is a record of its members, an operation a function on it that
  has the name of the method (with a prefix where two classes share one: \<open>ms_\<close>, \<open>msc_\<close>, \<open>sc_\<close>, \<open>tp_\<close>,
  \<open>ts_\<close>, \<open>pz_\<close>, \<open>sz_\<close>, \<open>mr_\<close>, \<open>tm_\<close>). The build keeps assertions, so an operation returns
  \<open>abort + 'a\<close>: every assertion, \<open>ROS_BREAK\<close>, uncaught exception and use of a null or deleted object
  is a branch. A \<open>uint32_t\<close> is a 32-bit word that wraps. What the system calls answer are arguments
  of each step, so a theorem that quantifies over them speaks of every behaviour of the kernel. A
  transport works on a view of the process, a record that the layers above extend with their own
  state; the calls it makes to them are recorded in \<open>upcalls\<close> and their reaction is an argument
  (\<open>react\<close>). Each operation holds its mutex throughout and is one step; where the code works without
  a mutex (\<open>ServiceClient::call\<close>, the threads of \<open>pubsub_zmq.hpp\<close>, \<open>PollManager::shutdown\<close>, the callback of \<open>register_sub.cpp\<close>) it is
  cut into steps which are interleaved freely.

  \<^bold>\<open>What is shown.\<close> Of one transport: it never aborts once established, whatever happens, and stays in
  step with the poll set (\<open>Connection\<close>); what arrives at one end of a stream is what was sent at the
  other (\<open>Channel\<close>), except for two defects that are stated and proved. Of the layers: a remote call
  runs the method once and answers once (\<open>Remote_Call\<close>); a subscriber's callback gets every k-th
  message, in order (\<open>Topic_Stream\<close>); the master implements two relations (\<open>Master\<close>); the names and
  topics of a node agree over all histories (\<open>Topic_Manager\<close>); what is published is found
  (\<open>Registration\<close>); the threads end when they are told to (\<open>Poll_Manager\<close>); a signal to the poll
  thread is not lost (\<open>Signal_Pair\<close>), and the Windows \<open>poll\<close> is one for up to 64 sockets (\<open>Win_Poll\<close>). Several theorems state
  defects: the condition under which the code aborts, overruns a buffer, leaks or loses a message.

  \<^bold>\<open>Bounds.\<close> No definition uses fuel. The loops of the code are structural recursions; histories are
  finite lists of steps of any length, and the answers of the system calls that a loop consumes are
  a finite list of any length (\<open>wait\<close> of \<open>MessageQueue::pop\<close>, the revents of \<open>os_poll\<close>).
  \<open>flush_drains\<close> gives the number of rounds that empty a queue.

  \<^bold>\<open>Parameters.\<close> The serialization that \<open>catkin\<close> generates (\<open>rd\<close>, \<open>wr\<close>, \<open>rdo\<close>, \<open>wro\<close>), the compression
  library (\<open>compress\<close>, \<open>uncompress\<close>), the functions a user passes in, and the kernel; the laws used
  of them are hypotheses of the theorems that need them.

  \<^bold>\<open>Not modelled.\<close> Logging (\<open>file_log.cpp\<close>) and the signal masks of \<open>common.cpp\<close>, which have no effect
  on the rest; the text of system errors (\<open>last_socket_error_string\<close>); the rest
  of the vendored binding \<open>zmq.hpp\<close>; what the example programs do beyond \<open>Programs\<close>, which is to create
  the objects and start the threads. The clock \<open>usectime\<close>, and the time a wait takes, are not modelled.
\<close>

end
